(* ===== verification/Prelude.thy ===== *)
theory Prelude
  imports Main "HOL-Library.Word" "HOL-Library.Sublist" "HOL-Library.Char_ord"
    "HOL-Library.List_Lexorder" "HOL-Library.Multiset"
begin

text \<open>
  What the components share: the Go error values, the loops over Go maps, decimal printing
  (the \<^verbatim>\<open>%d\<close> of package fmt), the named collections of facts and the generic
  lemmas on lists and maps.

  A Go string is a sequence of bytes, and so is a HOL \<^typ>\<open>string\<close> (a \<^typ>\<open>char\<close> is
  eight bits). A Go map is a HOL map \<open>'k \<rightharpoonup> 'v\<close>; Go visits the keys of a map in an
  unspecified order, so every \<^verbatim>\<open>for k := range m\<close> loop of the source becomes a fold
  over a list of keys that is an argument of the model, constrained by \<open>range_of\<close> only.
\<close>

type_synonym byte = "8 word"
type_synonym uint16 = "16 word"
type_synonym uint32 = "32 word"
type_synonym uint64 = "64 word"
type_synonym int32 = "32 word"  \<comment> \<open>read with \<open>sint\<close>\<close>

named_theorems go_defs "definitions of the Go library functions the source calls"
named_theorems op_defs "definitions of the operations of a component"
named_theorems inv_defs "definitions of invariants"
named_theorems keeps "an operation keeps an invariant"

subsection \<open>Errors\<close>

text \<open>
  A value of Go's interface type \<^verbatim>\<open>error\<close> is \<open>None\<close> for nil, else \<open>Some\<close> of one of
  these: a sentinel made by \<^verbatim>\<open>errors.New\<close> at package level (compared by identity, hence a
  constructor of its own), an operating system error number, a formatted error, a formatted
  error that wraps another one (the verb \<^verbatim>\<open>%w\<close>), and the one error type of the program that
  carries data. A function that returns \<^verbatim>\<open>(T, error)\<close> returns a \<open>goerr + 't\<close>.
\<close>

datatype goerr =
    Sentinel string
  | Errno nat
  | Errorf string
  | Wrapf string goerr
  | ConflictError "string list"

primrec errors_Is :: "goerr \<Rightarrow> goerr \<Rightarrow> bool" where
  "errors_Is (Sentinel s) t = (Sentinel s = t)"
| "errors_Is (Errno n) t = (Errno n = t)"
| "errors_Is (Errorf s) t = (Errorf s = t)"
| "errors_Is (ConflictError ns) t = (ConflictError ns = t)"
| "errors_Is (Wrapf s e) t = (Wrapf s e = t \<or> errors_Is e t)"

primrec errors_As_ConflictError :: "goerr \<Rightarrow> string list option" where
  "errors_As_ConflictError (Sentinel s) = None"
| "errors_As_ConflictError (Errno n) = None"
| "errors_As_ConflictError (Errorf s) = None"
| "errors_As_ConflictError (ConflictError ns) = Some ns"
| "errors_As_ConflictError (Wrapf s e) = errors_As_ConflictError e"

subsection \<open>Loops over maps\<close>

definition range_of :: "'k list \<Rightarrow> ('k \<rightharpoonup> 'v) \<Rightarrow> bool" where
  "range_of ks m \<longleftrightarrow> distinct ks \<and> set ks = dom m"

subsection \<open>Reachable states\<close>

text \<open>The states a step relation can reach from the initial ones, and the rule for invariants.\<close>

inductive reachable :: "('s \<Rightarrow> bool) \<Rightarrow> ('s \<Rightarrow> 's \<Rightarrow> bool) \<Rightarrow> 's \<Rightarrow> bool"
  for init :: "'s \<Rightarrow> bool" and step :: "'s \<Rightarrow> 's \<Rightarrow> bool" where
  reach_init: "init s \<Longrightarrow> reachable init step s"
| reach_step: "reachable init step s \<Longrightarrow> step s s' \<Longrightarrow> reachable init step s'"

subsection \<open>Decimal numbers\<close>

definition digit_char :: "nat \<Rightarrow> char" where
  "digit_char d = char_of (48 + d)"

definition is_digit :: "char \<Rightarrow> bool" where
  "is_digit c \<longleftrightarrow> 48 \<le> (of_char c :: nat) \<and> (of_char c :: nat) \<le> 57"

definition digit_val :: "char \<Rightarrow> nat" where
  "digit_val c = of_char c - 48"

fun dec :: "nat \<Rightarrow> string" where
  "dec n = (if n < 10 then [digit_char n] else dec (n div 10) @ [digit_char (n mod 10)])"

declare dec.simps [simp del]

definition undec :: "string \<Rightarrow> nat" where
  "undec s = foldl (\<lambda>n c. n * 10 + digit_val c) 0 s"

definition dec_int :: "int \<Rightarrow> string" where
  "dec_int i = (if i < 0 then CHR ''-'' # dec (nat (- i)) else dec (nat i))"

subsection \<open>Lemmas\<close>

lemma append_eq_longer:
  "xs @ ys = zs @ ws \<Longrightarrow> length xs \<le> length zs \<Longrightarrow> \<exists>us. zs = xs @ us \<and> ys = us @ ws"
  by (auto simp: append_eq_append_conv2)

lemma foldl_invariant:
  assumes "P x" "\<And>x y. y \<in> set ys \<Longrightarrow> P x \<Longrightarrow> P (f x y)"
  shows "P (foldl f x ys)"
  using assms by (induction ys arbitrary: x) simp_all

lemma unat_plus1: "n < m \<Longrightarrow> unat (n + 1) = unat n + 1" for n m :: "'a::len word"
proof -
  assume "n < m"
  then have "unat n + 1 \<le> unat m" by (simp add: word_less_nat_alt)
  also have "unat m < 2 ^ LENGTH('a)" by simp
  finally show ?thesis by (simp add: unat_word_ariths)
qed

lemma word_less_plus1: "n < m \<Longrightarrow> n < n + 1" for n m :: "'a::len word"
  using unat_plus1 [of n m] by (simp add: word_less_nat_alt)

lemma unat_of_nat32: "m < 2 ^ 32 \<Longrightarrow> unat (of_nat m :: uint32) = m"
  by (simp add: unat_of_nat)

lemma of_nat32_eq_0: "m < 2 ^ 32 \<Longrightarrow> (of_nat m :: uint32) = 0 \<longleftrightarrow> m = 0"
  using unat_of_nat32 [of m] by auto

lemma range_of_empty [simp]: "range_of ks Map.empty \<longleftrightarrow> ks = []"
  by (auto simp: range_of_def)

lemma range_of_distinct: "range_of ks m \<Longrightarrow> distinct ks"
  by (simp add: range_of_def)

lemma range_of_set: "range_of ks m \<Longrightarrow> set ks = dom m"
  by (simp add: range_of_def)

lemma range_of_finite: "range_of ks m \<Longrightarrow> finite (dom m)"
  by (metis List.finite_set range_of_set)

lemma range_of_perm: "range_of ks m \<Longrightarrow> range_of ks' m \<Longrightarrow> mset ks = mset ks'"
  by (metis range_of_def set_eq_iff_mset_eq_distinct)

lemma range_of_ex: "finite (dom m) \<Longrightarrow> \<exists>ks. range_of ks m"
  by (metis finite_distinct_list range_of_def)

lemma reachable_invariant:
  assumes "reachable init step s" "\<And>s. init s \<Longrightarrow> P s" "\<And>s s'. P s \<Longrightarrow> step s s' \<Longrightarrow> P s'"
  shows "P s"
  using assms(1) by (induction rule: reachable.induct) (auto intro: assms(2,3))

lemma reachable_steps:
  assumes "reachable init step s" "step\<^sup>*\<^sup>* s s'"
  shows "reachable init step s'"
  using assms(2,1) by (induction rule: rtranclp_induct) (auto intro: reach_step)

lemma reachable_mono:
  assumes "reachable init step s" "\<And>s s'. step s s' \<Longrightarrow> step' s s'"
  shows "reachable init step' s"
  using assms(1) by (induction rule: reachable.induct) (auto intro: reach_init reach_step assms(2))

lemma is_digit_digit_char [simp]: "d < 10 \<Longrightarrow> is_digit (digit_char d)"
  by (simp add: is_digit_def digit_char_def)

lemma digit_val_digit_char [simp]: "d < 10 \<Longrightarrow> digit_val (digit_char d) = d"
  by (simp add: digit_val_def digit_char_def)

lemma digit_char_neq [simp]:
  assumes "d < 10" "\<not> is_digit c"
  shows "digit_char d \<noteq> c" "c \<noteq> digit_char d"
  using assms is_digit_digit_char by blast+

lemma dec_digits: "c \<in> set (dec n) \<Longrightarrow> is_digit c"
  by (induction n rule: dec.induct)
    (subst (asm) (2) dec.simps, auto split: if_splits)

lemma dec_nonempty [simp]: "dec n \<noteq> []"
  by (subst dec.simps) simp

lemma undec_snoc: "undec (s @ [c]) = undec s * 10 + digit_val c"
  by (simp add: undec_def)

lemma undec_dec [simp]: "undec (dec n) = n"
proof (induction n rule: dec.induct)
  case (1 n)
  then show ?case
    by (subst dec.simps) (auto simp: undec_snoc, simp add: undec_def)
qed

lemma dec_inj [simp]: "dec m = dec n \<longleftrightarrow> m = n"
  by (metis undec_dec)

lemma dec_no_leading_zero: "10 \<le> n \<Longrightarrow> hd (dec n) \<noteq> CHR ''0''"
proof (induction n rule: dec.induct)
  case (1 n)
  show ?case
  proof (cases "n div 10 < 10")
    case True
    with "1.prems" have "0 < n div 10" by simp
    have "digit_val (digit_char (n div 10)) \<noteq> digit_val (CHR ''0'')"
      using True \<open>0 < n div 10\<close> by (simp add: digit_val_def [of "CHR ''0''"])
    then have "digit_char (n div 10) \<noteq> CHR ''0''" by auto
    with True "1.prems" show ?thesis by (simp add: dec.simps [of n] dec.simps [of "n div 10"])
  next
    case False
    with "1.IH" "1.prems" have "hd (dec (n div 10)) \<noteq> CHR ''0''" by simp
    with "1.prems" show ?thesis by (subst dec.simps) simp
  qed
qed

lemma dec_int_inj [simp]: "dec_int i = dec_int j \<longleftrightarrow> i = j"
proof
  assume eq: "dec_int i = dec_int j"
  have minus: "\<not> is_digit (CHR ''-'')" by (simp add: is_digit_def)
  have "CHR ''-'' \<notin> set (dec n)" for n using dec_digits minus by blast
  then have "dec n \<noteq> CHR ''-'' # s" for n s by (metis list.set_intros(1))
  with eq have "(i < 0) = (j < 0)"
    by (auto simp: dec_int_def split: if_splits) metis+
  with eq show "i = j" by (auto simp: dec_int_def split: if_splits)
qed simp

end
