(* ===== verification/Go_Strings.thy ===== *)
theory Go_Strings
  imports Prelude
begin

text \<open>
  The functions of Go's packages \<^verbatim>\<open>strings\<close> and \<^verbatim>\<open>bytes\<close> that the program calls, on HOL
  strings, and their laws. \<^verbatim>\<open>Index\<close> and \<^verbatim>\<open>LastIndex\<close> return \<open>None\<close> where Go returns -1.
  \<open>Split\<close> is \<^verbatim>\<open>strings.Split\<close> for a separator of one byte, the only kind used.
\<close>

definition HasPrefix :: "string \<Rightarrow> string \<Rightarrow> bool" where
  [go_defs]: "HasPrefix s p \<longleftrightarrow> length p \<le> length s \<and> take (length p) s = p"

definition HasSuffix :: "string \<Rightarrow> string \<Rightarrow> bool" where
  [go_defs]: "HasSuffix s suf \<longleftrightarrow>
     length suf \<le> length s \<and> drop (length s - length suf) s = suf"

definition CutSuffix :: "string \<Rightarrow> string \<Rightarrow> string \<times> bool" where
  [go_defs]: "CutSuffix s suf =
     (if HasSuffix s suf then (take (length s - length suf) s, True) else (s, False))"

definition TrimSuffix :: "string \<Rightarrow> string \<Rightarrow> string" where
  [go_defs]: "TrimSuffix s suf =
     (if HasSuffix s suf then take (length s - length suf) s else s)"

fun Index :: "string \<Rightarrow> string \<Rightarrow> nat option" where
  "Index [] sub = (if sub = [] then Some 0 else None)"
| "Index (c # s) sub = (if HasPrefix (c # s) sub then Some 0 else map_option Suc (Index s sub))"

fun LastIndex :: "string \<Rightarrow> string \<Rightarrow> nat option" where
  "LastIndex [] sub = (if sub = [] then Some 0 else None)"
| "LastIndex (c # s) sub =
     (case LastIndex s sub of
        Some i \<Rightarrow> Some (Suc i)
      | None \<Rightarrow> if HasPrefix (c # s) sub then Some 0 else None)"

definition Contains :: "string \<Rightarrow> string \<Rightarrow> bool" where
  [go_defs]: "Contains s sub \<longleftrightarrow> Index s sub \<noteq> None"

fun Split :: "string \<Rightarrow> char \<Rightarrow> string list" where
  "Split [] sep = [[]]"
| "Split (c # s) sep =
     (if c = sep then [] # Split s sep
      else (case Split s sep of [] \<Rightarrow> [[c]] | x # xs \<Rightarrow> (c # x) # xs))"

fun Join :: "string list \<Rightarrow> string \<Rightarrow> string" where
  "Join [] sep = []"
| "Join [x] sep = x"
| "Join (x # y # xs) sep = x @ sep @ Join (y # xs) sep"

text \<open>
  \<^verbatim>\<open>strings.ToLower\<close>: a string of ASCII bytes only is lowered byte by byte; any other string
  goes through the Unicode tables, which are the argument \<open>unicodeLower\<close>.
\<close>

definition lower_byte :: "char \<Rightarrow> char" where
  "lower_byte c = (if 65 \<le> (of_char c :: nat) \<and> (of_char c :: nat) \<le> 90
     then char_of ((of_char c :: nat) + 32) else c)"

definition ToLower :: "(string \<Rightarrow> string) \<Rightarrow> string \<Rightarrow> string" where
  [go_defs]: "ToLower unicodeLower s =
     (if \<forall>c \<in> set s. (of_char c :: nat) < 128 then map lower_byte s else unicodeLower s)"

text \<open>
  \<open>blank raw\<close> is \<^verbatim>\<open>len(bytes.TrimSpace(raw)) == 0\<close>: the bytes are a sequence of white space
  code points in UTF-8, the six ASCII ones and those of Unicode's White_Space property.
\<close>

definition ascii_space :: "nat \<Rightarrow> bool" where
  "ascii_space n \<longleftrightarrow> n = 9 \<or> n = 10 \<or> n = 11 \<or> n = 12 \<or> n = 13 \<or> n = 32"

definition space2 :: "nat \<Rightarrow> nat \<Rightarrow> bool" where
  "space2 a b \<longleftrightarrow> a = 0xC2 \<and> (b = 0x85 \<or> b = 0xA0)"

definition space3 :: "nat \<Rightarrow> nat \<Rightarrow> nat \<Rightarrow> bool" where
  "space3 a b c \<longleftrightarrow>
     (a = 0xE1 \<and> b = 0x9A \<and> c = 0x80) \<or>
     (a = 0xE2 \<and> b = 0x80 \<and> (0x80 \<le> c \<and> c \<le> 0x8A \<or> c = 0xA8 \<or> c = 0xA9 \<or> c = 0xAF)) \<or>
     (a = 0xE2 \<and> b = 0x81 \<and> c = 0x9F) \<or>
     (a = 0xE3 \<and> b = 0x80 \<and> c = 0x80)"

fun blank :: "string \<Rightarrow> bool" where
  "blank [] = True"
| "blank [a] = ascii_space (of_char a)"
| "blank [a, b] = (if ascii_space (of_char a) then blank [b] else space2 (of_char a) (of_char b))"
| "blank (a # b # c # s) =
     (if ascii_space (of_char a) then blank (b # c # s)
      else if space2 (of_char a) (of_char b) then blank (c # s)
      else if space3 (of_char a) (of_char b) (of_char c) then blank s else False)"

subsection \<open>The text of an error\<close>

definition ConflictError_Error :: "string list \<Rightarrow> string" where
  "ConflictError_Error names =
     ''kubeconfig conflicts with existing entries: '' @ Join names '', ''"

definition errno_text :: "nat \<Rightarrow> string" where
  "errno_text n =
     (if n = 1 then ''operation not permitted''
      else if n = 17 then ''file exists''
      else if n = 98 then ''address already in use''
      else if n = 99 then ''cannot assign requested address''
      else ''errno '' @ dec n)"

primrec err_Error :: "goerr \<Rightarrow> string" where
  "err_Error (Sentinel s) = s"
| "err_Error (Errno n) = errno_text n"
| "err_Error (Errorf s) = s"
| "err_Error (Wrapf s e) = s @ '': '' @ err_Error e"
| "err_Error (ConflictError ns) = ConflictError_Error ns"

subsection \<open>Laws\<close>

lemma HasPrefix_prefix: "HasPrefix s p \<longleftrightarrow> prefix p s"
  by (auto simp: HasPrefix_def prefix_def) (metis append_take_drop_id)

lemma HasSuffix_suffix: "HasSuffix s p \<longleftrightarrow> suffix p s"
  by (auto simp: HasSuffix_def suffix_def) (metis append_take_drop_id)

lemma HasSuffix_iff: "HasSuffix s p \<longleftrightarrow> (\<exists>q. s = q @ p)"
  by (simp add: HasSuffix_suffix suffix_def)

lemma HasPrefix_iff: "HasPrefix s p \<longleftrightarrow> (\<exists>q. s = p @ q)"
  by (simp add: HasPrefix_prefix prefix_def)

lemma HasSuffix_append [simp]: "HasSuffix (s @ p) p"
  by (simp add: HasSuffix_iff)

lemma HasPrefix_append [simp]: "HasPrefix (p @ s) p"
  by (simp add: HasPrefix_iff)

lemma CutSuffix_append [simp]: "CutSuffix (s @ p) p = (s, True)"
  by (simp add: CutSuffix_def)

lemma CutSuffix_no [simp]: "\<not> HasSuffix s p \<Longrightarrow> CutSuffix s p = (s, False)"
  by (simp add: CutSuffix_def)

lemma TrimSuffix_append [simp]: "TrimSuffix (s @ p) p = s"
  by (simp add: TrimSuffix_def)

lemma TrimSuffix_no [simp]: "\<not> HasSuffix s p \<Longrightarrow> TrimSuffix s p = s"
  by (simp add: TrimSuffix_def)

lemma Index_Some:
  "Index s sub = Some i \<Longrightarrow>
     (\<exists>p q. s = p @ sub @ q \<and> length p = i) \<and> (\<forall>j<i. \<not> HasPrefix (drop j s) sub)"
proof (induction s arbitrary: i)
  case Nil
  then show ?case by (auto split: if_splits)
next
  case (Cons c s)
  show ?case
  proof (cases "HasPrefix (c # s) sub")
    case True
    with Cons.prems show ?thesis by (auto simp: HasPrefix_iff)
  next
    case False
    with Cons.prems obtain k where k: "Index s sub = Some k" "i = Suc k" by auto
    from Cons.IH [OF k(1)] obtain p q where "s = p @ sub @ q" "length p = k"
      and min: "\<forall>j<k. \<not> HasPrefix (drop j s) sub" by blast
    then have "c # s = (c # p) @ sub @ q" "length (c # p) = i" using k by simp_all
    moreover have "\<not> HasPrefix (drop j (c # s)) sub" if "j < i" for j
      using that False min k by (cases j) auto
    ultimately show ?thesis by blast
  qed
qed

lemma Index_None: "Index s sub = None \<longleftrightarrow> (\<forall>p q. s \<noteq> p @ sub @ q)"
proof (induction s)
  case (Cons c s)
  have "(\<exists>p q. c # s = p @ sub @ q) \<longleftrightarrow>
      HasPrefix (c # s) sub \<or> (\<exists>p q. s = p @ sub @ q)" (is "?l = ?r")
  proof
    assume ?l
    then obtain p q where "c # s = p @ sub @ q" by blast
    then show ?r by (cases p) (auto simp: HasPrefix_iff)
  next
    assume ?r
    then show ?l by (metis HasPrefix_iff append_Cons append_Nil)
  qed
  with Cons.IH show ?case by auto
qed auto

lemma Contains_iff: "Contains s sub \<longleftrightarrow> (\<exists>p q. s = p @ sub @ q)"
  by (simp only: Contains_def Index_None) blast

lemma Contains_char [simp]: "Contains s [c] \<longleftrightarrow> c \<in> set s"
  by (auto simp: Contains_iff in_set_conv_decomp)

lemma LastIndex_None: "LastIndex s sub = None \<longleftrightarrow> Index s sub = None"
  by (induction s) (auto split: option.splits)

lemma LastIndex_Some:
  "LastIndex s sub = Some i \<Longrightarrow>
     (\<exists>p q. s = p @ sub @ q \<and> length p = i) \<and>
     (\<forall>p q. s = p @ sub @ q \<longrightarrow> length p \<le> i)"
proof (induction s arbitrary: i)
  case (Cons c s)
  show ?case
  proof (cases "LastIndex s sub")
    case None
    then have no: "\<forall>p q. s \<noteq> p @ sub @ q" by (simp add: LastIndex_None Index_None)
    from None Cons.prems have "i = 0" "HasPrefix (c # s) sub" by (auto split: if_splits)
    moreover have "p = []" if "c # s = p @ sub @ q" for p q
      using that no by (cases p) auto
    ultimately show ?thesis by (metis HasPrefix_iff append_Nil list.size(3) order_refl)
  next
    case (Some k)
    with Cons.prems have i: "i = Suc k" by simp
    from Cons.IH [OF Some] obtain p q where "s = p @ sub @ q" "length p = k"
      and max: "\<And>p q. s = p @ sub @ q \<Longrightarrow> length p \<le> k" by blast
    then have "c # s = (c # p) @ sub @ q" "length (c # p) = i" using i by simp_all
    moreover have "length p' \<le> i" if "c # s = p' @ sub @ q'" for p' q'
      using that max i by (cases p') auto
    ultimately show ?thesis by blast
  qed
qed (auto split: if_splits)

lemma LastIndex_eqI:
  assumes "s = p @ sub @ q" and "\<And>p' q'. s = p' @ sub @ q' \<Longrightarrow> length p' \<le> length p"
  shows "LastIndex s sub = Some (length p)"
proof (cases "LastIndex s sub")
  case None
  then have "\<forall>p q. s \<noteq> p @ sub @ q" by (simp add: LastIndex_None Index_None)
  with assms(1) show ?thesis by blast
next
  case (Some i)
  with LastIndex_Some [OF this] assms show ?thesis by (metis order_antisym)
qed

lemma Split_nonempty [simp]: "Split s sep \<noteq> []"
  by (cases s) (auto split: list.splits)

lemma Split_no_sep: "sep \<notin> set s \<Longrightarrow> Split s sep = [s]"
  by (induction s) auto

lemma Split_append: "sep \<notin> set s \<Longrightarrow> Split (s @ sep # t) sep = s # Split t sep"
  by (induction s) auto

lemma Split_append_sep: "Split (s @ sep # t) sep = Split s sep @ Split t sep"
proof (induction s)
  case (Cons c s)
  obtain y ys where "Split s sep = y # ys" by (cases "Split s sep") auto
  with Cons show ?case by auto
qed simp

lemma Split_pieces: "x \<in> set (Split s sep) \<Longrightarrow> sep \<notin> set x"
proof (induction s arbitrary: x)
  case (Cons c s)
  obtain y ys where "Split s sep = y # ys" by (cases "Split s sep") auto
  with Cons show ?case by (auto split: if_splits)
qed simp

lemma Join_Cons: "xs \<noteq> [] \<Longrightarrow> Join (x # xs) sep = x @ sep @ Join xs sep"
  by (cases xs) auto

lemma set_Join: "set (Join xs sep) \<subseteq> \<Union> (set ` set xs) \<union> set sep"
  by (induction xs sep rule: Join.induct) auto

lemma Join_Split: "Join (Split s sep) [sep] = s"
proof (induction s)
  case (Cons c s)
  obtain y ys where y: "Split s sep = y # ys" by (cases "Split s sep") auto
  with Cons.IH show ?case by (cases ys) (auto simp: Join_Cons)
qed simp

lemma Split_inj: "Split s sep = Split t sep \<Longrightarrow> s = t"
  by (metis Join_Split)

lemma Split_Join:
  "xs \<noteq> [] \<Longrightarrow> (\<And>x. x \<in> set xs \<Longrightarrow> sep \<notin> set x) \<Longrightarrow> Split (Join xs [sep]) sep = xs"
proof (induction xs)
  case (Cons x xs)
  show ?case
  proof (cases xs)
    case Nil
    with Cons.prems show ?thesis by (simp add: Split_no_sep)
  next
    case (Cons y ys)
    with Cons.IH Cons.prems show ?thesis by (simp add: Split_append)
  qed
qed simp

lemma Split_length: "length (Split s sep) = Suc (count_list s sep)"
  by (induction s) (auto split: list.splits)

end
