(* ===== verification/Go_Net.thy ===== *)
theory Go_Net
  imports Go_Strings
begin

unbundle bit_operations_syntax

text \<open>
  What the program uses of Go's packages \<^verbatim>\<open>net\<close>, \<^verbatim>\<open>net/netip\<close> and \<^verbatim>\<open>encoding/binary\<close>: IP addresses
  as byte slices, their textual form and its parser, CIDR ranges, host and port pairs.

  A \<^verbatim>\<open>net.IP\<close> is a list of bytes: 4 for the short form of an IPv4 address, 16 for IPv6 and for the
  long form of IPv4, none for nil. An \<^verbatim>\<open>IPMask\<close> is the pair (ones, bits) of the
  \<^verbatim>\<open>CIDRMask(ones, bits)\<close> that made it, which is what its method \<^verbatim>\<open>Size\<close> returns.
\<close>

type_synonym ip = "byte list"
type_synonym ipmask = "nat \<times> nat"

definition v4InV6Prefix :: ip where
  "v4InV6Prefix = [0, 0, 0, 0, 0, 0, 0, 0, 0, 0, 255, 255]"

definition To4 :: "ip \<Rightarrow> ip" where
  "To4 a = (if length a = 4 then a
     else if length a = 16 \<and> take 12 a = v4InV6Prefix then drop 12 a else [])"

definition To16 :: "ip \<Rightarrow> ip" where
  "To16 a = (if length a = 4 then v4InV6Prefix @ a else if length a = 16 then a else [])"

text \<open>\<^verbatim>\<open>IP.Equal\<close>: an IPv4 address and its 16-byte form are equal.\<close>

definition IP_Equal :: "ip \<Rightarrow> ip \<Rightarrow> bool" where
  "IP_Equal a b \<longleftrightarrow>
     (if length a = length b then a = b
      else if length a = 4 \<and> length b = 16 then take 12 b = v4InV6Prefix \<and> a = drop 12 b
      else if length a = 16 \<and> length b = 4 then take 12 a = v4InV6Prefix \<and> drop 12 a = b
      else False)"

subsection \<open>Big-endian words\<close>

fun be_Uint32 :: "byte list \<Rightarrow> uint32" where
  "be_Uint32 [a, b, c, d] =
     push_bit 24 (ucast a) OR push_bit 16 (ucast b) OR push_bit 8 (ucast c) OR ucast d"
| "be_Uint32 _ = 0"

definition be_PutUint32 :: "uint32 \<Rightarrow> byte list" where
  "be_PutUint32 n =
     [ucast (drop_bit 24 n), ucast (drop_bit 16 n), ucast (drop_bit 8 n), ucast n]"

subsection \<open>Printing addresses\<close>

definition dotted :: "ip \<Rightarrow> string" where
  "dotted a = Join (map (\<lambda>b. dec (unat b)) a) ''.''"

definition hex_char :: "nat \<Rightarrow> char" where
  "hex_char d = (if d < 10 then char_of (48 + d) else char_of (87 + d))"

fun hex :: "nat \<Rightarrow> string" where
  "hex n = (if n < 16 then [hex_char n] else hex (n div 16) @ [hex_char (n mod 16)])"

declare hex.simps [simp del]

fun groups6 :: "ip \<Rightarrow> nat list" where
  "groups6 (a # b # r) = (unat a * 256 + unat b) # groups6 r"
| "groups6 _ = []"

text \<open>The longest run of at least two zero groups, the first one of that length.\<close>

definition zero_run :: "nat list \<Rightarrow> nat \<Rightarrow> nat" where
  "zero_run gs i = length (takeWhile (\<lambda>g. g = 0) (drop i gs))"

definition best_run :: "nat list \<Rightarrow> nat \<times> nat" where
  "best_run gs = foldl (\<lambda>(s, l) i. let k = zero_run gs i in
       if 2 \<le> k \<and> l < k then (i, k) else (s, l)) (255, 0) [0..<8]"

definition ip6_String :: "ip \<Rightarrow> string" where
  "ip6_String a =
     (let gs = groups6 a; (s, l) = best_run gs in
      if l = 0 then Join (map hex gs) '':''
      else Join (map hex (take s gs)) '':'' @ ''::'' @ Join (map hex (drop (s + l) gs)) '':'')"

definition hex2 :: "byte \<Rightarrow> string" where
  "hex2 b = [hex_char (unat b div 16), hex_char (unat b mod 16)]"

definition IP_String :: "ip \<Rightarrow> string" where
  "IP_String a =
     (if a = [] then ''<nil>''
      else if length a \<noteq> 4 \<and> length a \<noteq> 16 then ''?'' @ concat (map hex2 a)
      else if length (To4 a) = 4 then dotted (To4 a)
      else ip6_String a)"

subsection \<open>Parsing addresses\<close>

datatype netip_Addr = Addr4 ip | Addr6 ip string  \<comment> \<open>IPv6 with its zone\<close>

definition parse_octet :: "string \<Rightarrow> byte option" where
  "parse_octet s =
     (if s \<noteq> [] \<and> list_all is_digit s \<and> (1 < length s \<longrightarrow> hd s \<noteq> CHR ''0'') \<and> undec s \<le> 255
      then Some (of_nat (undec s)) else None)"

definition parseIPv4 :: "string \<Rightarrow> ip option" where
  "parseIPv4 s = (let os = map parse_octet (Split s (CHR ''.'')) in
     if length os = 4 \<and> list_all (\<lambda>x. x \<noteq> None) os then Some (map the os) else None)"

definition is_hex :: "char \<Rightarrow> bool" where
  "is_hex c \<longleftrightarrow> (let n = of_char c :: nat in
     48 \<le> n \<and> n \<le> 57 \<or> 97 \<le> n \<and> n \<le> 102 \<or> 65 \<le> n \<and> n \<le> 70)"

definition hex_val :: "char \<Rightarrow> nat" where
  "hex_val c = (let n = of_char c :: nat in
     if n \<le> 57 then n - 48 else if n \<le> 70 then n - 55 else n - 87)"

definition unhex :: "string \<Rightarrow> nat" where
  "unhex s = foldl (\<lambda>n c. n * 16 + hex_val c) 0 s"

text \<open>
  The loop of \<^verbatim>\<open>parseIPv6\<close>: one group of at most four hexadecimal digits per round, or an
  embedded IPv4 address at the end; \<open>ell\<close> is the position of the ellipsis. The result is
  the rest of the input, the bytes read and the ellipsis.
\<close>

function parse6 :: "string \<Rightarrow> ip \<Rightarrow> nat option \<Rightarrow> (string \<times> ip \<times> nat option) option" where
  "parse6 s acc ell =
     (if 16 \<le> length acc then Some (s, acc, ell)
      else
       (let h = takeWhile is_hex s; r = dropWhile is_hex s; v = unhex h;
            acc' = acc @ [of_nat (v div 256), of_nat (v mod 256)]
        in if 4 < length h \<or> h = [] then None
        else (case r of
            [] \<Rightarrow> Some ([], acc', ell)
          | c # r1 \<Rightarrow>
              if c = CHR ''.'' then
                (if ell = None \<and> length acc \<noteq> 12 \<or> 12 < length acc then None
                 else (case parseIPv4 s of None \<Rightarrow> None | Some f \<Rightarrow> Some ([], acc @ f, ell)))
              else if c \<noteq> CHR '':'' then None
              else (case r1 of
                  [] \<Rightarrow> None
                | d # r2 \<Rightarrow>
                    if d \<noteq> CHR '':'' then parse6 r1 acc' ell
                    else if ell \<noteq> None then None
                    else if r2 = [] then Some ([], acc', Some (length acc'))
                    else parse6 r2 acc' (Some (length acc'))))))"
  by pat_completeness auto
termination
  by (relation "measure (\<lambda>(s, acc, ell). 16 - length acc)") auto

declare parse6.simps [simp del]

definition expand6 :: "ip \<Rightarrow> nat option \<Rightarrow> ip option" where
  "expand6 acc ell =
     (if length acc < 16 then
        (case ell of None \<Rightarrow> None
         | Some e \<Rightarrow> Some (take e acc @ replicate (16 - length acc) 0 @ drop e acc))
      else if ell = None then Some acc else None)"

definition parseIPv6 :: "string \<Rightarrow> netip_Addr option" where
  "parseIPv6 full =
     (let s = takeWhile (\<lambda>c. c \<noteq> CHR ''%'') full;
          zone = drop (length s + 1) full
      in if length s < length full \<and> zone = [] then None
      else if s = ''::'' then Some (Addr6 (replicate 16 0) zone)
      else
        (case (if HasPrefix s ''::'' then parse6 (drop 2 s) [] (Some 0) else parse6 s [] None) of
           None \<Rightarrow> None
         | Some (rest, acc, ell) \<Rightarrow>
             if rest \<noteq> [] then None else map_option (\<lambda>b. Addr6 b zone) (expand6 acc ell)))"

fun first_sep :: "string \<Rightarrow> char option" where
  "first_sep [] = None"
| "first_sep (c # s) =
     (if c = CHR ''.'' \<or> c = CHR '':'' \<or> c = CHR ''%'' then Some c else first_sep s)"

definition ParseAddr :: "string \<Rightarrow> netip_Addr option" where
  "ParseAddr s =
     (case first_sep s of
        None \<Rightarrow> None
      | Some c \<Rightarrow> if c = CHR ''.'' then map_option Addr4 (parseIPv4 s)
                  else if c = CHR '':'' then parseIPv6 s else None)"

text \<open>\<^verbatim>\<open>net.ParseIP\<close>: always the 16-byte form, no zone; \<open>None\<close> is nil.\<close>

definition ParseIP :: "string \<Rightarrow> ip option" where
  "ParseIP s = (case ParseAddr s of
       None \<Rightarrow> None
     | Some (Addr4 b) \<Rightarrow> Some (v4InV6Prefix @ b)
     | Some (Addr6 b z) \<Rightarrow> if z = [] then Some b else None)"

subsection \<open>CIDR ranges\<close>

definition dtoi :: "string \<Rightarrow> nat option" where
  "dtoi s = (if s \<noteq> [] \<and> list_all is_digit s \<and> undec s < 0xFFFFFF then Some (undec s) else None)"

definition mask_byte :: "nat \<Rightarrow> nat \<Rightarrow> byte" where
  "mask_byte ones i = push_bit (8 - min 8 (ones - 8 * i)) (mask (min 8 (ones - 8 * i)))"

definition IP_Mask :: "ip \<Rightarrow> ipmask \<Rightarrow> ip" where
  "IP_Mask a m = (case m of (ones, bits) \<Rightarrow>
     (let a' = (if bits = 32 \<and> length a = 16 \<and> take 12 a = v4InV6Prefix then drop 12 a else a)
      in if length a' = bits div 8
         then map (\<lambda>i. a' ! i AND mask_byte ones i) [0..<length a'] else []))"

record ipnet =
  net_IP :: ip
  net_Mask :: ipmask

definition Mask_Size :: "ipmask \<Rightarrow> nat \<times> nat" where
  "Mask_Size m = m"

definition ParseCIDR :: "string \<Rightarrow> (ip \<times> ipnet) option" where
  "ParseCIDR s =
     (let addr = takeWhile (\<lambda>c. c \<noteq> CHR ''/'') s; m = drop (length addr + 1) s
      in if CHR ''/'' \<notin> set s then None
      else (case ParseAddr addr of
          None \<Rightarrow> None
        | Some a \<Rightarrow>
            (let (bytes, bits, zone) =
                (case a of Addr4 b \<Rightarrow> (v4InV6Prefix @ b, 32, []) | Addr6 b z \<Rightarrow> (b, 128, z))
             in if zone \<noteq> [] then None
             else (case dtoi m of
                 None \<Rightarrow> None
               | Some n \<Rightarrow> if bits < n then None
                   else Some (bytes, \<lparr>net_IP = IP_Mask bytes (n, bits), net_Mask = (n, bits)\<rparr>)))))"

subsection \<open>Host and port\<close>

definition addrErr :: "string \<Rightarrow> string \<Rightarrow> goerr" where
  "addrErr addr why = Errorf (''address '' @ addr @ '': '' @ why)"

definition SplitHostPort :: "string \<Rightarrow> goerr + (string \<times> string)" where
  "SplitHostPort hp =
     (case LastIndex hp '':'' of
        None \<Rightarrow> Inl (addrErr hp ''missing port in address'')
      | Some i \<Rightarrow>
        (let res =
           (if hd hp = CHR ''['' then
              (case Index hp '']'' of
                 None \<Rightarrow> Inl (addrErr hp ''missing ']' in address'')
               | Some e \<Rightarrow>
                   if e + 1 = length hp then Inl (addrErr hp ''missing port in address'')
                   else if e + 1 = i then Inr (drop 1 (take e hp), 1, e + 1)
                   else if hp ! (e + 1) = CHR '':''
                   then Inl (addrErr hp ''too many colons in address'')
                   else Inl (addrErr hp ''missing port in address''))
            else if Contains (take i hp) '':''
            then Inl (addrErr hp ''too many colons in address'')
            else Inr (take i hp, 0, 0))
         in case res of
              Inl e \<Rightarrow> Inl e
            | Inr (host, j, k) \<Rightarrow>
                if Contains (drop j hp) ''['' then Inl (addrErr hp ''unexpected '[' in address'')
                else if Contains (drop k hp) '']'' then Inl (addrErr hp ''unexpected ']' in address'')
                else Inr (host, drop (i + 1) hp)))"

definition JoinHostPort :: "string \<Rightarrow> string \<Rightarrow> string" where
  "JoinHostPort host port =
     (if Contains host '':'' then ''['' @ host @ '']:'' @ port else host @ '':'' @ port)"

subsection \<open>Lemmas: big-endian words\<close>

lemma length_be_PutUint32 [simp]: "length (be_PutUint32 n) = 4"
  by (simp add: be_PutUint32_def)

lemma be_Uint32_PutUint32 [simp]: "be_Uint32 (be_PutUint32 n) = n"
proof (rule bit_word_eqI)
  fix k assume "k < LENGTH(32)"
  then consider "k < 8" | "8 \<le> k" "k < 16" | "16 \<le> k" "k < 24" | "24 \<le> k" "k < 32"
    by fastforce
  then show "bit (be_Uint32 (be_PutUint32 n)) k = bit n k"
    by cases (auto simp: be_PutUint32_def bit_simps)
qed

lemma be_PutUint32_inj [simp]: "be_PutUint32 m = be_PutUint32 n \<longleftrightarrow> m = n"
  by (metis be_Uint32_PutUint32)

lemma length_4E:
  assumes "length a = 4"
  obtains b0 b1 b2 b3 where "a = [b0, b1, b2, b3]"
  using assms by (auto simp: numeral_eq_Suc length_Suc_conv)

lemma length_v4InV6Prefix [simp]: "length v4InV6Prefix = 12"
  by (simp add: v4InV6Prefix_def)

lemma To4_short [simp]: "length a = 4 \<Longrightarrow> To4 a = a"
  by (simp add: To4_def)

lemma To4_long [simp]: "length a = 4 \<Longrightarrow> To4 (v4InV6Prefix @ a) = a"
  by (simp add: To4_def)

lemma IP_Equal_refl [simp]: "IP_Equal a a"
  by (simp add: IP_Equal_def)

lemma IP_Equal_long [simp]: "length a = 4 \<Longrightarrow> IP_Equal a (v4InV6Prefix @ a)"
  by (simp add: IP_Equal_def)

lemma IP_Equal_4: "length a = 4 \<Longrightarrow> length b = 4 \<Longrightarrow> IP_Equal a b \<longleftrightarrow> a = b"
  by (simp add: IP_Equal_def)

subsection \<open>Lemmas: the text of an IPv4 address\<close>

lemma IP_String_4 [simp]: "length a = 4 \<Longrightarrow> IP_String a = dotted a"
  by (auto simp: IP_String_def)

lemma IP_String_long [simp]: "length a = 4 \<Longrightarrow> IP_String (v4InV6Prefix @ a) = dotted a"
  by (auto simp: IP_String_def)

lemma parse_octet_dec: "n \<le> 255 \<Longrightarrow> parse_octet (dec n) = Some (of_nat n)"
proof -
  assume n: "n \<le> 255"
  have "10 \<le> n" if "1 < length (dec n)"
    using that by (rule contrapos_pp) (simp add: dec.simps [of n])
  then show ?thesis
    using n dec_no_leading_zero [of n] dec_digits [of _ n]
    by (auto simp: parse_octet_def list_all_iff)
qed

lemma dot_not_dec: "CHR ''.'' \<notin> set (dec n)"
  using dec_digits [of "CHR ''.''" n] by (auto simp: is_digit_def)

lemma Split_dotted:
  "a \<noteq> [] \<Longrightarrow> Split (dotted a) (CHR ''.'') = map (\<lambda>b. dec (unat b)) a"
  unfolding dotted_def by (rule Split_Join) (auto simp: dot_not_dec)

lemma unat_less_byte: "unat (b :: byte) < 256"
  using unsigned_less [of b] by simp

lemma parse_octet_byte [simp]: "parse_octet (dec (unat (b :: byte))) = Some b"
  using parse_octet_dec [of "unat b"] unat_less_byte [of b] by simp

lemma parseIPv4_dotted [simp]: "length a = 4 \<Longrightarrow> parseIPv4 (dotted a) = Some a"
  by (cases "a = []")
    (auto simp: parseIPv4_def Split_dotted list_all_iff Let_def comp_def)

lemma dotted_inj: "length a = 4 \<Longrightarrow> length b = 4 \<Longrightarrow> dotted a = dotted b \<longleftrightarrow> a = b"
  by (metis option.inject parseIPv4_dotted)

lemma is_digit_neq:
  "is_digit c \<Longrightarrow> c \<noteq> CHR ''.'' \<and> c \<noteq> CHR '':'' \<and> c \<noteq> CHR ''%'' \<and> c \<noteq> CHR ''/''"
  by (auto simp: is_digit_def)

lemma first_sep_digits: "list_all is_digit ds \<Longrightarrow> first_sep (ds @ s) = first_sep s"
  by (induction ds) (auto dest: is_digit_neq)

lemma dec_all_digits: "list_all is_digit (dec n)"
  using dec_digits by (simp add: list_all_iff)

lemma first_sep_dotted: "length a = 4 \<Longrightarrow> first_sep (dotted a) = Some (CHR ''.'')"
proof (elim length_4E)
  fix b0 b1 b2 b3 assume a: "a = [b0, b1, b2, b3]"
  show ?thesis
    by (simp add: a dotted_def first_sep_digits [OF dec_all_digits])
qed

lemma ParseIP_dotted [simp]: "length a = 4 \<Longrightarrow> ParseIP (dotted a) = Some (v4InV6Prefix @ a)"
  by (simp add: ParseIP_def ParseAddr_def first_sep_dotted)

lemma set_dotted: "c \<in> set (dotted a) \<Longrightarrow> is_digit c \<or> c = CHR ''.''"
  using set_Join [of "map (\<lambda>b. dec (unat b)) a" "''.''"] dec_digits
  by (fastforce simp: dotted_def)

lemma colon_not_dotted: "CHR '':'' \<notin> set (dotted a)"
  using set_dotted [of "CHR '':''" a] by (auto simp: is_digit_def)

lemma dotted_not_slash: "CHR ''/'' \<notin> set (dotted a)"
  using set_dotted [of "CHR ''/''" a] by (auto simp: is_digit_def)

lemma length_groups6: "length a = 16 \<Longrightarrow> length (groups6 a) = 8"
  by (auto simp: numeral_eq_Suc length_Suc_conv)

lemma Join_sep: "2 \<le> length xs \<Longrightarrow> set sep \<subseteq> set (Join xs sep)"
  by (cases xs; cases "tl xs") auto

lemma colon_ip6_String: "length a = 16 \<Longrightarrow> CHR '':'' \<in> set (ip6_String a)"
  using Join_sep [of "map hex (groups6 a)" "'':''"]
  by (cases "best_run (groups6 a)") (auto simp: ip6_String_def length_groups6 Let_def)

text \<open>Only the two forms of an IPv4 address print as that address.\<close>

lemma IP_String_eq_dotted:
  assumes "IP_String a = dotted v" "length v = 4"
  shows "To4 a = v"
proof -
  have chars: "c \<in> set (IP_String a) \<Longrightarrow> is_digit c \<or> c = CHR ''.''" for c
    using set_dotted assms(1) by simp
  have "CHR '':'' \<notin> set (IP_String a)" "CHR ''<'' \<notin> set (IP_String a)"
    "CHR ''?'' \<notin> set (IP_String a)"
    using chars [of "CHR '':''"] chars [of "CHR ''<''"] chars [of "CHR ''?''"]
    by (auto simp: is_digit_def)
  then have "length (To4 a) = 4"
    using colon_ip6_String [of a] by (auto simp: IP_String_def To4_def split: if_splits)
  moreover from this have "IP_String a = dotted (To4 a)"
    by (auto simp: IP_String_def To4_def split: if_splits)
  ultimately show ?thesis using assms dotted_inj by metis
qed

subsection \<open>Lemmas: IPv4 networks\<close>

lemma bit_mask_byte:
  "bit (mask_byte n i) j \<longleftrightarrow> j < 8 \<and> 8 \<le> j + (n - 8 * i)"
  by (auto simp: mask_byte_def bit_simps min_def split: if_splits)

lemma dtoi_dec: "n < 0xFFFFFF \<Longrightarrow> dtoi (dec n) = Some n"
  using dec_digits [of _ n] by (auto simp: dtoi_def list_all_iff)

definition cidr4 :: "ip \<Rightarrow> nat \<Rightarrow> string" where
  "cidr4 a n = dotted a @ ''/'' @ dec n"

lemma ParseCIDR_cidr4:
  assumes "length a = 4" "n \<le> 32"
  shows "ParseCIDR (cidr4 a n) =
    Some (v4InV6Prefix @ a,
      \<lparr>net_IP = IP_Mask (v4InV6Prefix @ a) (n, 32), net_Mask = (n, 32)\<rparr>)"
proof -
  have tw: "takeWhile (\<lambda>c. c \<noteq> CHR ''/'') (cidr4 a n) = dotted a"
    using dotted_not_slash [of a] unfolding cidr4_def
    by (subst takeWhile_append2) auto
  have "drop (length (dotted a) + 1) (cidr4 a n) = dec n" by (simp add: cidr4_def)
  moreover have "CHR ''/'' \<in> set (cidr4 a n)" by (simp add: cidr4_def)
  ultimately show ?thesis using assms tw
    by (simp add: ParseCIDR_def Let_def ParseAddr_def first_sep_dotted dtoi_dec)
qed

lemma IP_Mask_v4:
  "IP_Mask (v4InV6Prefix @ [b0, b1, b2, b3]) (n, 32) =
     [b0 AND mask_byte n 0, b1 AND mask_byte n 1, b2 AND mask_byte n 2, b3 AND mask_byte n 3]"
  by (simp add: IP_Mask_def upt_conv_Cons Let_def numeral_2_eq_2 numeral_3_eq_3)

lemma bit_be_Uint32:
  "k < 32 \<Longrightarrow> bit (be_Uint32 [b0, b1, b2, b3]) k \<longleftrightarrow>
     (if k < 8 then bit b3 k else if k < 16 then bit b2 (k - 8)
      else if k < 24 then bit b1 (k - 16) else bit b0 (k - 24))"
  by (auto simp: bit_simps dest: bit_imp_le_length)

lemma be_Uint32_masked:
  assumes "n \<le> 32"
  shows "be_Uint32 [b0 AND mask_byte n 0, b1 AND mask_byte n 1, b2 AND mask_byte n 2,
      b3 AND mask_byte n 3] = push_bit (32 - n) (drop_bit (32 - n) (be_Uint32 [b0, b1, b2, b3]))"
proof (rule bit_word_eqI, goal_cases)
  case (1 k)
  then have "k < 32" by simp
  with assms show ?case
    unfolding bit_push_bit_iff bit_drop_bit_eq o_def
    by (auto simp: bit_be_Uint32 bit_and_iff bit_mask_byte simp del: be_Uint32.simps
        split: if_splits)
qed

lemma be_Uint32_IP_Mask:
  assumes "length a = 4" "n \<le> 32"
  shows "be_Uint32 (IP_Mask (v4InV6Prefix @ a) (n, 32)) =
      push_bit (32 - n) (drop_bit (32 - n) (be_Uint32 a))"
    and "length (IP_Mask (v4InV6Prefix @ a) (n, 32)) = 4"
proof -
  obtain b0 b1 b2 b3 where a: "a = [b0, b1, b2, b3]" using assms(1) by (rule length_4E)
  show "be_Uint32 (IP_Mask (v4InV6Prefix @ a) (n, 32)) =
      push_bit (32 - n) (drop_bit (32 - n) (be_Uint32 a))"
    unfolding a IP_Mask_v4 by (rule be_Uint32_masked [OF assms(2)])
  show "length (IP_Mask (v4InV6Prefix @ a) (n, 32)) = 4"
    unfolding a IP_Mask_v4 by simp
qed

lemma To4_not_mapped: "length a = 16 \<Longrightarrow> a ! 0 \<noteq> 0 \<Longrightarrow> To4 a = []"
  by (cases a) (auto simp: To4_def v4InV6Prefix_def)

end
