(* ===== verification/Vip_Iface.thy ===== *)
theory Vip_Iface
  imports Go_Net
begin

text \<open>
  Addresses of the network interface (\<^verbatim>\<open>internal/vip/interface.go\<close>, \<^verbatim>\<open>interface_linux.go\<close>,
  \<^verbatim>\<open>interface_darwin.go\<close>, \<^verbatim>\<open>errors.go\<close>, \<^verbatim>\<open>resolve.go\<close>).

  A value of the Go interface \<^verbatim>\<open>InterfaceAddressManager\<close> is a record of its two methods, which
  act on a world of any type \<open>'w\<close>. The Linux manager calls the third-party package netlink and
  the Darwin manager runs \<^verbatim>\<open>ifconfig\<close>: both are records of functions the managers are given.
  The locale \<open>iface_manager\<close> is the contract of the interface, over the set of addresses the
  interface carries; \<open>netlink_kernel\<close> and \<open>ifconfig_host\<close> state what netlink and ifconfig
  document, and the sublocales show that the two managers then satisfy the contract. Linux tells
  the addresses of a link apart by IP and prefix length, Darwin by IP: the contract is over
  addresses of any type, \<open>own a\<close> being the one that stands for the VIP \<open>a\<close>.
\<close>

definition ErrAddressInUse :: goerr where
  "ErrAddressInUse = Sentinel ''address already in use on interface''"

record 'w addrManager =
  AddAddress :: "ip \<Rightarrow> 'w \<Rightarrow> goerr option \<times> 'w"
  RemoveAddress :: "ip \<Rightarrow> 'w \<Rightarrow> goerr option \<times> 'w"

subsection \<open>The Linux manager\<close>

record link =
  Attrs_Name :: string
  Attrs_Index :: nat

record 'w netlink =
  nl_LinkByName :: "string \<Rightarrow> 'w \<Rightarrow> goerr + link"
  nl_AddrAdd :: "link \<Rightarrow> ip \<times> ipmask \<Rightarrow> 'w \<Rightarrow> goerr option \<times> 'w"
  nl_AddrDel :: "link \<Rightarrow> ip \<times> ipmask \<Rightarrow> 'w \<Rightarrow> goerr option \<times> 'w"

definition EEXIST :: goerr where
  "EEXIST = Errno 17"

definition netlink_AddAddress :: "'w netlink \<Rightarrow> link \<Rightarrow> ip \<Rightarrow> 'w \<Rightarrow> goerr option \<times> 'w" where
  "netlink_AddAddress nl m addr w =
     (case nl_AddrAdd nl m (addr, (32, 32)) w of
        (None, w') \<Rightarrow> (None, w')
      | (Some e, w') \<Rightarrow>
          if e = EEXIST then (Some ErrAddressInUse, w')
          else (Some (Wrapf (''add '' @ IP_String addr @ '' to '' @ Attrs_Name m) e), w'))"

definition netlink_RemoveAddress :: "'w netlink \<Rightarrow> link \<Rightarrow> ip \<Rightarrow> 'w \<Rightarrow> goerr option \<times> 'w" where
  "netlink_RemoveAddress nl m addr w =
     (case nl_AddrDel nl m (addr, (32, 32)) w of
        (None, w') \<Rightarrow> (None, w')
      | (Some e, w') \<Rightarrow>
          (Some (Wrapf (''del '' @ IP_String addr @ '' from '' @ Attrs_Name m) e), w'))"

definition netlinkManager :: "'w netlink \<Rightarrow> link \<Rightarrow> 'w addrManager" where
  "netlinkManager nl m =
     \<lparr>AddAddress = netlink_AddAddress nl m, RemoveAddress = netlink_RemoveAddress nl m\<rparr>"

definition NewInterfaceAddressManager_linux ::
  "'w netlink \<Rightarrow> string \<Rightarrow> 'w \<Rightarrow> goerr + 'w addrManager" where
  "NewInterfaceAddressManager_linux nl iface w =
     (case nl_LinkByName nl iface w of
        Inl e \<Rightarrow> Inl (Wrapf (''find interface '' @ iface) e)
      | Inr l \<Rightarrow> Inr (netlinkManager nl l))"

subsection \<open>The Darwin manager\<close>

datatype net_Addr = IPNet ip ipmask | IPAddr ip | OtherAddr

fun addr_IP :: "net_Addr \<Rightarrow> ip" where
  "addr_IP (IPNet a m) = a"
| "addr_IP (IPAddr a) = a"
| "addr_IP OtherAddr = []"

record 'w darwin =
  os_InterfaceByName :: "string \<Rightarrow> 'w \<Rightarrow> goerr + string"  \<comment> \<open>the interface's name\<close>
  os_Addrs :: "string \<Rightarrow> 'w \<Rightarrow> goerr + net_Addr list"
  os_ifconfig :: "string list \<Rightarrow> 'w \<Rightarrow> (string \<times> goerr option) \<times> 'w"

fun any_equal :: "net_Addr list \<Rightarrow> ip \<Rightarrow> bool" where
  "any_equal [] addr = False"
| "any_equal (a # as) addr = (if IP_Equal (addr_IP a) addr then True else any_equal as addr)"

definition ifconfig_AddAddress :: "'w darwin \<Rightarrow> string \<Rightarrow> ip \<Rightarrow> 'w \<Rightarrow> goerr option \<times> 'w" where
  "ifconfig_AddAddress os iface addr w =
     (case os_Addrs os iface w of
        Inl e \<Rightarrow> (Some (Wrapf (''list addresses on '' @ iface) e), w)
      | Inr addrs \<Rightarrow>
          if any_equal addrs addr then (Some ErrAddressInUse, w)
          else
            (let ipStr = IP_String addr in
             case os_ifconfig os [iface, ''alias'', ipStr] w of
               ((out, None), w') \<Rightarrow> (None, w')
             | ((out, Some e), w') \<Rightarrow>
                 (Some (Wrapf (''ifconfig '' @ iface @ '' alias '' @ ipStr @ '': '' @ out) e), w')))"

definition ifconfig_RemoveAddress :: "'w darwin \<Rightarrow> string \<Rightarrow> ip \<Rightarrow> 'w \<Rightarrow> goerr option \<times> 'w" where
  "ifconfig_RemoveAddress os iface addr w =
     (let ipStr = IP_String addr in
      case os_ifconfig os [iface, ''-alias'', ipStr] w of
        ((out, None), w') \<Rightarrow> (None, w')
      | ((out, Some e), w') \<Rightarrow>
          (Some (Wrapf (''ifconfig '' @ iface @ '' -alias '' @ ipStr @ '': '' @ out) e), w'))"

definition ifconfigManager :: "'w darwin \<Rightarrow> string \<Rightarrow> 'w addrManager" where
  "ifconfigManager os iface =
     \<lparr>AddAddress = ifconfig_AddAddress os iface, RemoveAddress = ifconfig_RemoveAddress os iface\<rparr>"

definition NewInterfaceAddressManager_darwin ::
  "'w darwin \<Rightarrow> string \<Rightarrow> 'w \<Rightarrow> goerr + 'w addrManager" where
  "NewInterfaceAddressManager_darwin os iface w =
     (case os_InterfaceByName os iface w of
        Inl e \<Rightarrow> Inl (Wrapf (''find interface '' @ iface) e)
      | Inr ifi \<Rightarrow> Inr (ifconfigManager os ifi))"

subsection \<open>Resolving the INTERFACE setting\<close>

record net_Interface =
  if_Name :: string
  if_Addrs :: "goerr + net_Addr list"

record net_env =
  net_Interfaces :: "goerr + net_Interface list"
  net_InterfaceByName :: "string \<Rightarrow> goerr + net_Interface"

text \<open>The first address with a 4-byte form, and whether an interface owns an address.\<close>

fun first_ipv4 :: "net_Addr list \<Rightarrow> ip option" where
  "first_ipv4 [] = None"
| "first_ipv4 (a # as) = (if To4 (addr_IP a) \<noteq> [] then Some (To4 (addr_IP a)) else first_ipv4 as)"

fun owns :: "net_Addr list \<Rightarrow> ip \<Rightarrow> bool" where
  "owns [] addr = False"
| "owns (a # as) addr =
     (if To4 (addr_IP a) \<noteq> [] \<and> IP_Equal (To4 (addr_IP a)) addr then True else owns as addr)"

fun owner_of :: "net_Interface list \<Rightarrow> ip \<Rightarrow> string option" where
  "owner_of [] addr = None"
| "owner_of (i # is) addr =
     (case if_Addrs i of
        Inl e \<Rightarrow> owner_of is addr
      | Inr addrs \<Rightarrow> if owns addrs addr then Some (if_Name i) else owner_of is addr)"

definition ResolveIface :: "net_env \<Rightarrow> string \<Rightarrow> goerr + (ip \<times> string)" where
  "ResolveIface env v =
     (case ParseIP v of
        Some a \<Rightarrow>
          (if To4 a = [] then
             Inl (Errorf (''IFACE address \"'' @ v @ ''\" is not an IPv4 address''))
           else (case net_Interfaces env of
               Inl e \<Rightarrow> Inl (Wrapf ''listing network interfaces'' e)
             | Inr ifaces \<Rightarrow>
                 (case owner_of ifaces (To4 a) of
                    Some name \<Rightarrow> Inr (To4 a, name)
                  | None \<Rightarrow> Inl (Errorf (''no interface found with address '' @ v)))))
      | None \<Rightarrow>
          (case net_InterfaceByName env v of
             Inl e \<Rightarrow> Inl (Wrapf (''interface \"'' @ v @ ''\" not found'') e)
           | Inr iface \<Rightarrow>
               (case if_Addrs iface of
                  Inl e \<Rightarrow> Inl (Wrapf (''listing addresses for interface \"'' @ v @ ''\"'') e)
                | Inr addrs \<Rightarrow>
                    (case first_ipv4 addrs of
                       Some a \<Rightarrow> Inr (a, if_Name iface)
                     | None \<Rightarrow>
                         Inl (Errorf (''interface \"'' @ v @ ''\" has no IPv4 address''))))))"

subsection \<open>The contract of an address manager\<close>

text \<open>
  \<open>addrs w\<close> is the set of addresses the interface carries in the world \<open>w\<close>. A manager adds the
  address of a VIP (in its 4-byte form) that was not there, or fails and changes nothing; it
  reports \<open>ErrAddressInUse\<close> only for an address that is there.
\<close>

locale iface_manager =
  fixes M :: "'w addrManager" and addrs :: "'w \<Rightarrow> 'e set" and own :: "ip \<Rightarrow> 'e"
  assumes own_inj: "inj own"
    and add_ok: "length a = 4 \<Longrightarrow> AddAddress M a w = (None, w') \<Longrightarrow>
      own a \<notin> addrs w \<and> addrs w' = insert (own a) (addrs w)"
    and add_err: "length a = 4 \<Longrightarrow> AddAddress M a w = (Some e, w') \<Longrightarrow> addrs w' = addrs w"
    and add_in_use: "length a = 4 \<Longrightarrow> AddAddress M a w = (Some e, w') \<Longrightarrow>
      errors_Is e ErrAddressInUse \<Longrightarrow> own a \<in> addrs w"
    and remove_ok: "length (To4 a) = 4 \<Longrightarrow> RemoveAddress M a w = (None, w') \<Longrightarrow>
      addrs w' = addrs w - {own (To4 a)}"
    and remove_err: "length (To4 a) = 4 \<Longrightarrow> RemoveAddress M a w = (Some e, w') \<Longrightarrow>
      addrs w' = addrs w"
begin

lemma own_eq: "own a = own b \<longleftrightarrow> a = b"
  by (rule inj_eq [OF own_inj])

lemma add_present:
  assumes "length a = 4" "own a \<in> addrs w"
  shows "\<exists>e w'. AddAddress M a w = (Some e, w')"
proof (cases "AddAddress M a w")
  case (Pair r w')
  with add_ok [OF assms(1), of w w'] assms(2) show ?thesis by (cases r) auto
qed

lemma add_grows:
  assumes "length a = 4"
  shows "addrs w \<subseteq> addrs (snd (AddAddress M a w))"
  by (cases "AddAddress M a w"; cases "fst (AddAddress M a w)")
    (use add_ok [OF assms] add_err [OF assms] in auto)

lemma remove_other:
  assumes "length (To4 a) = 4" "b \<noteq> own (To4 a)"
  shows "b \<in> addrs (snd (RemoveAddress M a w)) \<longleftrightarrow> b \<in> addrs w"
  by (cases "RemoveAddress M a w"; cases "fst (RemoveAddress M a w)")
    (use remove_ok [OF assms(1)] remove_err [OF assms(1)] assms(2) in auto)

end

text \<open>
  What rtnetlink does when the address \<open>a/32\<close> is added to a link or deleted from it. A link carries
  addresses with prefix lengths, and two with the same IP and different prefix lengths are different
  addresses: adding \<open>a/32\<close> fails with EEXIST only if \<open>a/32\<close> itself is there, and deleting it leaves
  \<open>a/8\<close> in place.
\<close>

locale netlink_kernel =
  fixes nl :: "'w netlink" and l :: link and addrs :: "'w \<Rightarrow> (ip \<times> nat) set"
  assumes nl_add_ok: "length a = 4 \<Longrightarrow> nl_AddrAdd nl l (a, (32, 32)) w = (None, w') \<Longrightarrow>
      (a, 32) \<notin> addrs w \<and> addrs w' = insert (a, 32) (addrs w)"
    and nl_add_err: "length a = 4 \<Longrightarrow> nl_AddrAdd nl l (a, (32, 32)) w = (Some e, w') \<Longrightarrow> addrs w' = addrs w"
    and nl_add_exist: "length a = 4 \<Longrightarrow> nl_AddrAdd nl l (a, (32, 32)) w = (Some EEXIST, w') \<Longrightarrow>
      (a, 32) \<in> addrs w"
    and nl_foreign: "nl_AddrAdd nl l x w = (Some e, w') \<Longrightarrow> \<not> errors_Is e ErrAddressInUse"
    and nl_del_ok: "length (To4 a) = 4 \<Longrightarrow> nl_AddrDel nl l (a, (32, 32)) w = (None, w') \<Longrightarrow>
      addrs w' = addrs w - {(To4 a, 32)}"
    and nl_del_err: "length (To4 a) = 4 \<Longrightarrow> nl_AddrDel nl l (a, (32, 32)) w = (Some e, w') \<Longrightarrow>
      addrs w' = addrs w"
begin

lemma netlink_add_cases:
  "AddAddress (netlinkManager nl l) a w = (r, w') \<Longrightarrow>
     (r = None \<and> nl_AddrAdd nl l (a, (32, 32)) w = (None, w')) \<or>
     (r = Some ErrAddressInUse \<and> nl_AddrAdd nl l (a, (32, 32)) w = (Some EEXIST, w')) \<or>
     (\<exists>e msg. r = Some (Wrapf msg e) \<and> nl_AddrAdd nl l (a, (32, 32)) w = (Some e, w'))"
  by (auto simp: netlinkManager_def netlink_AddAddress_def split: prod.splits option.splits if_splits)

end

sublocale netlink_kernel \<subseteq> iface_manager "netlinkManager nl l" addrs "\<lambda>a. (a, 32)"
proof (unfold_locales, goal_cases)
  case 1
  show ?case by (simp add: inj_def)
next
  case (2 a w w')
  then show ?case using netlink_add_cases nl_add_ok by fastforce
next
  case (3 a w e w')
  then show ?case using netlink_add_cases [OF 3(2)] nl_add_err by auto
next
  case (4 a w e w')
  then show ?case
    using netlink_add_cases [OF 4(2)] nl_add_exist nl_foreign by (auto simp: ErrAddressInUse_def)
next
  case (5 a w w')
  then show ?case using nl_del_ok
    by (auto simp: netlinkManager_def netlink_RemoveAddress_def split: prod.splits option.splits)
next
  case (6 a w e w')
  then show ?case using nl_del_err
    by (auto simp: netlinkManager_def netlink_RemoveAddress_def split: prod.splits option.splits)
qed

context netlink_kernel
begin

lemma is_iface_manager: "iface_manager (netlinkManager nl l) addrs (\<lambda>a. (a, 32))"
  by unfold_locales

end

text \<open>What the Darwin manager relies on: the address list of the interface, and ifconfig.\<close>

locale ifconfig_host =
  fixes os :: "'w darwin" and iface :: string and addrs :: "'w \<Rightarrow> ip set"
  assumes os_list: "length a = 4 \<Longrightarrow> os_Addrs os iface w = Inr as \<Longrightarrow>
      any_equal as a \<longleftrightarrow> a \<in> addrs w"
    and os_list_foreign: "os_Addrs os iface w = Inl e \<Longrightarrow> \<not> errors_Is e ErrAddressInUse"
    and os_alias_ok: "length a = 4 \<Longrightarrow>
      os_ifconfig os [iface, ''alias'', dotted a] w = ((out, None), w') \<Longrightarrow>
      addrs w' = insert a (addrs w)"
    and os_alias_err: "length a = 4 \<Longrightarrow>
      os_ifconfig os [iface, ''alias'', dotted a] w = ((out, Some e), w') \<Longrightarrow>
      addrs w' = addrs w \<and> \<not> errors_Is e ErrAddressInUse"
    and os_unalias_ok: "length a = 4 \<Longrightarrow>
      os_ifconfig os [iface, ''-alias'', dotted a] w = ((out, None), w') \<Longrightarrow>
      addrs w' = addrs w - {a}"
    and os_unalias_err: "length a = 4 \<Longrightarrow>
      os_ifconfig os [iface, ''-alias'', dotted a] w = ((out, Some e), w') \<Longrightarrow> addrs w' = addrs w"
begin

lemma ifconfig_add_cases:
  assumes "length a = 4" "AddAddress (ifconfigManager os iface) a w = (r, w')"
  shows "(r = None \<and> a \<notin> addrs w \<and> addrs w' = insert a (addrs w)) \<or>
    (r = Some ErrAddressInUse \<and> w' = w \<and> a \<in> addrs w) \<or>
    (\<exists>e msg. r = Some (Wrapf msg e) \<and> addrs w' = addrs w \<and> \<not> errors_Is e ErrAddressInUse)"
proof (cases "os_Addrs os iface w")
  case (Inl e)
  with assms(2) have "\<exists>msg. r = Some (Wrapf msg e)" "w' = w"
    by (auto simp: ifconfigManager_def ifconfig_AddAddress_def)
  with os_list_foreign [OF Inl] show ?thesis by blast
next
  case (Inr as)
  obtain out q w1 where run: "os_ifconfig os [iface, ''alias'', dotted a] w = ((out, q), w1)"
    by (metis surj_pair)
  show ?thesis
  proof (cases "any_equal as a")
    case True
    with assms Inr os_list [OF assms(1) Inr] show ?thesis
      by (auto simp: ifconfigManager_def ifconfig_AddAddress_def)
  next
    case False
    with os_list [OF assms(1) Inr] have "a \<notin> addrs w" by simp
    from assms Inr False run have w1: "w' = w1" and
      r: "r = (case q of None \<Rightarrow> None | Some e \<Rightarrow>
        Some (Wrapf (''ifconfig '' @ iface @ '' alias '' @ dotted a @ '': '' @ out) e))"
      by (auto simp: ifconfigManager_def ifconfig_AddAddress_def Let_def split: option.splits)
    show ?thesis
    proof (cases q)
      case None
      with r w1 os_alias_ok [OF assms(1), of w out w1] run \<open>a \<notin> addrs w\<close> show ?thesis by auto
    next
      case (Some e)
      with r have "\<exists>msg. r = Some (Wrapf msg e)" by auto
      with Some w1 os_alias_err [OF assms(1), of w out e w1] run show ?thesis by blast
    qed
  qed
qed

end

lemma errors_Is_Wrapf_in_use:
  "errors_Is (Wrapf m e) ErrAddressInUse \<longleftrightarrow> errors_Is e ErrAddressInUse"
  by (simp add: ErrAddressInUse_def)

lemma IP_String_To4: "length (To4 a) = 4 \<Longrightarrow> IP_String a = dotted (To4 a)"
  by (auto simp: IP_String_def To4_def split: if_splits)

sublocale ifconfig_host \<subseteq> iface_manager "ifconfigManager os iface" addrs "\<lambda>a. a"
proof (unfold_locales, goal_cases)
  case 1
  show ?case by (simp add: inj_def)
next
  case (2 a w w')
  then show ?case using ifconfig_add_cases by fastforce
next
  case (3 a w e w')
  then show ?case using ifconfig_add_cases [OF 3] by auto
next
  case (4 a w e w')
  from ifconfig_add_cases [OF 4(1,2)] 4(3) show ?case
    by (metis errors_Is_Wrapf_in_use option.distinct(1) option.inject)
next
  case (5 a w w')
  then show ?case using os_unalias_ok
    by (auto simp: ifconfigManager_def ifconfig_RemoveAddress_def IP_String_To4 Let_def
        split: prod.splits option.splits)
next
  case (6 a w e w')
  then show ?case using os_unalias_err
    by (auto simp: ifconfigManager_def ifconfig_RemoveAddress_def IP_String_To4 Let_def
        split: prod.splits option.splits)
qed

subsection \<open>A host\<close>

text \<open>
  A concrete host for the parameters: one interface with its addresses, and whether the process
  has the capability NET_ADMIN. Error numbers: 1 is EPERM, 17 EEXIST, 99 EADDRNOTAVAIL.
\<close>

record host =
  host_addrs :: "(ip \<times> nat) list"
  host_privileged :: bool

definition host_set :: "host \<Rightarrow> (ip \<times> nat) set" where
  "host_set h = set (host_addrs h)"

definition host_ips :: "host \<Rightarrow> ip set" where
  "host_ips h = Domain (set (host_addrs h))"

definition host_add :: "ip \<times> nat \<Rightarrow> host \<Rightarrow> goerr option \<times> host" where
  "host_add x h =
     (if \<not> host_privileged h then (Some (Errno 1), h)
      else if x \<in> set (host_addrs h) then (Some (Errno 17), h)
      else (None, h\<lparr>host_addrs := x # host_addrs h\<rparr>))"

definition host_del :: "(ip \<times> nat \<Rightarrow> bool) \<Rightarrow> host \<Rightarrow> goerr option \<times> host" where
  "host_del P h =
     (if \<not> host_privileged h then (Some (Errno 1), h)
      else if filter P (host_addrs h) = [] then (Some (Errno 99), h)
      else (None, h\<lparr>host_addrs := filter (\<lambda>x. \<not> P x) (host_addrs h)\<rparr>))"

definition host_netlink :: "host netlink" where
  "host_netlink = \<lparr>nl_LinkByName = (\<lambda>s h. if s = ''lo'' then Inr \<lparr>Attrs_Name = s, Attrs_Index = 1\<rparr>
       else Inl (Errorf ''Link not found'')),
     nl_AddrAdd = (\<lambda>l (a, m). host_add (To4 a, fst m)), nl_AddrDel = (\<lambda>l (a, m). host_del (\<lambda>x. x = (To4 a, fst m)))\<rparr>"

definition lo_link :: link where
  "lo_link = \<lparr>Attrs_Name = ''lo'', Attrs_Index = 1\<rparr>"

definition host_ifconfig :: "string list \<Rightarrow> host \<Rightarrow> (string \<times> goerr option) \<times> host" where
  "host_ifconfig args h =
     (case args of
        [i, verb, s] \<Rightarrow>
          (case parseIPv4 s of
             None \<Rightarrow> ((''bad value'', Some (Errorf ''exit status 1'')), h)
           | Some a \<Rightarrow>
               (let (r, h') = (if verb = ''alias'' then host_add (a, 8) h else host_del (\<lambda>x. fst x = a) h)
                in (('''', r), h')))
      | _ \<Rightarrow> ((''usage'', Some (Errorf ''exit status 1'')), h))"

definition host_darwin :: "host darwin" where
  "host_darwin = \<lparr>os_InterfaceByName = (\<lambda>s h. if s = ''lo0'' then Inr s
       else Inl (Errorf ''no such network interface'')),
     os_Addrs = (\<lambda>s h. Inr (map (\<lambda>(a, n). IPNet a (n, 32)) (filter (\<lambda>x. length (fst x) = 4) (host_addrs h)))),
     os_ifconfig = host_ifconfig\<rparr>"

lemma any_equal_IPNet:
  "length a = 4 \<Longrightarrow>
    any_equal (map (\<lambda>(a, n). IPNet a (n, 32)) (filter (\<lambda>x. length (fst x) = 4) xs)) a \<longleftrightarrow> a \<in> Domain (set xs)"
  by (induction xs) (auto simp: IP_Equal_4)

interpretation linux: netlink_kernel host_netlink lo_link host_set
  by unfold_locales
    (auto simp: host_netlink_def host_add_def host_del_def host_set_def EEXIST_def
      ErrAddressInUse_def filter_empty_conv split: if_splits prod.splits)

interpretation mac: ifconfig_host host_darwin "''lo0''" host_ips
  by unfold_locales
    (auto simp: host_darwin_def any_equal_IPNet host_ifconfig_def host_add_def host_del_def
      host_ips_def ErrAddressInUse_def Let_def split: if_splits prod.splits)

text \<open>
  The manager does not see an address that the link carries with another prefix length: 127.0.0.1
  is accepted beside the 127.0.0.1/8 that every loopback interface has.
\<close>

lemma add_beside_other_prefix:
  assumes "(a, 32) \<notin> host_set h" "host_privileged h" "length a = 4"
  shows "fst (AddAddress (netlinkManager host_netlink lo_link) a h) = None"
  using assms by (simp add: netlinkManager_def netlink_AddAddress_def host_netlink_def host_add_def host_set_def)

end
