(* ===== verification/Vip_Allocator.thy ===== *)
theory Vip_Allocator
  imports Vip_Iface
begin

text \<open>
  The allocator of virtual IP addresses (\<^verbatim>\<open>internal/vip/allocator.go\<close>). Its state is the record
  \<open>allocator\<close>, field by field as the Go struct (the fields \<^verbatim>\<open>max\<close> and \<^verbatim>\<open>next\<close> are \<open>maxAddr\<close> and
  \<open>nextAddr\<close>); the counters are 32-bit words, so the wrap-around of \<^verbatim>\<open>uint32\<close> is part of the
  model. Every method that takes the mutex is one transition; the methods that call the address
  manager thread its world. \<^verbatim>\<open>ReleaseVIP\<close> and \<^verbatim>\<open>Cleanup\<close> call it after they have given the mutex up
  and are one transition all the same: no address is handed out twice, so nobody asks for the address
  they are about to remove. A loop over a Go map takes the order of the keys as an argument.

  \<open>alloc_inv\<close> is the invariant: the maps \<open>assigned\<close> and \<open>reverse\<close> are inverse to each other and
  every VIP lies in the part of the range already passed. The locale \<open>vip_pool\<close> is what a client
  of the allocator relies on: the keys hold distinct VIPs, a release frees exactly one VIP. The
  locale \<open>vip_ledger\<close> extends it by the addresses handed out so far, none of which is handed out
  again. The loop of \<^verbatim>\<open>Allocate\<close> is counted to show how soon it returns.
\<close>

record 'w allocator =
  addrManager :: "'w addrManager"
  network :: ipnet
  base :: uint32
  maxAddr :: uint32
  nextAddr :: uint32
  assigned :: "string \<rightharpoonup> ip"
  reverse :: "string \<rightharpoonup> string"
  skipped :: "uint32 set"

definition ipToUint32 :: "ip \<Rightarrow> uint32" where
  "ipToUint32 a = (let a4 = To4 a in if a4 = [] then 0 else be_Uint32 a4)"

definition uint32ToIP :: "uint32 \<Rightarrow> ip" where
  "uint32ToIP n = be_PutUint32 n"

definition NewAllocator :: "'w addrManager \<Rightarrow> string \<Rightarrow> goerr + 'w allocator" where
  "NewAllocator am cidr =
     (case ParseCIDR cidr of
        None \<Rightarrow> Inl (Wrapf (''parsing CIDR '' @ cidr) (Errorf (''invalid CIDR address: '' @ cidr)))
      | Some (_, nw) \<Rightarrow>
          (let b = ipToUint32 (net_IP nw);
               (ones, bits) = Mask_Size (net_Mask nw);
               sz = push_bit (bits - ones) (1 :: uint32)
           in Inr \<lparr>addrManager = am, network = nw, base = b + 1, maxAddr = b + sz - 1,
                nextAddr = b + 1, assigned = Map.empty, reverse = Map.empty, skipped = {}\<rparr>))"

definition exhausted :: goerr where
  "exhausted = Errorf ''VIP CIDR exhausted: no more addresses available''"

function allocLoop ::
  "'w allocator \<Rightarrow> string \<Rightarrow> 'w \<Rightarrow> (goerr + ip) \<times> 'w allocator \<times> 'w" where
  "allocLoop a serviceKey w =
     (if maxAddr a \<le> nextAddr a then (Inl exhausted, a, w)
      else
        (let addr = uint32ToIP (nextAddr a); a1 = a\<lparr>nextAddr := nextAddr a + 1\<rparr> in
         case AddAddress (addrManager a) addr w of
           (Some e, w') \<Rightarrow>
             if errors_Is e ErrAddressInUse
             then allocLoop (a1\<lparr>skipped := insert (ipToUint32 addr) (skipped a1)\<rparr>) serviceKey w'
             else (Inl (Wrapf (''adding VIP '' @ IP_String addr) e), a1, w')
         | (None, w') \<Rightarrow>
             (Inr addr,
              a1\<lparr>assigned := (assigned a1)(serviceKey \<mapsto> addr),
                 reverse := (reverse a1)(IP_String addr \<mapsto> serviceKey)\<rparr>, w')))"
  by pat_completeness auto

termination allocLoop
proof (relation "measure (\<lambda>(a, k, w). unat (maxAddr a) - unat (nextAddr a))", goal_cases)
  case (2 a serviceKey w)
  then have "nextAddr a < maxAddr a" by simp
  with unat_plus1 [OF this] show ?case by (auto simp: 2 word_less_nat_alt)
qed simp

declare allocLoop.simps [simp del]

definition Allocate ::
  "'w allocator \<Rightarrow> string \<Rightarrow> 'w \<Rightarrow> (goerr + ip) \<times> 'w allocator \<times> 'w" where
  "Allocate a serviceKey w =
     (case assigned a serviceKey of
        Some addr \<Rightarrow> (Inr addr, a, w)
      | None \<Rightarrow> allocLoop a serviceKey w)"

definition Lookup :: "'w allocator \<Rightarrow> string \<Rightarrow> ip option" where
  "Lookup a serviceKey = assigned a serviceKey"

definition ReverseLookup :: "'w allocator \<Rightarrow> string \<Rightarrow> string" where
  "ReverseLookup a addr = (case reverse a addr of None \<Rightarrow> '''' | Some k \<Rightarrow> k)"

definition AllAllocations :: "string list \<Rightarrow> 'w allocator \<Rightarrow> (string \<rightharpoonup> ip)" where
  "AllAllocations ks a = foldl (\<lambda>result k. result(k := assigned a k)) Map.empty ks"

definition ReleaseVIP ::
  "'w allocator \<Rightarrow> ip \<Rightarrow> 'w \<Rightarrow> goerr option \<times> 'w allocator \<times> 'w" where
  "ReleaseVIP a addr w =
     (let addrStr = IP_String addr in
      case reverse a addrStr of
        None \<Rightarrow> (None, a, w)
      | Some serviceKey \<Rightarrow>
          (let a' = a\<lparr>assigned := (assigned a)(serviceKey := None),
                     reverse := (reverse a)(addrStr := None)\<rparr> in
           case RemoveAddress (addrManager a) addr w of
             (None, w') \<Rightarrow> (None, a', w')
           | (Some e, w') \<Rightarrow> (Some (Wrapf (''removing VIP '' @ addrStr) e), a', w')))"

text \<open>
  \<^verbatim>\<open>Cleanup\<close> copies the map under the read lock and calls RemoveAddress for every copy; the
  allocator itself is not changed. \<open>errs\<close> collects the errors in the order of the loop.
\<close>

fun cleanupLoop ::
  "'w addrManager \<Rightarrow> (string \<rightharpoonup> ip) \<Rightarrow> string list \<Rightarrow> 'w \<Rightarrow> goerr list \<times> 'w" where
  "cleanupLoop am allocs [] w = ([], w)"
| "cleanupLoop am allocs (key # ks) w =
     (case allocs key of
        None \<Rightarrow> cleanupLoop am allocs ks w
      | Some addr \<Rightarrow>
          (case RemoveAddress am addr w of
             (None, w1) \<Rightarrow> cleanupLoop am allocs ks w1
           | (Some e, w1) \<Rightarrow>
               (let (errs, w2) = cleanupLoop am allocs ks w1
                in (Wrapf (''removing VIP '' @ IP_String addr @ '' for '' @ key) e # errs, w2))))"

definition Cleanup :: "string list \<Rightarrow> string list \<Rightarrow> 'w allocator \<Rightarrow> 'w \<Rightarrow> goerr option \<times> 'w" where
  "Cleanup ks ks' a w =
     (let allocs = AllAllocations ks a;
          (errs, w') = cleanupLoop (addrManager a) allocs ks' w
      in if errs \<noteq> []
         then (Some (Errorf (''VIP cleanup errors: ['' @ Join (map err_Error errs) '' '' @ '']'')), w')
         else (None, w'))"

subsection \<open>The invariant\<close>

definition alloc_inv :: "'w allocator \<Rightarrow> bool" where
  "alloc_inv a \<longleftrightarrow>
     base a \<le> nextAddr a \<and>
     (\<forall>n \<in> skipped a. base a \<le> n \<and> n < nextAddr a \<and> n < maxAddr a) \<and>
     (\<forall>k addr. assigned a k = Some addr \<longrightarrow>
        reverse a (IP_String addr) = Some k \<and>
        (\<exists>n. addr = uint32ToIP n \<and> base a \<le> n \<and> n < nextAddr a \<and> n < maxAddr a \<and>
             n \<notin> skipped a)) \<and>
     (\<forall>s k. reverse a s = Some k \<longrightarrow> (\<exists>addr. assigned a k = Some addr \<and> IP_String addr = s))"

subsection \<open>Lemmas\<close>

lemma length_uint32ToIP [simp]: "length (uint32ToIP n) = 4"
  by (simp add: uint32ToIP_def)

lemma To4_uint32ToIP [simp]: "To4 (uint32ToIP n) = uint32ToIP n"
  by simp

lemma ipToUint32_uint32ToIP [simp]: "ipToUint32 (uint32ToIP n) = n"
proof -
  have "uint32ToIP n \<noteq> []" by (metis length_uint32ToIP list.size(3) zero_neq_numeral)
  then show ?thesis by (simp add: ipToUint32_def Let_def) (simp add: uint32ToIP_def)
qed

lemma uint32ToIP_inj [simp]: "uint32ToIP m = uint32ToIP n \<longleftrightarrow> m = n"
  by (metis ipToUint32_uint32ToIP)

lemma dotted_uint32ToIP_inj [simp]:
  "dotted (uint32ToIP m) = dotted (uint32ToIP n) \<longleftrightarrow> m = n"
  by (simp add: dotted_inj)

lemma ParseIP_uint32ToIP [simp]:
  "ParseIP (IP_String (uint32ToIP n)) = Some (v4InV6Prefix @ uint32ToIP n)"
  by simp

lemma alloc_inv_assigned:
  assumes "alloc_inv a" "assigned a k = Some addr"
  obtains n where "addr = uint32ToIP n" "base a \<le> n" "n < nextAddr a" "n < maxAddr a"
    "n \<notin> skipped a" "reverse a (IP_String addr) = Some k"
  using assms unfolding alloc_inv_def by blast

lemma alloc_inv_reverse:
  assumes "alloc_inv a" "reverse a s = Some k"
  obtains addr where "assigned a k = Some addr" "IP_String addr = s"
  using assms unfolding alloc_inv_def by blast

lemma alloc_inv_rev: "alloc_inv a \<Longrightarrow> assigned a k = Some addr \<Longrightarrow> reverse a (IP_String addr) = Some k"
  by (simp add: alloc_inv_def)

lemma assigned_length: "alloc_inv a \<Longrightarrow> assigned a k = Some addr \<Longrightarrow> length addr = 4"
  by (metis alloc_inv_assigned length_uint32ToIP)

lemma alloc_inv_skip:
  assumes "alloc_inv a" "nextAddr a < maxAddr a"
  shows "alloc_inv (a\<lparr>nextAddr := nextAddr a + 1,
     skipped := insert (nextAddr a) (skipped a)\<rparr>)"
  using assms word_less_plus1 [OF assms(2)] unfolding alloc_inv_def
  by (simp, fastforce intro: order.strict_trans2 less_imp_le order.strict_trans)

lemma alloc_inv_pass:
  assumes "alloc_inv a" "nextAddr a < maxAddr a"
  shows "alloc_inv (a\<lparr>nextAddr := nextAddr a + 1\<rparr>)"
  using assms word_less_plus1 [OF assms(2)] unfolding alloc_inv_def
  by (simp, fastforce intro: order.strict_trans2 less_imp_le order.strict_trans)

lemma alloc_inv_assign:
  assumes inv: "alloc_inv a" and lt: "nextAddr a < maxAddr a" and fresh: "assigned a k = None"
  shows "alloc_inv (a\<lparr>nextAddr := nextAddr a + 1,
     assigned := (assigned a)(k \<mapsto> uint32ToIP (nextAddr a)),
     reverse := (reverse a)(IP_String (uint32ToIP (nextAddr a)) \<mapsto> k)\<rparr>)" (is "alloc_inv ?a")
proof -
  let ?n = "nextAddr a"
  have old: "n \<noteq> ?n" if "assigned a k' = Some (uint32ToIP n)" for k' n
    by (rule alloc_inv_assigned [OF inv that]) auto
  have "?n \<notin> skipped a" using inv by (auto simp: alloc_inv_def)
  have "?n < ?n + 1" using lt by (rule word_less_plus1)
  show ?thesis
    unfolding alloc_inv_def
  proof (intro conjI ballI allI impI, goal_cases)
    case 1
    show ?case using inv \<open>?n < ?n + 1\<close> by (auto simp: alloc_inv_def)
  next
    case (5 k' addr)
    show ?case
    proof (cases "k' = k")
      case False
      with 5 have "assigned a k' = Some addr" by simp
      moreover from this obtain n where "addr = uint32ToIP n" "reverse a (IP_String addr) = Some k'"
        using alloc_inv_assigned [OF inv] by metis
      ultimately show ?thesis using old by auto
    qed (use 5 in auto)
  next
    case (6 k' addr)
    show ?case
    proof (cases "k' = k")
      case True
      with 6 \<open>?n \<notin> skipped a\<close> lt \<open>?n < ?n + 1\<close> inv show ?thesis by (auto simp: alloc_inv_def)
    next
      case False
      with 6 have "assigned a k' = Some addr" by simp
      then obtain n where "addr = uint32ToIP n" "base a \<le> n" "n < ?n" "n < maxAddr a" "n \<notin> skipped a"
        using alloc_inv_assigned [OF inv] by metis
      with \<open>?n < ?n + 1\<close> show ?thesis by auto
    qed
  next
    case (7 s k')
    show ?case
    proof (cases "s = IP_String (uint32ToIP ?n)")
      case False
      with 7 have "reverse a s = Some k'" by simp
      then obtain addr where "assigned a k' = Some addr" "IP_String addr = s"
        using alloc_inv_reverse [OF inv] by metis
      with fresh show ?thesis by auto
    qed (use 7 in auto)
  qed (use inv \<open>?n < ?n + 1\<close> in \<open>auto simp: alloc_inv_def\<close>)
qed

lemma allocLoop_spec:
  assumes "alloc_inv a" "assigned a k = None" "allocLoop a k w = (r, a', w')"
  shows "alloc_inv a' \<and> addrManager a' = addrManager a \<and> network a' = network a \<and>
    base a' = base a \<and> maxAddr a' = maxAddr a \<and> nextAddr a \<le> nextAddr a' \<and>
    (case r of
       Inr addr \<Rightarrow> (\<exists>n. addr = uint32ToIP n \<and> nextAddr a \<le> n \<and> n < maxAddr a \<and> nextAddr a' = n + 1 \<and>
         assigned a' = (assigned a)(k \<mapsto> addr) \<and> reverse a' = (reverse a)(IP_String addr \<mapsto> k))
     | Inl e \<Rightarrow> assigned a' = assigned a \<and> reverse a' = reverse a)"
  using assms
proof (induction a k w arbitrary: r a' w' rule: allocLoop.induct)
  case (1 a k w)
  show ?case
  proof (cases "maxAddr a \<le> nextAddr a")
    case True
    with "1.prems" show ?thesis by (auto simp: allocLoop.simps [of a])
  next
    case False
    then have lt: "nextAddr a < maxAddr a" by simp
    note less = word_less_plus1 [OF lt]
    obtain q w1 where add: "AddAddress (addrManager a) (uint32ToIP (nextAddr a)) w = (q, w1)"
      by fastforce
    consider (ok) "q = None"
      | (skip) e where "q = Some e" "errors_Is e ErrAddressInUse"
      | (fail) e where "q = Some e" "\<not> errors_Is e ErrAddressInUse" by (cases q) auto
    then show ?thesis
    proof cases
      case ok
      with "1.prems" False add less alloc_inv_assign [OF "1.prems"(1) lt "1.prems"(2)] lt
      show ?thesis by (auto simp: allocLoop.simps [of a] Let_def)
    next
      case skip
      let ?a = "a\<lparr>nextAddr := nextAddr a + 1, skipped := insert (nextAddr a) (skipped a)\<rparr>"
      have "allocLoop ?a k w1 = (r, a', w')"
        using "1.prems"(3) False add skip by (simp add: allocLoop.simps [of a] Let_def)
      moreover have "alloc_inv ?a" by (rule alloc_inv_skip [OF "1.prems"(1) lt])
      ultimately show ?thesis
        using "1.IH" [OF False refl refl add [symmetric] skip, of r a' w'] "1.prems"(2) less
        by (auto split: sum.splits)
    next
      case fail
      with "1.prems" False add less alloc_inv_pass [OF "1.prems"(1) lt]
      show ?thesis by (auto simp: allocLoop.simps [of a] Let_def)
    qed
  qed
qed

lemma Allocate_spec:
  assumes "alloc_inv a" "Allocate a k w = (r, a', w')"
  shows "alloc_inv a'" "addrManager a' = addrManager a" "base a' = base a" "maxAddr a' = maxAddr a"
    "nextAddr a \<le> nextAddr a'"
    "r = Inr addr \<Longrightarrow> assigned a' = (assigned a)(k \<mapsto> addr)"
    "r = Inl e \<Longrightarrow> assigned a' = assigned a"
    "assigned a k = Some v \<Longrightarrow> r = Inr v \<and> a' = a \<and> w' = w"
    "assigned a k = None \<Longrightarrow> r = Inr addr \<Longrightarrow>
       \<exists>n. addr = uint32ToIP n \<and> nextAddr a \<le> n \<and> n < maxAddr a \<and> nextAddr a' = n + 1"
  using assms allocLoop_spec [OF assms(1), of k w r a' w']
  by (auto simp: Allocate_def split: option.splits sum.splits)

lemma NewAllocator_inv: "NewAllocator am cidr = Inr a \<Longrightarrow> alloc_inv a"
  by (auto simp: NewAllocator_def alloc_inv_def Let_def split: option.splits prod.splits)

lemma NewAllocator_manager: "NewAllocator am cidr = Inr a \<Longrightarrow> addrManager a = am"
  by (auto simp: NewAllocator_def Let_def split: option.splits prod.splits)

lemma NewAllocator_next: "NewAllocator am cidr = Inr a \<Longrightarrow> nextAddr a = base a"
  by (auto simp: NewAllocator_def Let_def split: option.splits prod.splits)

lemma NewAllocator_empty:
  "NewAllocator am cidr = Inr a \<Longrightarrow> assigned a = Map.empty \<and> reverse a = Map.empty \<and> skipped a = {}"
  by (auto simp: NewAllocator_def Let_def split: option.splits prod.splits)

lemma alloc_inv_release:
  assumes inv: "alloc_inv a" and rev: "reverse a s = Some k"
  shows "alloc_inv (a\<lparr>assigned := (assigned a)(k := None), reverse := (reverse a)(s := None)\<rparr>)"
    (is "alloc_inv ?a")
proof -
  obtain addr where k: "assigned a k = Some addr" "IP_String addr = s"
    using alloc_inv_reverse [OF inv rev] by metis
  have other: "IP_String addr' \<noteq> s" if "assigned a k' = Some addr'" "k' \<noteq> k" for k' addr'
    using alloc_inv_rev [OF inv that(1)] that(2) rev by auto
  have "reverse ?a (IP_String addr') = Some k' \<and> assigned a k' = Some addr'"
    if "assigned ?a k' = Some addr'" for k' addr'
  proof -
    from that have k': "k' \<noteq> k" "assigned a k' = Some addr'" by (auto split: if_splits)
    from alloc_inv_rev [OF inv k'(2)] other [OF k'(2,1)] k' show ?thesis by simp
  qed
  moreover have "\<exists>addr'. assigned ?a k' = Some addr' \<and> IP_String addr' = s'"
    if "reverse ?a s' = Some k'" for s' k'
  proof -
    from that have s': "s' \<noteq> s" "reverse a s' = Some k'" by (auto split: if_splits)
    then obtain addr' where addr': "assigned a k' = Some addr'" "IP_String addr' = s'"
      using alloc_inv_reverse [OF inv] by metis
    with s' k have "k' \<noteq> k" by auto
    with addr' show ?thesis by simp
  qed
  ultimately show ?thesis using inv by (simp add: alloc_inv_def)
qed

lemma ReleaseVIP_spec:
  assumes "alloc_inv a" "ReleaseVIP a addr w = (r, a', w')"
  shows "alloc_inv a'" "addrManager a' = addrManager a" "base a' = base a" "maxAddr a' = maxAddr a"
    "nextAddr a' = nextAddr a"
    "reverse a (IP_String addr) = None \<Longrightarrow> r = None \<and> a' = a \<and> w' = w"
    "reverse a (IP_String addr) = Some k \<Longrightarrow> assigned a' = (assigned a)(k := None) \<and>
       reverse a' = (reverse a)(IP_String addr := None) \<and>
       w' = snd (RemoveAddress (addrManager a) addr w) \<and>
       (r = None \<longleftrightarrow> fst (RemoveAddress (addrManager a) addr w) = None)"
  using assms alloc_inv_release [OF assms(1)]
  by (auto simp: ReleaseVIP_def Let_def split: option.splits prod.splits)

subsection \<open>Runs\<close>

text \<open>
  A run of the allocator is a sequence of calls, in the order in which they take the mutex.
  \<open>vip_run\<close> also collects the addresses that were handed out fresh, not found in the map.
\<close>

datatype vip_op = OpAllocate string | OpRelease ip

fun vip_run :: "vip_op list \<Rightarrow> 'w allocator \<Rightarrow> 'w \<Rightarrow> uint32 list \<times> 'w allocator \<times> 'w" where
  "vip_run [] a w = ([], a, w)"
| "vip_run (OpAllocate k # ops) a w =
     (let (r, a1, w1) = Allocate a k w; (ns, a2, w2) = vip_run ops a1 w1
      in (case (assigned a k, r) of (None, Inr addr) \<Rightarrow> ipToUint32 addr # ns | _ \<Rightarrow> ns, a2, w2))"
| "vip_run (OpRelease addr # ops) a w =
     (let (r, a1, w1) = ReleaseVIP a addr w in vip_run ops a1 w1)"

lemma vip_run_inv:
  assumes "alloc_inv a" "vip_run ops a w = (ns, a', w')"
  shows "alloc_inv a' \<and> addrManager a' = addrManager a \<and> base a' = base a \<and> maxAddr a' = maxAddr a"
  using assms
proof (induction ops a w arbitrary: ns a' w' rule: vip_run.induct)
  case (2 k ops a w)
  obtain r a1 w1 where A: "Allocate a k w = (r, a1, w1)" by (metis prod_cases3)
  obtain ms a2 w2 where R: "vip_run ops a1 w1 = (ms, a2, w2)" by (metis prod_cases3)
  note spec = Allocate_spec [OF "2.prems"(1) A]
  from "2.IH" [OF A [symmetric] refl refl spec(1) R] spec(2,3,4) "2.prems"(2) A R
  show ?case by auto
next
  case (3 addr ops a w)
  obtain r a1 w1 where A: "ReleaseVIP a addr w = (r, a1, w1)" by (metis prod_cases3)
  note spec = ReleaseVIP_spec [OF "3.prems"(1) A]
  have "vip_run ops a1 w1 = (ns, a', w')" using "3.prems"(2) A by simp
  from "3.IH" [OF A [symmetric] refl refl spec(1) this] spec(2,3,4) show ?case by simp
qed simp

lemma vip_run_fresh:
  assumes "alloc_inv a" "vip_run ops a w = (ns, a', w')"
  shows "sorted_wrt (<) ns \<and> (\<forall>n \<in> set ns. nextAddr a \<le> n \<and> n < maxAddr a)"
  using assms
proof (induction ops a w arbitrary: ns a' w' rule: vip_run.induct)
  case (2 k ops a w)
  obtain r a1 w1 where A: "Allocate a k w = (r, a1, w1)" by (metis prod_cases3)
  obtain ms a2 w2 where R: "vip_run ops a1 w1 = (ms, a2, w2)" by (metis prod_cases3)
  note spec = Allocate_spec [OF "2.prems"(1) A]
  have IH: "sorted_wrt (<) ms" "\<And>n. n \<in> set ms \<Longrightarrow> nextAddr a1 \<le> n \<and> n < maxAddr a"
    using "2.IH" [OF A [symmetric] refl refl spec(1) R] spec(4) by auto
  show ?case
  proof (cases "assigned a k = None \<and> isl r = False")
    case True
    then obtain addr where r: "r = Inr addr" "assigned a k = None" by (cases r) auto
    then obtain n where n: "addr = uint32ToIP n" "nextAddr a \<le> n" "n < maxAddr a"
      "nextAddr a1 = n + 1" using spec(9) by blast
    have "ns = n # ms" using "2.prems"(2) A R r n(1) by (auto simp: Let_def)
    moreover have "n < m" if "m \<in> set ms" for m
      using IH(2) [OF that] n(4) word_less_plus1 [OF n(3)] by (auto intro: less_le_trans)
    moreover have "nextAddr a \<le> m \<and> m < maxAddr a" if "m \<in> set ms" for m
      using IH(2) [OF that] spec(5) by (auto intro: order_trans)
    ultimately show ?thesis using IH(1) n by auto
  next
    case False
    then have "ns = ms" using "2.prems"(2) A R
      by (auto simp: Let_def split: option.splits sum.splits)
    with IH spec(5) show ?thesis by (auto intro: order_trans)
  qed
next
  case (3 addr ops a w)
  obtain r a1 w1 where A: "ReleaseVIP a addr w = (r, a1, w1)" by (metis prod_cases3)
  note spec = ReleaseVIP_spec [OF "3.prems"(1) A]
  have "vip_run ops a1 w1 = (ns, a', w')" using "3.prems"(2) A by simp
  from "3.IH" [OF A [symmetric] refl refl spec(1) this] spec(4,5) show ?case by simp
qed simp

subsection \<open>The range of a CIDR\<close>

definition network_addr :: "ip \<Rightarrow> nat \<Rightarrow> nat" where
  "network_addr addr n = unat (be_Uint32 addr) div 2 ^ (32 - n) * 2 ^ (32 - n)"

definition broadcast_addr :: "ip \<Rightarrow> nat \<Rightarrow> nat" where
  "broadcast_addr addr n = network_addr addr n + (2 ^ (32 - n) - 1)"

lemma unat_push_drop:
  "unat (push_bit k (drop_bit k x)) = unat x div 2 ^ k * 2 ^ k" for x :: uint32
proof -
  have x: "unat x < 2 ^ 32" using unsigned_less [of x] by simp
  then have "take_bit 32 (unat x) = unat x" by (rule take_bit_nat_eq_self)
  moreover have "unat x div 2 ^ k * 2 ^ k < 2 ^ 32" using x by (meson div_times_less_eq_dividend le_less_trans)
  ultimately show ?thesis
    unfolding unsigned_push_bit_eq unsigned_drop_bit_eq
    by (simp add: push_bit_eq_mult drop_bit_eq_div take_bit_nat_eq_self)
qed

lemma broadcast_less:
  assumes "n \<le> 32"
  shows "broadcast_addr addr n < 2 ^ 32"
proof -
  let ?p = "2 ^ (32 - n) :: nat" and ?x = "unat (be_Uint32 addr)"
  have p: "(2 :: nat) ^ 32 = 2 ^ n * ?p" using assms by (simp flip: power_add)
  have "?x < 2 ^ n * ?p" using unsigned_less [of "be_Uint32 addr"] by (simp flip: p)
  then have "?x div ?p < 2 ^ n" by (simp add: less_mult_imp_div_less)
  then have "(?x div ?p + 1) * ?p \<le> 2 ^ 32" unfolding p by (intro mult_right_mono) auto
  then have "network_addr addr n + ?p \<le> 2 ^ 32" by (simp add: network_addr_def)
  moreover have "0 < ?p" by simp
  ultimately show ?thesis unfolding broadcast_addr_def by linarith
qed

lemma NewAllocator_cidr4:
  assumes "length addr = 4" "n \<le> 32"
  obtains a where "NewAllocator am (cidr4 addr n) = Inr a"
    "base a = of_nat (network_addr addr n) + 1"
    "maxAddr a = of_nat (broadcast_addr addr n)" "nextAddr a = base a"
proof -
  let ?b = "push_bit (32 - n) (drop_bit (32 - n) (be_Uint32 addr))"
  have b: "ipToUint32 (IP_Mask (v4InV6Prefix @ addr) (n, 32)) = ?b"
    using be_Uint32_IP_Mask [OF assms] by (simp add: ipToUint32_def Let_def) auto
  have nb: "?b = of_nat (network_addr addr n)"
    unfolding network_addr_def unat_push_drop [symmetric] by simp
  have "?b + push_bit (32 - n) 1 - 1 = of_nat (broadcast_addr addr n)"
    unfolding nb broadcast_addr_def of_nat_add
    by (simp add: of_nat_diff push_bit_eq_mult del: Suc_pred One_nat_def)
  with b nb that show ?thesis
    using ParseCIDR_cidr4 [OF assms] by (auto simp: NewAllocator_def Mask_Size_def Let_def)
qed

lemma NewAllocator_range:
  assumes "length addr = 4" "n \<le> 32" "network_addr addr n < 2 ^ 32 - 1"
    and "NewAllocator am (cidr4 addr n) = Inr a"
  shows "unat (base a) = network_addr addr n + 1" "unat (maxAddr a) = broadcast_addr addr n"
    "nextAddr a = base a"
proof -
  obtain a' where a': "NewAllocator am (cidr4 addr n) = Inr a'"
    "base a' = of_nat (network_addr addr n) + 1" "maxAddr a' = of_nat (broadcast_addr addr n)"
    "nextAddr a' = base a'" using NewAllocator_cidr4 [OF assms(1,2)] by metis
  have "base a' = of_nat (network_addr addr n + 1)" using a'(2) by simp
  with assms(3) have "unat (base a') = network_addr addr n + 1"
    by (simp only: unat_of_nat32 less_diff_conv)
  moreover have "unat (maxAddr a') = broadcast_addr addr n"
    by (simp only: a'(3) unat_of_nat32 broadcast_less [OF assms(2)])
  ultimately show "unat (base a) = network_addr addr n + 1"
    "unat (maxAddr a) = broadcast_addr addr n" "nextAddr a = base a"
    using a' assms(4) by simp_all
qed

subsection \<open>The allocator on an interface\<close>

definition vips_on_iface :: "('w \<Rightarrow> 'e set) \<Rightarrow> (ip \<Rightarrow> 'e) \<Rightarrow> 'w allocator \<Rightarrow> 'w \<Rightarrow> bool" where
  "vips_on_iface addrs own a w \<longleftrightarrow> own ` ran (assigned a) \<subseteq> addrs w"

lemma word_le_cases: "n \<le> m \<Longrightarrow> n < x \<Longrightarrow> m = n \<or> n + 1 \<le> m" for n m x :: "'a::len word"
  using unat_plus1 [of n x] by (auto simp: word_le_nat_alt word_less_nat_alt unat_arith_simps)

context iface_manager
begin

lemma allocLoop_iface:
  assumes "addrManager a = M" "allocLoop a k w = (r, a', w')"
  shows "case r of
      Inr v \<Rightarrow> (\<exists>n. v = uint32ToIP n \<and> nextAddr a \<le> n \<and> n < maxAddr a \<and> own v \<notin> addrs w \<and>
        addrs w' = insert (own v) (addrs w) \<and>
        (\<forall>m. nextAddr a \<le> m \<and> m < n \<longrightarrow> own (uint32ToIP m) \<in> addrs w))
    | Inl e \<Rightarrow> addrs w' = addrs w \<and>
        (e = exhausted \<and> (\<forall>m. nextAddr a \<le> m \<and> m < maxAddr a \<longrightarrow> own (uint32ToIP m) \<in> addrs w) \<or>
         (\<exists>msg e'. e = Wrapf msg e'))"
  using assms
proof (induction a k w arbitrary: r a' w' rule: allocLoop.induct)
  case (1 a k w)
  show ?case
  proof (cases "maxAddr a \<le> nextAddr a")
    case True
    with "1.prems" show ?thesis by (auto simp: allocLoop.simps [of a])
  next
    case False
    then have lt: "nextAddr a < maxAddr a" by simp
    obtain q w1 where add: "AddAddress M (uint32ToIP (nextAddr a)) w = (q, w1)" by fastforce
    consider (ok) "q = None"
      | (skip) e where "q = Some e" "errors_Is e ErrAddressInUse"
      | (fail) e where "q = Some e" "\<not> errors_Is e ErrAddressInUse" by (cases q) auto
    then show ?thesis
    proof cases
      case ok
      with "1.prems" False add add_ok [of "uint32ToIP (nextAddr a)" w w1] lt
      show ?thesis by (auto simp: allocLoop.simps [of a] Let_def)
    next
      case skip
      let ?a = "a\<lparr>nextAddr := nextAddr a + 1, skipped := insert (nextAddr a) (skipped a)\<rparr>"
      have loop: "allocLoop ?a k w1 = (r, a', w')"
        using "1.prems" False add skip by (simp add: allocLoop.simps [of a] Let_def)
      have w1: "addrs w1 = addrs w" "own (uint32ToIP (nextAddr a)) \<in> addrs w"
        using add_err [OF _ add [unfolded skip(1)]] add_in_use [OF _ add [unfolded skip(1)] skip(2)]
        by simp_all
      have le_iff: "nextAddr a \<le> m \<longleftrightarrow> m = nextAddr a \<or> nextAddr a + 1 \<le> m" for m
        using word_le_cases [OF _ lt, of m] word_less_plus1 [OF lt] by (auto intro: order_trans)
      show ?thesis
        using "1.IH" [OF False refl refl _ skip, of w1 r a' w'] "1.prems"(1) add loop w1
        by (auto simp: le_iff split: sum.splits)
    next
      case fail
      with "1.prems" False add add_err [of "uint32ToIP (nextAddr a)" w _ w1]
      show ?thesis by (auto simp: allocLoop.simps [of a] Let_def)
    qed
  qed
qed

lemma cleanupLoop_iface:
  assumes "\<And>k v. allocs k = Some v \<Longrightarrow> length v = 4" "cleanupLoop M allocs ks w = (errs, w')"
  shows "addrs w' \<subseteq> addrs w" "addrs w - own ` ran allocs \<subseteq> addrs w'"
    "errs = [] \<Longrightarrow> addrs w' = addrs w - own ` {v. \<exists>k \<in> set ks. allocs k = Some v}"
  using assms(2)
proof (induction ks arbitrary: w errs w')
  case (Cons k ks)
  have step: "\<exists>w1 errs1. cleanupLoop M allocs ks w1 = (errs1, w') \<and> addrs w1 \<subseteq> addrs w \<and>
      addrs w - own ` ran allocs \<subseteq> addrs w1 \<and>
      (errs = [] \<longrightarrow> errs1 = [] \<and> addrs w1 = addrs w - own ` {v. allocs k = Some v})"
    if "cleanupLoop M allocs (k # ks) w = (errs, w')" for w errs w'
  proof (cases "allocs k")
    case None
    with that show ?thesis by auto
  next
    case (Some v)
    obtain q w1 where rm: "RemoveAddress M v w = (q, w1)" by fastforce
    have v: "length (To4 v) = 4" "To4 v = v" using assms(1) [OF Some] by simp_all
    show ?thesis
    proof (cases q)
      case None
      with remove_ok [OF v(1), of w w1] rm v(2) have "addrs w1 = addrs w - {own v}" by simp
      with that Some rm None show ?thesis by (auto simp: ran_def)
    next
      case (Some e)
      with remove_err [OF v(1), of w e w1] rm have "addrs w1 = addrs w" by simp
      with that \<open>allocs k = Some v\<close> rm Some show ?thesis by (auto split: prod.splits)
    qed
  qed
  {
    case 1
    from step [OF this] Cons.IH(1) show ?case by blast
  next
    case 2
    have "A - X \<subseteq> C" if "A - X \<subseteq> B" "B - X \<subseteq> C" for A B C X :: "'e set" using that by blast
    with step [OF 2] Cons.IH(2) show ?case by metis
  next
    case 3
    from step [OF 3(2)] 3(1) obtain w1 where w1: "cleanupLoop M allocs ks w1 = ([], w')"
      "addrs w1 = addrs w - own ` {v. allocs k = Some v}" by auto
    have "{v. \<exists>k' \<in> set (k # ks). allocs k' = Some v} = {v. allocs k = Some v} \<union> {v. \<exists>k' \<in> set ks. allocs k' = Some v}"
      by auto
    with Cons.IH(3) [OF refl w1(1)] w1(2) show ?case by (simp only: image_Un) blast
  }
qed simp_all

end

lemma AllAllocations_eq:
  assumes "range_of ks (assigned a)"
  shows "AllAllocations ks a = assigned a"
proof -
  have "foldl (\<lambda>r k. r(k := m k)) f ks = (\<lambda>k. if k \<in> set ks then m k else f k)"
    for m :: "string \<rightharpoonup> ip" and f
    by (induction ks arbitrary: f) auto
  with range_of_set [OF assms] show ?thesis by (auto simp: AllAllocations_def domIff)
qed

lemma Allocate_on_iface:
  assumes "iface_manager M addrs own" "addrManager a = M" "alloc_inv a" "vips_on_iface addrs own a w"
    and "Allocate a k w = (r, a', w')"
  shows "vips_on_iface addrs own a' w'"
proof (cases "assigned a k")
  case (Some v)
  with assms show ?thesis by (simp add: Allocate_def)
next
  case None
  then have loop: "allocLoop a k w = (r, a', w')" using assms(5) by (simp add: Allocate_def)
  note iface = iface_manager.allocLoop_iface [OF assms(1,2) loop]
    and spec = allocLoop_spec [OF assms(3) None loop]
  show ?thesis
  proof (cases r)
    case (Inl e)
    with iface spec assms(4) show ?thesis by (auto simp: vips_on_iface_def)
  next
    case (Inr v)
    with iface have "addrs w' = insert (own v) (addrs w)" by auto
    moreover from Inr spec have "assigned a' = (assigned a)(k \<mapsto> v)" by auto
    ultimately show ?thesis using assms(4) None by (auto simp: vips_on_iface_def)
  qed
qed

lemma ReleaseVIP_on_iface:
  assumes "iface_manager M addrs own" "addrManager a = M" "alloc_inv a" "vips_on_iface addrs own a w"
    and "ReleaseVIP a addr w = (r, a', w')"
  shows "vips_on_iface addrs own a' w'"
proof (cases "reverse a (IP_String addr)")
  case None
  with ReleaseVIP_spec(6) [OF assms(3,5)] assms(4) show ?thesis by simp
next
  case (Some k)
  note spec = ReleaseVIP_spec(7) [OF assms(3,5) Some]
  obtain v where v: "assigned a k = Some v" "IP_String v = IP_String addr"
    using alloc_inv_reverse [OF assms(3) Some] by metis
  moreover have "length v = 4" using assigned_length [OF assms(3) v(1)] .
  ultimately have "To4 addr = v" "length (To4 addr) = 4"
    using IP_String_eq_dotted [of addr v] by simp_all
  moreover have "k' \<noteq> k \<and> assigned a k' = Some v' \<and> v' \<noteq> v" if "assigned a' k' = Some v'" for k' v'
  proof -
    from that spec have "k' \<noteq> k" "assigned a k' = Some v'" by (auto split: if_splits)
    with alloc_inv_rev [OF assms(3)] v(1) show ?thesis by (metis option.inject)
  qed
  moreover have "own v' \<in> addrs w" if "assigned a k' = Some v'" for k' v'
    using assms(4) that by (auto simp: vips_on_iface_def ran_def)
  moreover have "w' = snd (RemoveAddress M addr w)" using spec assms(2) by simp
  ultimately have "own v' \<in> addrs w'" if "assigned a' k' = Some v'" for k' v'
    using iface_manager.remove_other [OF assms(1), of addr "own v'" w] iface_manager.own_eq [OF assms(1)] that
    by metis
  then show ?thesis by (auto simp: vips_on_iface_def ran_def)
qed

lemma vip_run_on_iface:
  assumes "iface_manager M addrs own" "addrManager a = M" "alloc_inv a" "vips_on_iface addrs own a w"
    and "vip_run ops a w = (ns, a', w')"
  shows "vips_on_iface addrs own a' w'"
  using assms(2-)
proof (induction ops a w arbitrary: ns a' w' rule: vip_run.induct)
  case (2 k ops a w)
  obtain r a1 w1 where A: "Allocate a k w = (r, a1, w1)" by (metis prod_cases3)
  obtain ms a2 w2 where R: "vip_run ops a1 w1 = (ms, a2, w2)" by (metis prod_cases3)
  note spec = Allocate_spec [OF "2.prems"(2) A]
  have "vips_on_iface addrs own a1 w1"
    by (rule Allocate_on_iface [OF assms(1) "2.prems"(1,2,3) A])
  from "2.IH" [OF A [symmetric] refl refl _ spec(1) this R] spec(2) "2.prems"(1,4) A R
  show ?case by auto
next
  case (3 addr ops a w)
  obtain r a1 w1 where A: "ReleaseVIP a addr w = (r, a1, w1)" by (metis prod_cases3)
  note spec = ReleaseVIP_spec [OF "3.prems"(2) A]
  have "vips_on_iface addrs own a1 w1"
    by (rule ReleaseVIP_on_iface [OF assms(1) "3.prems"(1,2,3) A])
  moreover have "vip_run ops a1 w1 = (ns, a', w')" using "3.prems"(4) A by simp
  ultimately show ?case using "3.IH" [OF A [symmetric] refl refl _ spec(1)] spec(2) "3.prems"(1) by simp
qed simp

subsection \<open>The contract of a pool of VIPs\<close>

text \<open>
  What the DNS server and the ForwardManager rely on: looking a key up, allocating for a key,
  and releasing an address given in the 16-byte form \<^verbatim>\<open>net.ParseIP\<close> returns (the Go interface
  \<^verbatim>\<open>VIPReleaser\<close>). \<open>'s\<close> is the allocator together with the world of its address manager.
\<close>

locale vip_pool =
  fixes pinv :: "'s \<Rightarrow> bool" and look :: "'s \<Rightarrow> string \<Rightarrow> ip option"
    and alloc :: "string \<Rightarrow> 's \<Rightarrow> (goerr + ip) \<times> 's" and release :: "ip \<Rightarrow> 's \<Rightarrow> goerr option \<times> 's"
  assumes alloc_known: "look s k = Some v \<Longrightarrow> alloc k s = (Inr v, s)"
    and alloc_ok: "pinv s \<Longrightarrow> alloc k s = (Inr v, s') \<Longrightarrow>
      pinv s' \<and> look s' = (look s)(k \<mapsto> v)"
    and alloc_err: "pinv s \<Longrightarrow> alloc k s = (Inl e, s') \<Longrightarrow> pinv s' \<and> look s' = look s"
    and vips_distinct: "pinv s \<Longrightarrow> look s k = Some v \<Longrightarrow> look s k' = Some v \<Longrightarrow> k = k'"
    and vip_length: "pinv s \<Longrightarrow> look s k = Some v \<Longrightarrow> length v = 4"
    and release_known: "pinv s \<Longrightarrow> look s k = Some v \<Longrightarrow> release (v4InV6Prefix @ v) s = (r, s') \<Longrightarrow>
      pinv s' \<and> look s' = (look s)(k := None)"
    and release_unknown: "pinv s \<Longrightarrow> length v = 4 \<Longrightarrow> v \<notin> ran (look s) \<Longrightarrow>
      release (v4InV6Prefix @ v) s = (None, s)"
begin

lemma alloc_idempotent:
  assumes "pinv s" "alloc k s = (Inr v, s')"
  shows "alloc k s' = (Inr v, s')"
  by (rule alloc_known) (simp add: alloc_ok [OF assms])

lemma alloc_pinv: "pinv s \<Longrightarrow> alloc k s = (r, s') \<Longrightarrow> pinv s'"
  using alloc_ok alloc_err by (cases r) blast+

lemma release_pinv:
  assumes "pinv s" "length v = 4" "release (v4InV6Prefix @ v) s = (r, s')"
  shows "pinv s'" "look s' k \<noteq> Some v"
proof -
  have "pinv s' \<and> look s' k \<noteq> Some v"
  proof (cases "v \<in> ran (look s)")
    case True
    then obtain k0 where k0: "look s k0 = Some v" by (auto simp: ran_def)
    with release_known [OF assms(1) this assms(3)] vips_distinct [OF assms(1) k0, of k]
    show ?thesis by auto
  next
    case False
    with release_unknown [OF assms(1,2)] assms(1,3) show ?thesis by (auto simp: ran_def)
  qed
  then show "pinv s'" "look s' k \<noteq> Some v" by simp_all
qed

lemma release_then_alloc_fresh:
  assumes "pinv s" "length v = 4" "release (v4InV6Prefix @ v) s = (r, s')" "alloc k s' = (Inr v', s'')"
    and "k' \<noteq> k"
  shows "look s'' k' \<noteq> Some v"
  using alloc_ok [OF release_pinv(1) [OF assms(1-3)] assms(4)] release_pinv(2) [OF assms(1-3)] assms(5)
  by simp

end

text \<open>The allocator as such a pool.\<close>

definition pool_inv :: "'w allocator \<times> 'w \<Rightarrow> bool" where
  "pool_inv s = alloc_inv (fst s)"

definition pool_lookup :: "'w allocator \<times> 'w \<Rightarrow> string \<Rightarrow> ip option" where
  "pool_lookup s k = Lookup (fst s) k"

definition pool_alloc :: "string \<Rightarrow> 'w allocator \<times> 'w \<Rightarrow> (goerr + ip) \<times> 'w allocator \<times> 'w" where
  "pool_alloc k s = Allocate (fst s) k (snd s)"

definition pool_release :: "ip \<Rightarrow> 'w allocator \<times> 'w \<Rightarrow> goerr option \<times> 'w allocator \<times> 'w" where
  "pool_release v s = ReleaseVIP (fst s) v (snd s)"

lemma pool_lookup_eq: "pool_lookup s = assigned (fst s)"
  by (rule ext) (simp add: pool_lookup_def Lookup_def)

lemmas pool_defs = pool_inv_def pool_lookup_eq pool_alloc_def pool_release_def

interpretation pool: vip_pool pool_inv pool_lookup pool_alloc pool_release
proof (unfold_locales, goal_cases)
  case (1 s k v)
  then show ?case by (simp add: pool_defs Allocate_def)
next
  case (2 s k v s')
  then show ?case by (cases s') (simp add: pool_defs Allocate_spec(1,6))
next
  case (3 s k e s')
  then show ?case by (cases s') (simp add: pool_defs Allocate_spec(1,7))
next
  case (4 s k v k')
  then have "alloc_inv (fst s)" "assigned (fst s) k = Some v" "assigned (fst s) k' = Some v"
    by (simp_all add: pool_defs)
  then show ?case by (metis alloc_inv_rev option.inject)
next
  case (5 s k v)
  then show ?case by (simp add: pool_defs assigned_length)
next
  case (6 s k v r s')
  then have l: "length v = 4" "reverse (fst s) (dotted v) = Some k"
    using assigned_length alloc_inv_rev by (fastforce simp: pool_defs)+
  with 6 ReleaseVIP_spec(1,7) [of "fst s" "v4InV6Prefix @ v" "snd s" r "fst s'" "snd s'"]
  show ?case by (simp add: pool_defs)
next
  case (7 s v)
  have "reverse (fst s) (dotted v) = None"
  proof (rule ccontr)
    assume "reverse (fst s) (dotted v) \<noteq> None"
    then obtain k where k: "reverse (fst s) (dotted v) = Some k" by auto
    with 7(1) obtain v' where "assigned (fst s) k = Some v'" "IP_String v' = dotted v"
      using alloc_inv_reverse by (metis pool_inv_def)
    moreover from this 7(1) have "v' = v"
      using assigned_length [of "fst s" k v'] 7(2) by (simp add: pool_defs dotted_inj)
    ultimately show False using 7(3) by (auto simp: pool_defs ran_def)
  qed
  with 7(2) show ?case by (cases s) (simp add: pool_defs ReleaseVIP_def Let_def)
qed

subsection \<open>The ledger of a pool\<close>

text \<open>
  A client that remembers which address it was given for which key keeps a ledger. A pool that
  never hands an address out a second time, \<open>spent\<close> being the addresses it has passed, keeps the
  ledger unambiguous, whatever is released in between.
\<close>

definition ledger_ok :: "(string \<rightharpoonup> ip) \<Rightarrow> ip set \<Rightarrow> (ip \<times> string) set \<Rightarrow> bool" where
  "ledger_ok m sp G \<longleftrightarrow> (\<forall>v k. (v, k) \<in> G \<longrightarrow> v \<in> sp \<and> (\<forall>k'. m k' = Some v \<longrightarrow> k' = k) \<and>
     (\<forall>k'. (v, k') \<in> G \<longrightarrow> k' = k))"

lemma ledger_empty [simp]: "ledger_ok m sp {}"
  by (simp add: ledger_ok_def)

lemma ledger_okD:
  assumes "ledger_ok m sp G" "(v, k) \<in> G"
  shows "v \<in> sp" "m k' = Some v \<Longrightarrow> k' = k" "(v, k') \<in> G \<Longrightarrow> k' = k"
  using assms unfolding ledger_ok_def by blast+

lemma ledger_mono:
  assumes "ledger_ok m sp G" "m' \<subseteq>\<^sub>m m" "sp \<subseteq> sp'"
  shows "ledger_ok m' sp' G"
proof -
  have "m k = Some v" if "m' k = Some v" for k v using assms(2) that by (metis domI map_le_def)
  with assms(1,3) show ?thesis unfolding ledger_ok_def by blast
qed

locale vip_ledger = vip_pool pinv look alloc release
  for pinv :: "'s \<Rightarrow> bool" and look :: "'s \<Rightarrow> string \<Rightarrow> ip option"
    and alloc :: "string \<Rightarrow> 's \<Rightarrow> (goerr + ip) \<times> 's" and release :: "ip \<Rightarrow> 's \<Rightarrow> goerr option \<times> 's" +
  fixes spent :: "'s \<Rightarrow> ip set"
  assumes look_spent: "pinv s \<Longrightarrow> look s k = Some v \<Longrightarrow> v \<in> spent s"
    and alloc_spent: "pinv s \<Longrightarrow> alloc k s = (r, s') \<Longrightarrow> spent s \<subseteq> spent s'"
    and alloc_new: "pinv s \<Longrightarrow> look s k = None \<Longrightarrow> alloc k s = (Inr v, s') \<Longrightarrow> v \<notin> spent s"
    and release_spent: "pinv s \<Longrightarrow> release a s = (q, s') \<Longrightarrow>
      pinv s' \<and> look s' \<subseteq>\<^sub>m look s \<and> spent s \<subseteq> spent s'"
    and spent_length: "v \<in> spent s \<Longrightarrow> length v = 4"
begin

lemma ledger_hit:
  assumes "pinv s" "look s k = Some v" "ledger_ok (look s) (spent s) G"
  shows "ledger_ok (look s) (spent s) (insert (v, k) G)"
  using assms(3) look_spent [OF assms(1,2)] vips_distinct [OF assms(1,2)] ledger_okD(2) [OF assms(3) _ assms(2)]
  unfolding ledger_ok_def by blast

lemma ledger_alloc:
  assumes "pinv s" "alloc k s = (Inr v, s')" "ledger_ok (look s) (spent s) G"
  shows "ledger_ok (look s') (spent s') (insert (v, k) G)"
proof (cases "look s k")
  case (Some v')
  with alloc_known [OF Some] assms(2) have "s' = s" "v' = v" by simp_all
  with Some ledger_hit [OF assms(1) _ assms(3)] show ?thesis by simp
next
  case None
  note ok = alloc_ok [OF assms(1,2)]
  have "v \<notin> spent s" by (rule alloc_new [OF assms(1) None assms(2)])
  then have "ledger_ok (look s') (spent s') G"
    using ok assms(3) alloc_spent [OF assms(1,2)] unfolding ledger_ok_def by (auto split: if_splits)
  moreover have "look s' k = Some v" using ok by simp
  ultimately show ?thesis using ledger_hit [of s'] ok by blast
qed

lemma ledger_alloc_err:
  assumes "pinv s" "alloc k s = (Inl e, s')" "ledger_ok (look s) (spent s) G"
  shows "ledger_ok (look s') (spent s') G"
  using ledger_mono [OF assms(3) _ alloc_spent [OF assms(1,2)]] alloc_err [OF assms(1,2)] by simp

lemma ledger_release:
  assumes "pinv s" "release a s = (r, s')" "ledger_ok (look s) (spent s) G"
  shows "ledger_ok (look s') (spent s') G"
  using ledger_mono [OF assms(3)] release_spent [OF assms(1,2)] by blast

end

definition pool_spent :: "'w allocator \<times> 'w \<Rightarrow> ip set" where
  "pool_spent s = uint32ToIP ` {n. n < nextAddr (fst s)}"

interpretation ledger: vip_ledger pool_inv pool_lookup pool_alloc pool_release pool_spent
proof (unfold_locales, goal_cases)
  case (1 s k v)
  then show ?case by (auto simp: pool_defs pool_spent_def elim!: alloc_inv_assigned)
next
  case (2 s k r s')
  then show ?case
    using Allocate_spec(5) [of "fst s" k "snd s" r "fst s'" "snd s'"]
    by (auto simp: pool_defs pool_spent_def intro: less_le_trans)
next
  case (3 s k v s')
  then obtain n where "v = uint32ToIP n" "nextAddr (fst s) \<le> n"
    using Allocate_spec(9) [of "fst s" k "snd s" "Inr v" "fst s'" "snd s'"] by (auto simp: pool_defs)
  then show ?case by (auto simp: pool_spent_def)
next
  case (4 s a r s')
  note spec = ReleaseVIP_spec [of "fst s" a "snd s" r "fst s'" "snd s'"]
  have "pool_lookup s' \<subseteq>\<^sub>m pool_lookup s"
    using 4 spec(6,7) by (cases "reverse (fst s) (IP_String a)") (auto simp: pool_defs map_le_def)
  with 4 spec(1,5) show ?case by (simp add: pool_defs pool_spent_def)
next
  case (5 v s)
  then show ?case by (auto simp: pool_spent_def)
qed

subsection \<open>An allocator on the host\<close>

definition host0 :: host where
  "host0 = \<lparr>host_addrs = [([127, 0, 0, 1], 8), ([10, 0, 0, 1], 32)], host_privileged = True\<rparr>"

definition lo_manager :: "host addrManager" where
  "lo_manager = netlinkManager host_netlink lo_link"

definition alloc0 :: "host allocator" where
  "alloc0 = projr (NewAllocator lo_manager (cidr4 [10, 0, 0, 0] 29))"

lemma addrs29 [simp]:
  "network_addr [10, 0, 0, 0] 29 = 0x0A000000" "broadcast_addr [10, 0, 0, 0] 29 = 0x0A000007"
  by (simp_all add: network_addr_def broadcast_addr_def)

lemma alloc0:
  "NewAllocator lo_manager (cidr4 [10, 0, 0, 0] 29) = Inr alloc0"
  "base alloc0 = 0x0A000001" "maxAddr alloc0 = 0x0A000007" "nextAddr alloc0 = 0x0A000001"
  "addrManager alloc0 = lo_manager" "assigned alloc0 = Map.empty" "reverse alloc0 = Map.empty"
  "skipped alloc0 = {}"
proof -
  have "length ([10, 0, 0, 0] :: ip) = 4" "(29 :: nat) \<le> 32" by simp_all
  then obtain a where "NewAllocator lo_manager (cidr4 [10, 0, 0, 0] 29) = Inr a"
    "base a = of_nat (network_addr [10, 0, 0, 0] 29) + 1"
    "maxAddr a = of_nat (broadcast_addr [10, 0, 0, 0] 29)" "nextAddr a = base a"
    using NewAllocator_cidr4 by metis
  then show "NewAllocator lo_manager (cidr4 [10, 0, 0, 0] 29) = Inr alloc0"
    "base alloc0 = 0x0A000001" "maxAddr alloc0 = 0x0A000007" "nextAddr alloc0 = 0x0A000001"
    by (simp_all add: alloc0_def)
  then show "addrManager alloc0 = lo_manager" "assigned alloc0 = Map.empty" "reverse alloc0 = Map.empty"
    "skipped alloc0 = {}" using NewAllocator_manager NewAllocator_empty by blast+
qed

lemmas alloc0_run = alloc0(2-) Allocate_def Lookup_def ReleaseVIP_def allocLoop.simps lo_manager_def
  netlinkManager_def netlink_AddAddress_def host_netlink_def host_add_def host0_def EEXIST_def
  ErrAddressInUse_def uint32ToIP_def be_PutUint32_def ipToUint32_def Let_def

definition run0 :: "uint32 list \<times> host allocator \<times> host" where
  "run0 = vip_run [OpAllocate ''web/prod''] alloc0 host0"

lemma run0:
  "vip_run [OpAllocate ''web/prod''] alloc0 host0 = (fst run0, fst (snd run0), snd (snd run0))"
  "Lookup (fst (snd run0)) ''web/prod'' = Some [10, 0, 0, 2]"
  by (simp add: run0_def) (simp add: run0_def alloc0_run)

subsection \<open>Properties\<close>

lemma vip_run_new:
  assumes "NewAllocator am cidr = Inr a" "vip_run ops a w = (ns, a', w')"
  shows "alloc_inv a'" "addrManager a' = am" "base a' = base a" "maxAddr a' = maxAddr a"
  using vip_run_inv [OF NewAllocator_inv [OF assms(1)] assms(2)] NewAllocator_manager [OF assms(1)]
  by simp_all

text \<open>
  C9: take a new allocator for an IPv4 CIDR whose network address is not 255.255.255.255. After any
  sequence of Allocate and ReleaseVIP calls, with any address manager, every VIP held lies strictly
  between the network and the broadcast address of the CIDR, belongs to exactly one service key, and
  ReverseLookup of its text gives that key. For the address excluded base + 1 wraps; it and IPv6
  CIDRs are accepted and hand out addresses outside of the CIDR (\<open>new_allocator_degenerate_cidrs\<close>).
\<close>

theorem vips_unique_in_range:
  assumes "length addr = 4" "n \<le> 32" "network_addr addr n < 2 ^ 32 - 1"
    and "NewAllocator am (cidr4 addr n) = Inr a" "vip_run ops a w = (ns, a', w')"
    and "Lookup a' k = Some v"
  shows "length v = 4 \<and> network_addr addr n < unat (be_Uint32 v) \<and>
    unat (be_Uint32 v) < broadcast_addr addr n \<and> ReverseLookup a' (IP_String v) = k \<and>
    (\<forall>k'. Lookup a' k' = Some v \<longrightarrow> k' = k)"
proof -
  note inv = vip_run_new [OF assms(4,5)] and range = NewAllocator_range [OF assms(1-4)]
  have k: "assigned a' k = Some v" using assms(6) by (simp add: Lookup_def)
  obtain m where m: "v = uint32ToIP m" "base a' \<le> m" "m < maxAddr a'"
    using alloc_inv_assigned [OF inv(1) k] by metis
  have "be_Uint32 v = m" using m(1) by (simp add: uint32ToIP_def)
  moreover have "k' = k" if "assigned a' k' = Some v" for k'
    using alloc_inv_rev [OF inv(1) k] alloc_inv_rev [OF inv(1) that] by simp
  ultimately show ?thesis
    using m inv(3,4) range alloc_inv_rev [OF inv(1) k]
    by (auto simp: ReverseLookup_def Lookup_def word_le_nat_alt word_less_nat_alt)
qed

theorem vips_unique_in_range_witness:
  "ReverseLookup (fst (snd run0)) (IP_String [10, 0, 0, 2]) = ''web/prod''"
  using vips_unique_in_range [OF _ _ _ alloc0(1) run0] by simp

text \<open>
  C34: VIPs are never recycled. The addresses handed out fresh by any run of a new allocator are
  strictly increasing, whatever is released in between, so the allocator hands out at most
  broadcast - network - 1 addresses in the lifetime of the process.
\<close>

theorem vip_never_recycled:
  assumes "length addr = 4" "n \<le> 32" "network_addr addr n < 2 ^ 32 - 1"
    and "NewAllocator am (cidr4 addr n) = Inr a" "vip_run ops a w = (ns, a', w')"
  shows "sorted_wrt (<) ns \<and> length ns \<le> broadcast_addr addr n - network_addr addr n - 1"
proof
  note range = NewAllocator_range [OF assms(1-4)]
    and fresh = vip_run_fresh [OF NewAllocator_inv [OF assms(4)] assms(5)]
  show "sorted_wrt (<) ns" using fresh by simp
  then have "distinct (map unat ns)"
    by (auto simp: distinct_map strict_sorted_iff inj_on_def intro: word_unat_eq_iff [THEN iffD2])
  moreover have "set (map unat ns) \<subseteq> {network_addr addr n + 1 ..< broadcast_addr addr n}"
    using fresh range by (auto simp: word_le_nat_alt word_less_nat_alt)
  ultimately have "length (map unat ns) \<le> card {network_addr addr n + 1 ..< broadcast_addr addr n}"
    by (metis card_mono distinct_card finite_atLeastLessThan)
  then show "length ns \<le> broadcast_addr addr n - network_addr addr n - 1" by simp
qed

theorem vip_never_recycled_witness: "length (fst run0) \<le> 6"
  using vip_never_recycled [OF _ _ _ alloc0(1) run0(1)] by simp

text \<open>
  C22: Allocate takes the first free address. For a key with no VIP, on a link whose kernel
  behaves as rtnetlink documents, a success returns the least address \<open>v\<close> at or after the cursor for
  which the link does not carry \<open>v/32\<close>, adds exactly \<open>v/32\<close> to the link and records \<open>v\<close>; a failure
  changes neither the link nor the maps, and it is the exhaustion error only when the link carries
  every address left in the range with prefix length 32. An address that the link carries with
  another prefix length only is free in this sense.
\<close>

theorem allocate_first_free:
  assumes "netlink_kernel nl l addrs" "addrManager a = netlinkManager nl l" "alloc_inv a"
    and "Lookup a k = None" "Allocate a k w = (r, a', w')"
  shows "case r of
      Inr v \<Rightarrow> (v, 32) \<notin> addrs w \<and> addrs w' = insert (v, 32) (addrs w) \<and> Lookup a' = (Lookup a)(k \<mapsto> v) \<and>
        (\<forall>m. nextAddr a \<le> m \<and> m < ipToUint32 v \<longrightarrow> (uint32ToIP m, 32) \<in> addrs w)
    | Inl e \<Rightarrow> addrs w' = addrs w \<and> Lookup a' = Lookup a \<and>
        (e = exhausted \<longrightarrow> (\<forall>m. nextAddr a \<le> m \<and> m < maxAddr a \<longrightarrow> (uint32ToIP m, 32) \<in> addrs w))"
proof -
  have none: "assigned a k = None" using assms(4) by (simp add: Lookup_def)
  with assms(5) have loop: "allocLoop a k w = (r, a', w')" by (simp add: Allocate_def)
  show ?thesis
    using iface_manager.allocLoop_iface [OF netlink_kernel.is_iface_manager [OF assms(1)] assms(2) loop]
      allocLoop_spec [OF assms(3) none loop]
    by (auto simp: Lookup_def fun_eq_iff exhausted_def split: sum.splits)
qed

theorem allocate_first_free_witness: "(uint32ToIP 0x0A000001, 32) \<in> host_set host0"
proof -
  have "alloc_inv alloc0" by (rule NewAllocator_inv [OF alloc0(1)])
  moreover obtain a' w' where "Allocate alloc0 ''web/prod'' host0 = (Inr [10, 0, 0, 2], a', w')"
    by (simp add: alloc0_run)
  moreover have "(0x0A000001 :: uint32) < ipToUint32 [10, 0, 0, 2]" by (simp add: ipToUint32_def To4_def)
  ultimately show ?thesis
    using allocate_first_free [OF linux.netlink_kernel_axioms, of alloc0 "''web/prod''" host0]
    by (fastforce simp: alloc0(4-6) lo_manager_def Lookup_def)
qed

text \<open>
  C25: while the kernel behaves as documented and only the allocator removes the addresses it has
  added, the link carries \<open>v/32\<close> for every VIP \<open>v\<close> that Lookup returns: it holds along every sequence
  of Allocate and ReleaseVIP calls, including those whose kernel calls fail.
\<close>

theorem vips_stay_on_link:
  assumes "netlink_kernel nl l addrs" "NewAllocator (netlinkManager nl l) cidr = Inr a"
    and "vip_run ops a w = (ns, a', w')" "Lookup a' k = Some v"
  shows "(v, 32) \<in> addrs w'"
proof -
  have "vips_on_iface addrs (\<lambda>a. (a, 32)) a w" using NewAllocator_empty [OF assms(2)] by (simp add: vips_on_iface_def)
  from vip_run_on_iface [OF netlink_kernel.is_iface_manager [OF assms(1)]
      NewAllocator_manager [OF assms(2)] NewAllocator_inv [OF assms(2)] this assms(3)]
  show ?thesis using assms(4) by (auto simp: vips_on_iface_def Lookup_def ran_def)
qed

theorem vips_stay_on_link_witness: "([10, 0, 0, 2], 32) \<in> host_set (snd (snd run0))"
  by (rule vips_stay_on_link [OF linux.netlink_kernel_axioms alloc0(1) [unfolded lo_manager_def] run0])

text \<open>
  C24: releasing an expired VIP. The ForwardManager keeps the text of the VIP and hands
  ReleaseVIP what net.ParseIP makes of it, a 16-byte address. For every VIP a run has handed
  out, that call frees the key and the reverse entry of this VIP and of no other, and a success
  takes \<open>v/32\<close> off the link and leaves every other address on it, one with the same IP and another
  prefix length included.
\<close>

theorem release_parsed_vip:
  assumes "netlink_kernel nl l addrs" "NewAllocator (netlinkManager nl l) cidr = Inr a"
    and "vip_run ops a w = (ns, a', w')" "Lookup a' k = Some v"
    and "ParseIP (IP_String v) = Some p" "ReleaseVIP a' p w' = (r, a'', w'')"
  shows "Lookup a'' = (Lookup a')(k := None) \<and>
    (\<forall>s. ReverseLookup a'' s = (if s = IP_String v then '''' else ReverseLookup a' s)) \<and>
    (r = None \<longrightarrow> addrs w'' = addrs w' - {(v, 32)}) \<and> (r \<noteq> None \<longrightarrow> addrs w'' = addrs w')"
proof -
  note inv = vip_run_new [OF assms(2,3)]
  have k: "assigned a' k = Some v" using assms(4) by (simp add: Lookup_def)
  have len: "length v = 4" using assigned_length [OF inv(1) k] .
  then have p: "p = v4InV6Prefix @ v" using assms(5) by simp
  then have p4: "IP_String p = IP_String v" "To4 p = v" "length (To4 p) = 4" using len by simp_all
  have rev: "reverse a' (IP_String p) = Some k" using alloc_inv_rev [OF inv(1) k] p4 by simp
  note spec = ReleaseVIP_spec(7) [OF inv(1) assms(6) rev]
  note iface = iface_manager.remove_ok [OF netlink_kernel.is_iface_manager [OF assms(1)] p4(3)]
    iface_manager.remove_err [OF netlink_kernel.is_iface_manager [OF assms(1)] p4(3)]
  obtain q where q: "RemoveAddress (netlinkManager nl l) p w' = (q, w'')"
    using spec inv(2) by (metis prod.collapse)
  then have "q = None \<longleftrightarrow> r = None" using spec inv(2) by (metis fst_conv)
  with q iface(1) [of w' w''] iface(2) [of w' _ w''] p4(2)
  have "r = None \<longrightarrow> addrs w'' = addrs w' - {(v, 32)}" "r \<noteq> None \<longrightarrow> addrs w'' = addrs w'" by auto
  with spec p4(1) show ?thesis by (auto simp: Lookup_def ReverseLookup_def fun_eq_iff)
qed

theorem release_parsed_vip_witness:
  "Lookup (fst (snd (ReleaseVIP (fst (snd run0)) (v4InV6Prefix @ [10, 0, 0, 2]) (snd (snd run0)))))
     ''web/prod'' = None"
  by (rule fun_cong [THEN trans, OF conjunct1 [OF release_parsed_vip
      [OF linux.netlink_kernel_axioms alloc0(1) [unfolded lo_manager_def] run0]]])
    (simp_all add: prod_eq_iff)

text \<open>
  Cleanup at shutdown. Whatever order the two map loops take, Cleanup removes only addresses
  that are VIPs, and when it reports no error it has removed every VIP from the link.
\<close>

lemma cleanup_clears_link:
  assumes "netlink_kernel nl l addrs" "addrManager a = netlinkManager nl l" "alloc_inv a"
    and "range_of ks (assigned a)" "range_of ks' (assigned a)" "Cleanup ks ks' a w = (r, w')"
  shows "addrs w - ran (Lookup a) \<times> {32} \<subseteq> addrs w' \<and> (r = None \<longrightarrow> addrs w' = addrs w - ran (Lookup a) \<times> {32})"
proof -
  obtain errs where loop: "cleanupLoop (netlinkManager nl l) (assigned a) ks' w = (errs, w')"
    and r: "errs = [] \<longleftrightarrow> r = None"
    using assms(2,6) AllAllocations_eq [OF assms(4)]
    by (auto simp: Cleanup_def Let_def split: prod.splits if_splits)
  note iface = iface_manager.cleanupLoop_iface
    [OF netlink_kernel.is_iface_manager [OF assms(1)] assigned_length [OF assms(3)] loop]
  have "{v. \<exists>k \<in> set ks'. assigned a k = Some v} = ran (assigned a)"
    using range_of_set [OF assms(5)] by (auto simp: ran_def dom_def)
  moreover have "Lookup a = assigned a" by (simp add: Lookup_def fun_eq_iff)
  moreover have "(\<lambda>a. (a, 32)) ` X = X \<times> {32 :: nat}" for X :: "ip set" by auto
  ultimately show ?thesis using iface r by simp
qed

text \<open>
  The addresses of the interface are not all passed over. In the default configuration, the CIDR
  127.0.0.0/8 on a loopback interface that carries 127.0.0.1/8, the first service gets 127.0.0.1
  itself: the kernel accepts 127.0.0.1/32 beside it, so nothing is reported to be in use.
\<close>

definition default_allocator :: "host allocator" where
  "default_allocator = projr (NewAllocator (netlinkManager host_netlink lo_link) (cidr4 [127, 0, 0, 0] 8))"

lemma default_first_vip_is_loopback:
  "NewAllocator (netlinkManager host_netlink lo_link) (cidr4 [127, 0, 0, 0] 8) = Inr default_allocator"
  "([127, 0, 0, 1], 8) \<in> host_set host0"
  "fst (Allocate default_allocator k host0) = Inr [127, 0, 0, 1]"
proof -
  let ?n = "[127, 0, 0, 0] :: ip"
  have len: "length ?n = 4" "(8 :: nat) \<le> 32" and net: "network_addr ?n 8 = 0x7F000000" "broadcast_addr ?n 8 = 0x7FFFFFFF"
    by (simp_all add: network_addr_def broadcast_addr_def)
  then obtain a where a: "NewAllocator (netlinkManager host_netlink lo_link) (cidr4 ?n 8) = Inr a"
    "base a = of_nat (network_addr ?n 8) + 1" "maxAddr a = of_nat (broadcast_addr ?n 8)" "nextAddr a = base a"
    using NewAllocator_cidr4 by metis
  then show new: "NewAllocator (netlinkManager host_netlink lo_link) (cidr4 ?n 8) = Inr default_allocator"
    by (simp add: default_allocator_def)
  with a net have d: "maxAddr default_allocator = 0x7FFFFFFF" "nextAddr default_allocator = 0x7F000001" by simp_all
  have "assigned default_allocator k = None" "addrManager default_allocator = netlinkManager host_netlink lo_link"
    using NewAllocator_empty [OF new] NewAllocator_manager [OF new] by simp_all
  with d show "fst (Allocate default_allocator k host0) = Inr [127, 0, 0, 1]"
    by (simp add: alloc0_run)
  show "([127, 0, 0, 1], 8) \<in> host_set host0" by (simp add: host_set_def host0_def)
qed

text \<open>
  Two CIDRs that NewAllocator accepts and should not. For 255.255.255.255/32 the sum
  base + 1 wraps to 0, and for an IPv6 CIDR ipToUint32 of the network address is 0: in both cases
  the allocator hands out addresses from 0.0.0.0 up instead of addresses of the CIDR.
\<close>

lemma new_allocator_degenerate_cidrs:
  "(\<exists>a. NewAllocator am ''255.255.255.255/32'' = Inr a \<and> nextAddr a = 0 \<and> maxAddr a = 0xFFFFFFFF) \<and>
   (\<exists>a. NewAllocator am ''fd00::/112'' = Inr a \<and> nextAddr a = 1 \<and> maxAddr a = 0xFFFF)"
proof
  let ?b = "[255, 255, 255, 255] :: ip"
  have "cidr4 ?b 32 = ''255.255.255.255/32''"
    by (simp add: cidr4_def dotted_def dec.simps digit_char_def char_of_def bit_0)
  moreover have "network_addr ?b 32 = 0xFFFFFFFF" "broadcast_addr ?b 32 = 0xFFFFFFFF"
    by (simp_all add: network_addr_def broadcast_addr_def)
  moreover have "length ?b = 4" "32 \<le> (32 :: nat)" by simp_all
  then obtain a where "NewAllocator am (cidr4 ?b 32) = Inr a"
    "base a = of_nat (network_addr ?b 32) + 1" "maxAddr a = of_nat (broadcast_addr ?b 32)"
    "nextAddr a = base a" using NewAllocator_cidr4 by metis
  ultimately show "\<exists>a. NewAllocator am ''255.255.255.255/32'' = Inr a \<and> nextAddr a = 0 \<and>
      maxAddr a = 0xFFFFFFFF" by (intro exI [of _ a]) simp
  have "parse6 ''fd00::'' [] None = Some ([], [0xFD, 0], Some 2)"
    by (subst parse6.simps) (simp add: is_hex_def unhex_def hex_val_def)
  then have "parseIPv6 ''fd00::'' = Some (Addr6 (0xFD # replicate 15 0) '''')"
    by (simp add: parseIPv6_def HasPrefix_def expand6_def Let_def) (simp add: numeral_eq_Suc)
  moreover have "dtoi ''112'' = Some 112" by (simp add: dtoi_def undec_def is_digit_def digit_val_def)
  ultimately have "ParseCIDR ''fd00::/112'' = Some (0xFD # replicate 15 0,
      \<lparr>net_IP = IP_Mask (0xFD # replicate 15 0) (112, 128), net_Mask = (112, 128)\<rparr>)"
    by (simp add: ParseCIDR_def ParseAddr_def Let_def)
  moreover have "ipToUint32 (IP_Mask (0xFD # replicate 15 0) (112, 128)) = 0"
    using To4_not_mapped [of "IP_Mask (0xFD # replicate 15 0) (112, 128)"]
    by (simp add: IP_Mask_def ipToUint32_def mask_byte_def mask_eq_exp_minus_1 Let_def)
  ultimately show "\<exists>a. NewAllocator am ''fd00::/112'' = Inr a \<and> nextAddr a = 1 \<and> maxAddr a = 0xFFFF"
    by (simp add: NewAllocator_def Mask_Size_def)
qed

subsection \<open>Termination\<close>

text \<open>
  The loop of Allocate has no condition: \<open>for { ... }\<close>. To say how often its body runs, the address
  manager is replaced by one that counts the calls of AddAddress and passes them on.
\<close>

definition counting :: "'w addrManager \<Rightarrow> (nat \<times> 'w) addrManager" where
  "counting M = \<lparr>AddAddress = (\<lambda>a (n, w). let (e, w') = AddAddress M a w in (e, n + 1, w')),
     RemoveAddress = (\<lambda>a (n, w). let (e, w') = RemoveAddress M a w in (e, n, w'))\<rparr>"

definition counted :: "'w allocator \<Rightarrow> (nat \<times> 'w) allocator" where
  "counted a = \<lparr>addrManager = counting (addrManager a), network = network a, base = base a, maxAddr = maxAddr a,
     nextAddr = nextAddr a, assigned = assigned a, reverse = reverse a, skipped = skipped a\<rparr>"

lemma counted_simps [simp]:
  "addrManager (counted a) = counting (addrManager a)" "maxAddr (counted a) = maxAddr a"
  "nextAddr (counted a) = nextAddr a" "assigned (counted a) = assigned a" "reverse (counted a) = reverse a"
  "skipped (counted a) = skipped a"
  "(counted a)\<lparr>nextAddr := n\<rparr> = counted (a\<lparr>nextAddr := n\<rparr>)"
  "(counted a)\<lparr>skipped := sk\<rparr> = counted (a\<lparr>skipped := sk\<rparr>)"
  "(counted a)\<lparr>assigned := m\<rparr> = counted (a\<lparr>assigned := m\<rparr>)"
  "(counted a)\<lparr>reverse := rm\<rparr> = counted (a\<lparr>reverse := rm\<rparr>)"
  by (simp_all add: counted_def)

lemma AddAddress_counting:
  "AddAddress M v w = (e, w') \<Longrightarrow> AddAddress (counting M) v (n, w) = (e, n + 1, w')"
  by (simp add: counting_def)

lemma allocLoop_counted:
  assumes "allocLoop a k w = (r, a', w')"
  shows "unat (nextAddr a) \<le> unat (nextAddr a') \<and> (nextAddr a < maxAddr a \<longrightarrow> unat (nextAddr a') \<le> unat (maxAddr a)) \<and>
    (maxAddr a \<le> nextAddr a \<longrightarrow> nextAddr a' = nextAddr a) \<and>
    allocLoop (counted a) k (n, w) = (r, counted a', n + (unat (nextAddr a') - unat (nextAddr a)), w')"
  using assms
proof (induction a k w arbitrary: r a' w' n rule: allocLoop.induct)
  case (1 a k w)
  show ?case
  proof (cases "maxAddr a \<le> nextAddr a")
    case True
    with "1.prems" have "r = Inl exhausted \<and> a' = a \<and> w' = w" by (simp add: allocLoop.simps [of a])
    with True show ?thesis by (auto simp: allocLoop.simps [of "counted a"] not_less)
  next
    case False
    then have lt: "nextAddr a < maxAddr a" by simp
    note succ = unat_plus1 [OF lt]
    have le: "unat (nextAddr a) + 1 \<le> unat (maxAddr a)" using lt by (simp add: word_less_nat_alt)
    obtain e w1 where add: "AddAddress (addrManager a) (uint32ToIP (nextAddr a)) w = (e, w1)" by fastforce
    note add' = AddAddress_counting [OF add, of n]
    show ?thesis
    proof (cases "\<exists>x. e = Some x \<and> errors_Is x ErrAddressInUse")
      case True
      then obtain x where x: "e = Some x" "errors_Is x ErrAddressInUse" by blast
      let ?a = "a\<lparr>nextAddr := nextAddr a + 1, skipped := insert (nextAddr a) (skipped a)\<rparr>"
      have run: "allocLoop ?a k w1 = (r, a', w')"
        using "1.prems" False add x by (simp add: allocLoop.simps [of a] Let_def)
      note IH = "1.IH" [OF False refl refl add [symmetric] x, of r a' w' "n + 1"]
      have "allocLoop (counted a) k (n, w) = allocLoop (counted ?a) k (n + 1, w1)"
        using False add' x by (simp add: allocLoop.simps [of "counted a"] Let_def)
      with IH run succ le show ?thesis
        by (cases "nextAddr ?a < maxAddr ?a") (auto simp: word_le_nat_alt word_less_nat_alt)
    next
      case False
      with "1.prems" lt add add' succ le show ?thesis
        by (cases e) (auto simp: allocLoop.simps [of a] allocLoop.simps [of "counted a"] Let_def)
    qed
  qed
qed

text \<open>
  C23: Allocate returns, soon enough. For every state and every behaviour of the address manager the
  unbounded loop ends; it asks the manager for at most as many addresses as the range has left, one
  for each that the cursor passes, and counting the calls changes nothing else.
\<close>

theorem allocate_terminates:
  "\<exists>r a' w' calls. Allocate a k w = (r, a', w') \<and> Allocate (counted a) k (0, w) = (r, counted a', calls, w') \<and>
     calls = unat (nextAddr a') - unat (nextAddr a) \<and> calls \<le> unat (maxAddr a) - unat (nextAddr a)"
proof (cases "assigned a k")
  case (Some v)
  then show ?thesis by (simp add: Allocate_def)
next
  case None
  obtain r a' w' where run: "allocLoop a k w = (r, a', w')" by (metis prod_cases3)
  from allocLoop_counted [OF run, of 0] None run show ?thesis
    by (cases "nextAddr a < maxAddr a") (auto simp: Allocate_def)
qed

end
