(* ===== verification/App_Config.thy ===== *)
theory App_Config
  imports Vip_Allocator
begin

text \<open>
  The configuration (\<^verbatim>\<open>app/config.go\<close>). The process environment is the argument \<open>env\<close>. The two
  library functions the environment is read with are arguments too: \<^verbatim>\<open>time.ParseDuration\<close>, which
  rounds fractions in floating point, and the Unicode part of \<^verbatim>\<open>strings.ToLower\<close>. A duration is
  its number of nanoseconds.
\<close>

record config =
  Interface :: string
  VIPCIDR :: string
  ClusterDomain :: string
  LogLevel :: string
  HTTPListen :: string
  DNSListen :: string
  SOCKSListen :: string
  VIPIdleTimeout :: int

definition getEnv :: "(string \<rightharpoonup> string) \<Rightarrow> string \<Rightarrow> string \<Rightarrow> string" where
  "getEnv env key fallback = (case env key of Some v \<Rightarrow> v | None \<Rightarrow> fallback)"

definition os_Getenv :: "(string \<rightharpoonup> string) \<Rightarrow> string \<Rightarrow> string" where
  "os_Getenv env key = getEnv env key ''''"

definition Validate :: "config \<Rightarrow> goerr option" where
  "Validate c =
     (if Interface c = '''' then
        Some (Errorf ''INTERFACE must not be empty: set it to an interface name (e.g. eth0) or an IP address'')
      else if ParseCIDR (VIPCIDR c) = None then
        Some (Wrapf ''VIP_CIDR is not a valid CIDR'' (Errorf (''invalid CIDR address: '' @ VIPCIDR c)))
      else if ClusterDomain c = '''' then Some (Errorf ''CLUSTER_DOMAIN must not be empty'')
      else if \<not> List.member [''debug'', ''info'', ''warn'', ''error''] (LogLevel c) then
        Some (Errorf (''LOG_LEVEL must be one of debug, info, warn, error; got \"'' @ LogLevel c @ ''\"''))
      else if DNSListen c = '''' then Some (Errorf ''DNS_LISTEN must not be empty'')
      else if SOCKSListen c = '''' then Some (Errorf ''SOCKS_LISTEN must not be empty'')
      else None)"

definition NewConfigFromEnvironment ::
  "(string \<Rightarrow> string) \<Rightarrow> (string \<Rightarrow> goerr + int) \<Rightarrow> (string \<rightharpoonup> string) \<Rightarrow> goerr + config" where
  "NewConfigFromEnvironment unicodeLower parseDuration env =
     (let cfg = \<lparr>Interface = getEnv env ''INTERFACE'' ''127.0.0.1'',
            VIPCIDR = getEnv env ''VIP_CIDR'' ''127.0.0.0/8'',
            ClusterDomain = getEnv env ''CLUSTER_DOMAIN'' ''svc.cluster.local'',
            LogLevel = ToLower unicodeLower (getEnv env ''LOG_LEVEL'' ''info''),
            HTTPListen = getEnv env ''HTTP_LISTEN'' ''127.0.0.1:8080'',
            DNSListen = getEnv env ''DNS_LISTEN'' ''127.0.0.1:0'',
            SOCKSListen = getEnv env ''SOCKS_LISTEN'' ''127.0.0.1:0'', VIPIdleTimeout = 0\<rparr>;
          s = os_Getenv env ''VIP_IDLE_TIMEOUT'';
          d = (if s \<noteq> '''' then parseDuration s else Inr (VIPIdleTimeout cfg))
      in case d of
        Inl err \<Rightarrow> Inl (Wrapf ''VIP_IDLE_TIMEOUT'' err)
      | Inr t \<Rightarrow>
          (let cfg' = cfg\<lparr>VIPIdleTimeout := t\<rparr>
           in case Validate cfg' of Some err \<Rightarrow> Inl err | None \<Rightarrow> Inr cfg'))"

lemma config_valid:
  assumes "NewConfigFromEnvironment unicodeLower parseDuration env = Inr cfg"
  shows "Validate cfg = None"
  using assms by (auto simp: NewConfigFromEnvironment_def Let_def split: sum.splits option.splits)

text \<open>A validated CIDR is one the allocator accepts, so starting never fails on it.\<close>

lemma valid_config_allocator:
  assumes "Validate cfg = None"
  shows "\<exists>a. NewAllocator am (VIPCIDR cfg) = Inr a"
  using assms
  by (cases "ParseCIDR (VIPCIDR cfg)") (auto simp: Validate_def NewAllocator_def Let_def split: if_splits prod.splits)

end
