(* ===== verification/Client_Manager.thy ===== *)
theory Client_Manager
  imports Go_Strings
begin

text \<open>
  The set of Kubernetes clients, one per kubeconfig context
  (\<^verbatim>\<open>internal/k8s/client_manager.go\<close>). A kubeconfig is client-go's \<^verbatim>\<open>api.Config\<close>: the program
  reads the three maps, the current context and, of a context, the names of its cluster and of
  its user; everything else of those structs it only copies, writes and compares, and it is the
  type variable \<open>'o\<close> here. A pointer that the code never shares for writing is its value:
  mergeConfigs copies every struct it stores, and the dynamic config is only changed in place
  under the manager's own lock.

  What client-go does is a parameter: \<open>ClientConfig\<close> and \<open>NewForConfig\<close> build the client of a
  context, and the argument \<open>file\<close> of an operation is what loading the kubeconfig files gave at
  that moment (\<^verbatim>\<open>loader.RawConfig()\<close>). A loop over a Go map runs over \<open>ord\<close> of its keys.

  \<open>merge_spec\<close> states what merging promises independently of how it is computed and \<open>synced\<close>
  that the clients are those of the merged config. The locale \<open>config_store\<close> is what the
  /kubeconfig handler relies on: what each update does to the dynamic config, when it is refused.
\<close>

type_synonym map_order = "string set \<Rightarrow> string list"

definition map_order :: "map_order \<Rightarrow> bool" where
  "map_order ord \<longleftrightarrow> (\<forall>S. finite S \<longrightarrow> distinct (ord S) \<and> set (ord S) = S)"

record 'o kcontext =
  Cluster :: string
  AuthInfo :: string
  ctx_rest :: 'o

record 'o kubecfg =
  Clusters :: "string \<rightharpoonup> 'o"
  Contexts :: "string \<rightharpoonup> 'o kcontext"
  AuthInfos :: "string \<rightharpoonup> 'o"
  CurrentContext :: string
  cfg_rest :: 'o

record ('rc, 'cs) contextClient =
  clientset :: 'cs
  restConfig :: 'rc

record ('o, 'rc, 'cs) clientManager =
  dynamicConfig :: "'o kubecfg option"
  clients :: "string \<rightharpoonup> ('rc, 'cs) contextClient"
  currentCtx :: string

text \<open>The calls into client-go, and the config that \<^verbatim>\<open>clientcmdapi.NewConfig\<close> makes.\<close>

record ('o, 'rc, 'cs) clientgo =
  ClientConfig :: "'o kubecfg \<Rightarrow> string \<Rightarrow> goerr + 'rc"
  NewForConfig :: "'rc \<Rightarrow> goerr + 'cs"
  noPreferences :: 'o

definition NewConfig :: "('o, 'rc, 'cs) clientgo \<Rightarrow> 'o kubecfg" where
  "NewConfig env = \<lparr>Clusters = Map.empty, Contexts = Map.empty, AuthInfos = Map.empty,
     CurrentContext = '''', cfg_rest = noPreferences env\<rparr>"

definition mergeMap :: "map_order \<Rightarrow> (string \<rightharpoonup> 'v) \<Rightarrow> (string \<rightharpoonup> 'v) \<Rightarrow> bool \<Rightarrow> (string \<rightharpoonup> 'v)" where
  "mergeMap ord dst src overwrite =
     foldl (\<lambda>d name. case src name of
         None \<Rightarrow> d
       | Some v \<Rightarrow> if d name = None \<or> overwrite then d(name \<mapsto> v) else d) dst (ord (dom src))"

definition mergeConfigs :: "map_order \<Rightarrow> 'o kubecfg \<Rightarrow> 'o kubecfg \<Rightarrow> bool \<Rightarrow> 'o kubecfg" where
  "mergeConfigs ord dst src overwrite =
     (let dst1 = dst\<lparr>Clusters := mergeMap ord (Clusters dst) (Clusters src) overwrite\<rparr>;
          dst2 = dst1\<lparr>Contexts := mergeMap ord (Contexts dst1) (Contexts src) overwrite\<rparr>;
          dst3 = dst2\<lparr>AuthInfos := mergeMap ord (AuthInfos dst2) (AuthInfos src) overwrite\<rparr>
      in if CurrentContext src \<noteq> '''' \<and> (overwrite \<or> CurrentContext dst3 = '''')
         then dst3\<lparr>CurrentContext := CurrentContext src\<rparr> else dst3)"

definition mergedConfig ::
  "map_order \<Rightarrow> (goerr + 'o kubecfg) \<Rightarrow> ('o, 'rc, 'cs) clientManager \<Rightarrow> goerr + 'o kubecfg" where
  "mergedConfig ord file cm =
     (case file of
        Inl err \<Rightarrow> Inl err
      | Inr rawConfig \<Rightarrow>
          (case dynamicConfig cm of
             None \<Rightarrow> Inr rawConfig
           | Some dyn \<Rightarrow> Inr (mergeConfigs ord rawConfig dyn True)))"

definition buildClients ::
  "('o, 'rc, 'cs) clientgo \<Rightarrow> map_order \<Rightarrow> 'o kubecfg \<Rightarrow> string \<rightharpoonup> ('rc, 'cs) contextClient" where
  "buildClients env ord merged =
     foldl (\<lambda>cls ctxName.
         case ClientConfig env merged ctxName of
           Inl _ \<Rightarrow> cls
         | Inr rc \<Rightarrow>
             (case NewForConfig env rc of
                Inl _ \<Rightarrow> cls
              | Inr cs \<Rightarrow> cls(ctxName \<mapsto> \<lparr>clientset = cs, restConfig = rc\<rparr>)))
       Map.empty (ord (dom (Contexts merged)))"

definition rebuild ::
  "('o, 'rc, 'cs) clientgo \<Rightarrow> map_order \<Rightarrow> (goerr + 'o kubecfg) \<Rightarrow> ('o, 'rc, 'cs) clientManager \<Rightarrow>
   goerr option \<times> ('o, 'rc, 'cs) clientManager" where
  "rebuild env ord file cm =
     (case mergedConfig ord file cm of
        Inl err \<Rightarrow> (Some err, cm)
      | Inr merged \<Rightarrow>
          (None, cm\<lparr>clients := buildClients env ord merged, currentCtx := CurrentContext merged\<rparr>))"

definition NewClientManager ::
  "('o, 'rc, 'cs) clientgo \<Rightarrow> map_order \<Rightarrow> (goerr + 'o kubecfg) \<Rightarrow>
   goerr + ('o, 'rc, 'cs) clientManager" where
  "NewClientManager env ord file =
     (let cm = \<lparr>dynamicConfig = None, clients = Map.empty, currentCtx = ''''\<rparr> in
      case rebuild env ord file cm of
        (Some err, _) \<Rightarrow> Inl err
      | (None, cm') \<Rightarrow> Inr cm')"

definition clientForContext ::
  "('o, 'rc, 'cs) clientManager \<Rightarrow> string \<Rightarrow> ('rc, 'cs) contextClient option" where
  "clientForContext cm name = clients cm name"

definition CurrentContextName :: "('o, 'rc, 'cs) clientManager \<Rightarrow> string" where
  "CurrentContextName cm = currentCtx cm"

definition cm_AllContextNames :: "map_order \<Rightarrow> ('o, 'rc, 'cs) clientManager \<Rightarrow> string list" where
  "cm_AllContextNames ord cm = sort (foldl (\<lambda>names name. names @ [name]) [] (ord (dom (clients cm))))"

definition Kubeconfig :: "('o, 'rc, 'cs) clientManager \<Rightarrow> 'o kubecfg option" where
  "Kubeconfig cm = dynamicConfig cm"

definition MergedConfig ::
  "map_order \<Rightarrow> (goerr + 'o kubecfg) \<Rightarrow> ('o, 'rc, 'cs) clientManager \<Rightarrow> goerr + 'o kubecfg" where
  "MergedConfig ord file cm = mergedConfig ord file cm"

definition Reset ::
  "('o, 'rc, 'cs) clientgo \<Rightarrow> map_order \<Rightarrow> (goerr + 'o kubecfg) \<Rightarrow> 'o kubecfg option \<Rightarrow>
   ('o, 'rc, 'cs) clientManager \<Rightarrow> goerr option \<times> ('o, 'rc, 'cs) clientManager" where
  "Reset env ord file cfg cm = rebuild env ord file (cm\<lparr>dynamicConfig := cfg\<rparr>)"

definition clashes :: "map_order \<Rightarrow> string \<Rightarrow> (string \<rightharpoonup> 'v) \<Rightarrow> (string \<rightharpoonup> 'v) \<Rightarrow> string list" where
  "clashes ord kind parsed dyn =
     foldl (\<lambda>conflicts name. if dyn name \<noteq> None then conflicts @ [kind @ name] else conflicts)
       [] (ord (dom parsed))"

definition Add ::
  "('o, 'rc, 'cs) clientgo \<Rightarrow> map_order \<Rightarrow> (goerr + 'o kubecfg) \<Rightarrow> 'o kubecfg \<Rightarrow>
   ('o, 'rc, 'cs) clientManager \<Rightarrow> goerr option \<times> ('o, 'rc, 'cs) clientManager" where
  "Add env ord file parsed cm =
     (case dynamicConfig cm of
        Some dyn \<Rightarrow>
          (let conflicts = clashes ord ''cluster:'' (Clusters parsed) (Clusters dyn)
               @ clashes ord ''context:'' (Contexts parsed) (Contexts dyn)
               @ clashes ord ''user:'' (AuthInfos parsed) (AuthInfos dyn)
           in if 0 < length conflicts then (Some (ConflictError (sort conflicts)), cm)
              else rebuild env ord file
                (cm\<lparr>dynamicConfig := Some (mergeConfigs ord dyn parsed False)\<rparr>))
      | None \<Rightarrow> rebuild env ord file (cm\<lparr>dynamicConfig := Some parsed\<rparr>))"

definition MergeAndOverwrite ::
  "('o, 'rc, 'cs) clientgo \<Rightarrow> map_order \<Rightarrow> (goerr + 'o kubecfg) \<Rightarrow> 'o kubecfg \<Rightarrow>
   ('o, 'rc, 'cs) clientManager \<Rightarrow> goerr option \<times> ('o, 'rc, 'cs) clientManager" where
  "MergeAndOverwrite env ord file parsed cm =
     (let dyn = (case dynamicConfig cm of None \<Rightarrow> NewConfig env | Some d \<Rightarrow> d)
      in rebuild env ord file (cm\<lparr>dynamicConfig := Some (mergeConfigs ord dyn parsed True)\<rparr>))"

subsection \<open>What merging promises\<close>

text \<open>
  The abstract view of a config: what each kind of name means, the current context and the rest.
  Merging with overwriting lets the source win, merging without lets the destination win.
\<close>

definition finite_cfg :: "'o kubecfg \<Rightarrow> bool" where
  "finite_cfg c \<longleftrightarrow> finite (dom (Clusters c)) \<and> finite (dom (Contexts c)) \<and> finite (dom (AuthInfos c))"

definition merge_spec :: "'o kubecfg \<Rightarrow> 'o kubecfg \<Rightarrow> bool \<Rightarrow> 'o kubecfg" where
  "merge_spec dst src overwrite =
     \<lparr>Clusters = (if overwrite then Clusters dst ++ Clusters src else Clusters src ++ Clusters dst),
      Contexts = (if overwrite then Contexts dst ++ Contexts src else Contexts src ++ Contexts dst),
      AuthInfos = (if overwrite then AuthInfos dst ++ AuthInfos src else AuthInfos src ++ AuthInfos dst),
      CurrentContext =
        (if overwrite then if CurrentContext src = '''' then CurrentContext dst else CurrentContext src
         else if CurrentContext dst = '''' then CurrentContext src else CurrentContext dst),
      cfg_rest = cfg_rest dst\<rparr>"

lemma map_order_set: "map_order ord \<Longrightarrow> finite S \<Longrightarrow> set (ord S) = S"
  by (simp add: map_order_def)

lemma map_order_distinct: "map_order ord \<Longrightarrow> finite S \<Longrightarrow> distinct (ord S)"
  by (simp add: map_order_def)

lemma map_order_sorted: "map_order sorted_list_of_set"
  by (simp add: map_order_def)

lemma mergeMap_fold:
  "foldl (\<lambda>d name. case src name of None \<Rightarrow> d
       | Some v \<Rightarrow> if d name = None \<or> ow then d(name \<mapsto> v) else d) dst ks =
   (\<lambda>k. if k \<in> set ks \<and> src k \<noteq> None \<and> (dst k = None \<or> ow) then src k else dst k)"
  by (induction ks arbitrary: dst) (auto simp: fun_eq_iff split: option.splits)

lemma mergeMap_eq:
  assumes "map_order ord" "finite (dom src)"
  shows "mergeMap ord dst src ow = (if ow then dst ++ src else src ++ dst)"
  using map_order_set [OF assms]
  by (auto simp: mergeMap_def mergeMap_fold map_add_def fun_eq_iff split: option.splits)

lemma mergeConfigs_eq:
  assumes "map_order ord" "finite_cfg src"
  shows "mergeConfigs ord dst src ow = merge_spec dst src ow"
  using assms by (simp add: mergeConfigs_def merge_spec_def finite_cfg_def mergeMap_eq Let_def)

lemma finite_merge_spec: "finite_cfg dst \<Longrightarrow> finite_cfg src \<Longrightarrow> finite_cfg (merge_spec dst src ow)"
  by (simp add: finite_cfg_def merge_spec_def)

lemma set_clashes:
  assumes "map_order ord" "finite (dom parsed)"
  shows "set (clashes ord kind parsed dyn) = (@) kind ` (dom parsed \<inter> dom dyn)"
proof -
  have "foldl (\<lambda>cs name. if dyn name \<noteq> None then cs @ [kind @ name] else cs) acc ks =
      acc @ map ((@) kind) (filter (\<lambda>n. dyn n \<noteq> None) ks)" for acc ks
    by (induction ks arbitrary: acc) auto
  with map_order_set [OF assms] show ?thesis by (auto simp: clashes_def)
qed

text \<open>The clients of a config: one for every context that client-go can build one for.\<close>

definition client_of ::
  "('o, 'rc, 'cs) clientgo \<Rightarrow> 'o kubecfg \<Rightarrow> string \<rightharpoonup> ('rc, 'cs) contextClient" where
  "client_of env c name =
     (if Contexts c name = None then None
      else case ClientConfig env c name of
        Inl _ \<Rightarrow> None
      | Inr rc \<Rightarrow>
          (case NewForConfig env rc of Inl _ \<Rightarrow> None
           | Inr cs \<Rightarrow> Some \<lparr>clientset = cs, restConfig = rc\<rparr>))"

lemma buildClients_eq:
  assumes "map_order ord" "finite_cfg c"
  shows "buildClients env ord c = client_of env c"
proof -
  let ?f = "\<lambda>n. case ClientConfig env c n of Inl _ \<Rightarrow> None
      | Inr rc \<Rightarrow> (case NewForConfig env rc of Inl _ \<Rightarrow> None
           | Inr cs \<Rightarrow> Some \<lparr>clientset = cs, restConfig = rc\<rparr>)"
  have "foldl (\<lambda>cls n. case ClientConfig env c n of Inl _ \<Rightarrow> cls
      | Inr rc \<Rightarrow> (case NewForConfig env rc of Inl _ \<Rightarrow> cls
           | Inr cs \<Rightarrow> cls(n \<mapsto> \<lparr>clientset = cs, restConfig = rc\<rparr>))) m ks =
      (\<lambda>n. if n \<in> set ks \<and> ?f n \<noteq> None then ?f n else m n)" for m ks
    by (induction ks arbitrary: m) (auto simp: fun_eq_iff split: sum.splits)
  moreover have "set (ord (dom (Contexts c))) = dom (Contexts c)"
    using assms by (simp add: map_order_set finite_cfg_def)
  ultimately show ?thesis
    by (auto simp: buildClients_def client_of_def fun_eq_iff domIff split: sum.splits)
qed

definition merged_spec :: "'o kubecfg \<Rightarrow> 'o kubecfg option \<Rightarrow> 'o kubecfg" where
  "merged_spec raw dyn = (case dyn of None \<Rightarrow> raw | Some d \<Rightarrow> merge_spec raw d True)"

definition finite_dyn :: "'o kubecfg option \<Rightarrow> bool" where
  "finite_dyn d \<longleftrightarrow> (case d of None \<Rightarrow> True | Some c \<Rightarrow> finite_cfg c)"

definition finite_file :: "(goerr + 'o kubecfg) \<Rightarrow> bool" where
  "finite_file f \<longleftrightarrow> (case f of Inl _ \<Rightarrow> True | Inr c \<Rightarrow> finite_cfg c)"

definition synced ::
  "('o, 'rc, 'cs) clientgo \<Rightarrow> 'o kubecfg \<Rightarrow> ('o, 'rc, 'cs) clientManager \<Rightarrow> bool" where
  "synced env raw cm \<longleftrightarrow>
     clients cm = client_of env (merged_spec raw (dynamicConfig cm)) \<and>
     currentCtx cm = CurrentContext (merged_spec raw (dynamicConfig cm))"

lemma finite_dyn_simps [simp]: "finite_dyn None" "finite_dyn (Some c) \<longleftrightarrow> finite_cfg c"
  by (simp_all add: finite_dyn_def)

lemma finite_file_simps [simp]: "finite_file (Inl e)" "finite_file (Inr c) \<longleftrightarrow> finite_cfg c"
  by (simp_all add: finite_file_def)

lemma merged_spec_simps [simp]:
  "merged_spec raw None = raw" "merged_spec raw (Some d) = merge_spec raw d True"
  by (simp_all add: merged_spec_def)

lemma finite_merged_spec: "finite_cfg raw \<Longrightarrow> finite_dyn d \<Longrightarrow> finite_cfg (merged_spec raw d)"
  by (cases d) (simp_all add: finite_merge_spec)

lemma finite_NewConfig [simp]: "finite_cfg (NewConfig env)"
  by (simp add: NewConfig_def finite_cfg_def)

lemma mergedConfig_eq:
  assumes "map_order ord" "finite_dyn (dynamicConfig cm)"
  shows "mergedConfig ord file cm = map_sum id (\<lambda>raw. merged_spec raw (dynamicConfig cm)) file"
  using assms by (auto simp: mergedConfig_def mergeConfigs_eq split: sum.splits option.splits)

lemma rebuild_spec:
  assumes "map_order ord" "finite_dyn (dynamicConfig cm)" "finite_file file"
    and "rebuild env ord file cm = (r, cm')"
  shows "dynamicConfig cm' = dynamicConfig cm"
    "r = None \<longleftrightarrow> (\<exists>raw. file = Inr raw)"
    "file = Inl e \<Longrightarrow> r = Some e \<and> cm' = cm"
    "file = Inr raw \<Longrightarrow> synced env raw cm'"
proof -
  have m: "mergedConfig ord file cm = map_sum id (\<lambda>raw. merged_spec raw (dynamicConfig cm)) file"
    by (rule mergedConfig_eq [OF assms(1,2)])
  show "dynamicConfig cm' = dynamicConfig cm" "r = None \<longleftrightarrow> (\<exists>raw. file = Inr raw)"
    using assms(4) m by (cases "file"; force simp: rebuild_def)+
  show "r = Some e \<and> cm' = cm" if "file = Inl e"
    using assms(4) m that by (simp add: rebuild_def)
  show "synced env raw cm'" if "file = Inr raw"
  proof -
    have "finite_cfg (merged_spec raw (dynamicConfig cm))"
      using assms(2,3) that by (simp add: finite_merged_spec)
    with assms(4) m that buildClients_eq [OF assms(1) this, of env] show ?thesis
      by (auto simp: rebuild_def synced_def)
  qed
qed

definition share_names :: "'o kubecfg \<Rightarrow> 'o kubecfg \<Rightarrow> bool" where
  "share_names c d \<longleftrightarrow> dom (Clusters c) \<inter> dom (Clusters d) \<noteq> {} \<or>
     dom (Contexts c) \<inter> dom (Contexts d) \<noteq> {} \<or> dom (AuthInfos c) \<inter> dom (AuthInfos d) \<noteq> {}"

definition conflict_names :: "'o kubecfg \<Rightarrow> 'o kubecfg \<Rightarrow> string set" where
  "conflict_names c d = (@) ''cluster:'' ` (dom (Clusters c) \<inter> dom (Clusters d)) \<union>
     (@) ''context:'' ` (dom (Contexts c) \<inter> dom (Contexts d)) \<union>
     (@) ''user:'' ` (dom (AuthInfos c) \<inter> dom (AuthInfos d))"

lemma conflict_names_empty: "conflict_names c d = {} \<longleftrightarrow> \<not> share_names c d"
  by (auto simp: conflict_names_def share_names_def)

lemma Add_cases:
  assumes "map_order ord" "finite_cfg parsed" "finite_dyn (dynamicConfig cm)"
  shows "(\<exists>d ns. dynamicConfig cm = Some d \<and> share_names parsed d \<and> sorted ns \<and>
        set ns = conflict_names parsed d \<and>
        Add env ord file parsed cm = (Some (ConflictError ns), cm)) \<or>
    (\<forall>d. dynamicConfig cm = Some d \<longrightarrow> \<not> share_names parsed d) \<and>
      Add env ord file parsed cm = rebuild env ord file (cm\<lparr>dynamicConfig := Some
        (case dynamicConfig cm of None \<Rightarrow> parsed | Some d \<Rightarrow> merge_spec d parsed False)\<rparr>)"
proof (cases "dynamicConfig cm")
  case None
  then show ?thesis by (simp add: Add_def)
next
  case (Some d)
  let ?cs = "clashes ord ''cluster:'' (Clusters parsed) (Clusters d)
     @ clashes ord ''context:'' (Contexts parsed) (Contexts d)
     @ clashes ord ''user:'' (AuthInfos parsed) (AuthInfos d)"
  have set: "set ?cs = conflict_names parsed d"
    using assms(1,2) by (simp add: set_clashes conflict_names_def finite_cfg_def Un_assoc)
  show ?thesis
  proof (cases "?cs = []")
    case True
    with set conflict_names_empty [of parsed d] have "\<not> share_names parsed d"
      by (metis list.set(1))
    with True Some show ?thesis by (simp add: Add_def Let_def mergeConfigs_eq [OF assms(1,2)])
  next
    case False
    with set conflict_names_empty [of parsed d] have "share_names parsed d"
      by (metis set_empty)
    moreover have "Add env ord file parsed cm = (Some (ConflictError (sort ?cs)), cm)"
      using Some False by (simp add: Add_def Let_def)
    ultimately show ?thesis using Some set by (metis set_sort sorted_sort)
  qed
qed

subsection \<open>The contract of a store of configs\<close>

text \<open>
  \<open>effective c n\<close> is everything a tunnel through the context \<open>n\<close> depends on: the entry of the
  context, of its cluster and of its user.
\<close>

definition effective :: "'o kubecfg \<Rightarrow> string \<Rightarrow> ('o kcontext \<times> 'o option \<times> 'o option) option" where
  "effective c n = map_option (\<lambda>x. (x, Clusters c (Cluster x), AuthInfos c (AuthInfo x))) (Contexts c n)"

definition touches :: "'o kubecfg \<Rightarrow> 'o kubecfg \<Rightarrow> string \<Rightarrow> bool" where
  "touches p c n \<longleftrightarrow> n \<in> dom (Contexts p) \<or>
     (\<exists>x. Contexts c n = Some x \<and> (Cluster x \<in> dom (Clusters p) \<or> AuthInfo x \<in> dom (AuthInfos p)))"

lemma map_add_untouched:
  assumes "k \<notin> dom p"
  shows "(r ++ p) k = r k" "(r ++ d ++ p) k = (r ++ d) k" "(r ++ p ++ d) k = (r ++ d) k"
    "(p ++ r) k = r k"
  using assms by (auto simp: map_add_def domIff split: option.splits)

lemma effective_eqI:
  assumes "Contexts c' n = Contexts c n"
    and "\<And>x. Contexts c n = Some x \<Longrightarrow> Clusters c' (Cluster x) = Clusters c (Cluster x) \<and>
      AuthInfos c' (AuthInfo x) = AuthInfos c (AuthInfo x)"
  shows "effective c' n = effective c n"
  using assms by (cases "Contexts c n") (auto simp: effective_def)

lemma effective_merge:
  assumes "\<not> touches p (merged_spec raw d) n"
    and "d' = (case d of None \<Rightarrow> p | Some c \<Rightarrow> merge_spec c p ow)"
  shows "effective (merged_spec raw (Some d')) n = effective (merged_spec raw d) n"
proof (rule effective_eqI)
  show "Contexts (merged_spec raw (Some d')) n = Contexts (merged_spec raw d) n"
    using assms by (cases d) (simp_all add: touches_def merge_spec_def map_add_untouched)
  fix x assume "Contexts (merged_spec raw d) n = Some x"
  with assms(1) have "Cluster x \<notin> dom (Clusters p)" "AuthInfo x \<notin> dom (AuthInfos p)"
    by (auto simp: touches_def)
  with assms(2) show "Clusters (merged_spec raw (Some d')) (Cluster x) = Clusters (merged_spec raw d) (Cluster x) \<and>
      AuthInfos (merged_spec raw (Some d')) (AuthInfo x) = AuthInfos (merged_spec raw d) (AuthInfo x)"
    by (cases d) (simp_all add: merge_spec_def map_add_untouched)
qed

locale config_store =
  fixes dyn :: "'s \<Rightarrow> 'o kubecfg option"
    and merged :: "(goerr + 'o kubecfg) \<Rightarrow> 's \<Rightarrow> goerr + 'o kubecfg"
    and reset :: "(goerr + 'o kubecfg) \<Rightarrow> 'o kubecfg option \<Rightarrow> 's \<Rightarrow> goerr option \<times> 's"
    and add :: "(goerr + 'o kubecfg) \<Rightarrow> 'o kubecfg \<Rightarrow> 's \<Rightarrow> goerr option \<times> 's"
    and patch :: "(goerr + 'o kubecfg) \<Rightarrow> 'o kubecfg \<Rightarrow> 's \<Rightarrow> goerr option \<times> 's"
    and blankcfg :: "'o kubecfg"
  assumes merged_eq: "finite_dyn (dyn s) \<Longrightarrow>
      merged f s = map_sum id (\<lambda>raw. merged_spec raw (dyn s)) f"
    and blankcfg: "Clusters blankcfg = Map.empty" "Contexts blankcfg = Map.empty"
      "AuthInfos blankcfg = Map.empty" "CurrentContext blankcfg = ''''"
    and reset_dyn: "finite_file f \<Longrightarrow> finite_dyn c \<Longrightarrow> reset f c s = (r, s') \<Longrightarrow>
      dyn s' = c \<and> (r = None \<longleftrightarrow> \<not> isl f)"
    and add_dyn: "finite_file f \<Longrightarrow> finite_cfg p \<Longrightarrow> finite_dyn (dyn s) \<Longrightarrow> add f p s = (r, s') \<Longrightarrow>
      (if \<exists>d. dyn s = Some d \<and> share_names p d then s' = s \<and> (\<exists>ns. r = Some (ConflictError ns))
       else dyn s' = Some (case dyn s of None \<Rightarrow> p | Some d \<Rightarrow> merge_spec d p False) \<and>
         (r = None \<longleftrightarrow> \<not> isl f))"
    and patch_dyn: "finite_file f \<Longrightarrow> finite_cfg p \<Longrightarrow> finite_dyn (dyn s) \<Longrightarrow> patch f p s = (r, s') \<Longrightarrow>
      dyn s' = Some (merge_spec (case dyn s of None \<Rightarrow> blankcfg | Some d \<Rightarrow> d) p True) \<and>
      (r = None \<longleftrightarrow> \<not> isl f)"
begin

lemma finite_blankcfg: "finite_cfg blankcfg"
  by (simp add: finite_cfg_def blankcfg)

lemma effective_blankcfg:
  "effective (merged_spec raw (Some (merge_spec blankcfg p True))) = effective (merged_spec raw (Some p))"
  by (rule ext, rule effective_eqI) (simp_all add: merge_spec_def blankcfg)

lemma patch_effective:
  assumes "finite_cfg raw" "finite_cfg p" "finite_dyn (dyn s)" "patch (Inr raw) p s = (r, s')"
    and "\<not> touches p (merged_spec raw (dyn s)) n"
  shows "effective (merged_spec raw (dyn s')) n = effective (merged_spec raw (dyn s)) n"
  using patch_dyn [OF _ assms(2-4)] assms(1) effective_merge [OF assms(5) refl, of True]
  by (cases "dyn s") (simp_all only: effective_blankcfg finite_file_simps option.case simp_thms)

lemma add_effective:
  assumes "finite_cfg raw" "finite_cfg p" "finite_dyn (dyn s)" "add (Inr raw) p s = (None, s')"
    and "\<not> touches p (merged_spec raw (dyn s)) n"
  shows "effective (merged_spec raw (dyn s')) n = effective (merged_spec raw (dyn s)) n"
  using add_dyn [OF _ assms(2-4)] assms(1) effective_merge [OF assms(5) refl, of False]
  by (auto split: if_splits simp del: merged_spec_simps)

end

text \<open>The client manager is such a store, whatever the order of its map loops.\<close>

definition by_name :: map_order where
  "by_name S = sorted_list_of_set S"

lemma map_order_by_name [simp]: "map_order by_name"
  by (simp add: map_order_def by_name_def)

lemma cm_is_config_store:
  assumes "map_order ord"
  shows "config_store dynamicConfig (mergedConfig ord) (Reset env ord) (Add env ord)
    (MergeAndOverwrite env ord) (NewConfig env)"
proof (unfold_locales, goal_cases)
  case (1 s f)
  then show ?case by (rule mergedConfig_eq [OF assms])
next
  case (6 f c s r s')
  then show ?case
    using rebuild_spec(1,2) [OF assms _ 6(1), of "s\<lparr>dynamicConfig := c\<rparr>" env r s']
    by (cases f) (simp_all add: Reset_def)
next
  case (7 f p s r s')
  let ?d = "case dynamicConfig s of None \<Rightarrow> p | Some d \<Rightarrow> merge_spec d p False"
  have fin: "finite_dyn (dynamicConfig (s\<lparr>dynamicConfig := Some ?d\<rparr>))"
    using 7(2,3) finite_merge_spec [of _ p False] by (cases "dynamicConfig s") simp_all
  from Add_cases [OF assms 7(2,3), of env f] show ?case
  proof
    assume "(\<forall>d. dynamicConfig s = Some d \<longrightarrow> \<not> share_names p d) \<and>
      Add env ord f p s = rebuild env ord f (s\<lparr>dynamicConfig := Some ?d\<rparr>)"
    moreover from this 7(4) rebuild_spec(1,2) [OF assms fin 7(1)]
    have "dynamicConfig s' = Some ?d" "r = None \<longleftrightarrow> (\<exists>raw. f = Inr raw)" by (metis clientManager.select_convs(1)
        clientManager.surjective clientManager.update_convs(1))+
    ultimately show ?thesis by (cases f) auto
  qed (use 7(4) in auto)
next
  case (8 f p s r s')
  then show ?case
    using rebuild_spec(1,2) [OF assms _ 8(1), of "s\<lparr>dynamicConfig := Some (merge_spec
        (case dynamicConfig s of None \<Rightarrow> NewConfig env | Some d \<Rightarrow> d) p True)\<rparr>" env r s']
      finite_merge_spec [of _ p True]
    by (cases f; cases "dynamicConfig s")
      (simp_all add: MergeAndOverwrite_def mergeConfigs_eq [OF assms])
qed (simp_all add: NewConfig_def)

interpretation cms: config_store dynamicConfig "mergedConfig by_name" "Reset env by_name"
  "Add env by_name" "MergeAndOverwrite env by_name" "NewConfig env" for env
  by (rule cm_is_config_store) simp

subsection \<open>Properties\<close>

datatype 'o cm_op = OpReset "'o kubecfg option" | OpAdd "'o kubecfg" | OpMerge "'o kubecfg"

fun finite_op :: "'o cm_op \<Rightarrow> bool" where
  "finite_op (OpReset c) = finite_dyn c"
| "finite_op (OpAdd c) = finite_cfg c"
| "finite_op (OpMerge c) = finite_cfg c"

fun cm_apply ::
  "('o, 'rc, 'cs) clientgo \<Rightarrow> map_order \<Rightarrow> (goerr + 'o kubecfg) \<Rightarrow> 'o cm_op \<Rightarrow>
   ('o, 'rc, 'cs) clientManager \<Rightarrow> goerr option \<times> ('o, 'rc, 'cs) clientManager" where
  "cm_apply env ord f (OpReset c) cm = Reset env ord f c cm"
| "cm_apply env ord f (OpAdd c) cm = Add env ord f c cm"
| "cm_apply env ord f (OpMerge c) cm = MergeAndOverwrite env ord f c cm"

lemma cm_apply_cases:
  assumes "map_order ord" "finite_op op" "finite_dyn (dynamicConfig cm)"
  shows "(\<exists>ns. cm_apply env ord f op cm = (Some (ConflictError ns), cm)) \<or>
    (\<exists>d. finite_dyn d \<and> cm_apply env ord f op cm = rebuild env ord f (cm\<lparr>dynamicConfig := d\<rparr>))"
proof (cases op)
  case (OpReset c)
  with assms(2) show ?thesis by (auto simp: Reset_def)
next
  case (OpAdd p)
  with assms(2) have p: "finite_cfg p" by simp
  have "finite_dyn (Some (case dynamicConfig cm of None \<Rightarrow> p | Some d \<Rightarrow> merge_spec d p False))"
    using assms(3) p by (cases "dynamicConfig cm") (simp_all add: finite_merge_spec)
  with Add_cases [OF assms(1) p assms(3), of env f] OpAdd show ?thesis by (metis cm_apply.simps(2))
next
  case (OpMerge p)
  then have "finite_dyn (Some (merge_spec (case dynamicConfig cm of None \<Rightarrow> NewConfig env | Some d \<Rightarrow> d) p True))"
    using assms(2,3) by (cases "dynamicConfig cm") (simp_all add: finite_merge_spec)
  moreover have "cm_apply env ord f op cm = rebuild env ord f (cm\<lparr>dynamicConfig := Some
      (merge_spec (case dynamicConfig cm of None \<Rightarrow> NewConfig env | Some d \<Rightarrow> d) p True)\<rparr>)"
    using OpMerge assms(1,2) by (simp add: MergeAndOverwrite_def mergeConfigs_eq)
  ultimately show ?thesis by metis
qed

definition demo_env :: "(nat, string, string) clientgo" where
  "demo_env = \<lparr>ClientConfig = (\<lambda>c n. if Contexts c n = None then Inl (Errorf ''no context'') else Inr n),
     NewForConfig = Inr, noPreferences = 0\<rparr>"

definition demo_cfg :: "string \<Rightarrow> nat \<Rightarrow> nat kubecfg" where
  "demo_cfg n v = \<lparr>Clusters = [n \<mapsto> v], Contexts = [n \<mapsto> \<lparr>Cluster = n, AuthInfo = n, ctx_rest = 0\<rparr>],
     AuthInfos = [n \<mapsto> 0], CurrentContext = n, cfg_rest = 0\<rparr>"

lemma finite_demo [simp]: "finite_cfg (demo_cfg n v)"
  by (simp add: demo_cfg_def finite_cfg_def)

definition demo_cm :: "(nat, string, string) clientManager" where
  "demo_cm = \<lparr>dynamicConfig = None, clients = Map.empty, currentCtx = ''''\<rparr>"

text \<open>
  C30: mergeConfigs, three loops over Go maps whose order is unspecified, computes the merge the
  comment describes: with overwrite the source's entries win, without it the destination's do;
  the source's current context is taken when it is set and (overwrite or the destination has
  none). The result does not depend on the order of the loops.
\<close>

theorem mergeConfigs_refines:
  assumes "map_order ord" "finite_cfg src"
  shows "mergeConfigs ord dst src overwrite = merge_spec dst src overwrite"
  by (rule mergeConfigs_eq [OF assms])

theorem mergeConfigs_refines_witness:
  "CurrentContext (mergeConfigs by_name (demo_cfg ''east'' 1) (demo_cfg ''west'' 2) False) = ''east'' \<and>
   Clusters (mergeConfigs by_name (demo_cfg ''east'' 1) (demo_cfg ''west'' 2) False) ''west'' = Some 2"
  by (simp add: mergeConfigs_refines merge_spec_def) (simp add: demo_cfg_def)

text \<open>
  C15: the clients follow the config. An update of the client manager (Reset, Add or
  MergeAndOverwrite) that reports no error leaves exactly one client for every context of the
  merged config that client-go can build, and the merged config's current context. One that
  fails leaves the clients and the current context as they were; it fails only because the
  kubeconfig files cannot be read, or with a conflict that changes nothing at all.
\<close>

theorem update_synced:
  assumes "map_order ord" "finite_op op" "finite_dyn (dynamicConfig cm)" "finite_file f"
    and "cm_apply env ord f op cm = (r, cm')"
  shows "finite_dyn (dynamicConfig cm') \<and>
    (r = None \<longrightarrow> (\<exists>raw. f = Inr raw \<and> synced env raw cm')) \<and>
    (\<forall>e. r = Some e \<longrightarrow> clients cm' = clients cm \<and> currentCtx cm' = currentCtx cm \<and>
       (f = Inl e \<or> cm' = cm \<and> errors_As_ConflictError e \<noteq> None))"
  using cm_apply_cases [OF assms(1-3), of env f]
proof
  assume "\<exists>d. finite_dyn d \<and> cm_apply env ord f op cm = rebuild env ord f (cm\<lparr>dynamicConfig := d\<rparr>)"
  then obtain d where d: "finite_dyn (dynamicConfig (cm\<lparr>dynamicConfig := d\<rparr>))"
    "rebuild env ord f (cm\<lparr>dynamicConfig := d\<rparr>) = (r, cm')" using assms(5) by auto
  show ?thesis using rebuild_spec [OF assms(1) d(1) assms(4) d(2)] d(1) by (cases f) auto
qed (use assms in auto)

theorem update_synced_witness:
  "\<exists>cm'. cm_apply demo_env by_name (Inr (demo_cfg ''east'' 1)) (OpMerge (demo_cfg ''west'' 2)) demo_cm =
     (None, cm') \<and> synced demo_env (demo_cfg ''east'' 1) cm'"
proof -
  have "finite_op (OpMerge (demo_cfg ''west'' 2))" "finite_dyn (dynamicConfig demo_cm)"
    "finite_file (Inr (demo_cfg ''east'' 1))" by (simp_all add: demo_cm_def)
  moreover obtain cm' where run: "cm_apply demo_env by_name (Inr (demo_cfg ''east'' 1))
      (OpMerge (demo_cfg ''west'' 2)) demo_cm = (None, cm')"
    by (auto simp: demo_cm_def rebuild_def mergedConfig_def MergeAndOverwrite_def Let_def)
  ultimately show ?thesis using update_synced [OF map_order_by_name _ _ _ run] by auto
qed

text \<open>
  C29: POST adds or refuses. Add answers a ConflictError exactly when a cluster, context or user
  name of the new config is already in the dynamic config; the error lists exactly these names,
  each with its kind, sorted, and the manager is unchanged. Otherwise every entry of the dynamic
  config is kept and every entry of the new config is added.
\<close>

definition config_sub :: "'o kubecfg \<Rightarrow> 'o kubecfg \<Rightarrow> bool" where
  "config_sub c d \<longleftrightarrow> Clusters c \<subseteq>\<^sub>m Clusters d \<and> Contexts c \<subseteq>\<^sub>m Contexts d \<and> AuthInfos c \<subseteq>\<^sub>m AuthInfos d"

theorem add_conflict_iff:
  assumes "map_order ord" "finite_cfg p" "finite_dyn (dynamicConfig cm)"
    and "Add env ord f p cm = (r, cm')" "finite_file f"
  shows "if \<exists>d. dynamicConfig cm = Some d \<and> share_names p d
    then cm' = cm \<and> (\<exists>ns. r = Some (ConflictError ns) \<and> sorted ns \<and>
      set ns = conflict_names p (the (dynamicConfig cm)))
    else (\<exists>d'. dynamicConfig cm' = Some d' \<and> config_sub p d' \<and>
      (\<forall>d. dynamicConfig cm = Some d \<longrightarrow> config_sub d d'))"
proof (cases "\<exists>d. dynamicConfig cm = Some d \<and> share_names p d")
  case True
  with Add_cases [OF assms(1-3), of env f] assms(4) show ?thesis by auto
next
  case False
  let ?d = "case dynamicConfig cm of None \<Rightarrow> p | Some d \<Rightarrow> merge_spec d p False"
  have "dynamicConfig cm' = Some ?d"
    using config_store.add_dyn [OF cm_is_config_store [OF assms(1)] assms(5,2,3,4)] False by simp
  moreover have "config_sub p ?d"
  proof (cases "dynamicConfig cm")
    case (Some d)
    with False have "dom (Clusters p) \<inter> dom (Clusters d) = {}" "dom (Contexts p) \<inter> dom (Contexts d) = {}"
      "dom (AuthInfos p) \<inter> dom (AuthInfos d) = {}" by (auto simp: share_names_def)
    with Some show ?thesis
      by (simp add: config_sub_def merge_spec_def) (simp add: map_add_comm)
  qed (simp add: config_sub_def)
  moreover have "config_sub d ?d" if "dynamicConfig cm = Some d" for d
    using that by (simp add: config_sub_def merge_spec_def)
  ultimately show ?thesis using False by auto
qed

theorem add_conflict_iff_witness:
  "\<exists>ns cm'. Add demo_env by_name (Inr (demo_cfg ''east'' 1)) (demo_cfg ''west'' 3)
       (demo_cm\<lparr>dynamicConfig := Some (demo_cfg ''west'' 2)\<rparr>) = (Some (ConflictError ns), cm') \<and>
     set ns = {''cluster:west'', ''context:west'', ''user:west''}"
proof -
  let ?cm = "demo_cm\<lparr>dynamicConfig := Some (demo_cfg ''west'' 2)\<rparr>"
  obtain r cm' where A: "Add demo_env by_name (Inr (demo_cfg ''east'' 1)) (demo_cfg ''west'' 3) ?cm = (r, cm')"
    by fastforce
  have "share_names (demo_cfg ''west'' 3) (demo_cfg ''west'' 2)" by (simp add: share_names_def demo_cfg_def)
  moreover have "conflict_names (demo_cfg ''west'' 3) (demo_cfg ''west'' 2) =
      {''cluster:west'', ''context:west'', ''user:west''}"
    by (auto simp: conflict_names_def demo_cfg_def)
  ultimately show ?thesis using add_conflict_iff [OF map_order_by_name _ _ A] A by auto
qed

text \<open>
  AllContextNames, a loop over a map followed by a sort, returns every context that has a
  client, once each and in order: the search order of names without a context suffix is
  deterministic.
\<close>

lemma all_context_names:
  assumes "map_order ord" "finite (dom (clients cm))"
  shows "sorted (cm_AllContextNames ord cm) \<and> distinct (cm_AllContextNames ord cm) \<and>
    set (cm_AllContextNames ord cm) = dom (clients cm)"
proof -
  have "foldl (\<lambda>names name. names @ [name]) acc ks = acc @ ks" for acc ks :: "string list"
    by (induction ks arbitrary: acc) simp_all
  then show ?thesis
    using assms by (simp add: cm_AllContextNames_def map_order_set map_order_distinct)
qed

end
