(* ===== verification/Resolver.thy ===== *)
theory Resolver
  imports Client_Manager
begin

text \<open>
  Resolving a service to its pods and ports (\<^verbatim>\<open>internal/k8s/resolver.go\<close>), with a cache whose
  entries live for a fixed time. The client manager is shared with the /kubeconfig handler, so
  it is an argument of the operations that read it (\<open>None\<close> is the nil manager of a resolver
  made for tests); the Kubernetes API is the parameter \<open>api\<close>; instants are integers
  (nanoseconds), \<open>now\<close> is the clock when the cache is read and \<open>now'\<close> when it is written.

  \<open>cache_ok\<close> is the invariant that no cached service is without endpoints, from which it
  follows that picking an endpoint never panics.
\<close>

record endpoint =
  PodName :: string
  ep_Namespace :: string
  ep_IP :: string

record servicePort =
  sp_Name :: string
  Port :: int32
  TargetPort :: int32
  Protocol :: string

record resolvedService =
  Endpoints :: "endpoint list"
  Ports :: "servicePort list"
  CachedAt :: int

record resolver =
  testContextNames :: "string list option"
  cache :: "string \<rightharpoonup> resolvedService"
  cacheTTL :: int

text \<open>The objects of the Kubernetes API that the resolver reads.\<close>

record intOrString =
  IntVal :: int32
  StrVal :: string

record apiPort =
  api_Name :: string
  api_Port :: int32
  api_TargetPort :: intOrString
  api_Protocol :: string

record apiEndpoint =
  Ready :: "bool option"
  TargetRef :: "string option"
  Addresses :: "string list"

record 'cs kubeapi =
  Services_Get :: "'cs \<Rightarrow> string \<Rightarrow> string \<Rightarrow> goerr + apiPort list"
  EndpointSlices_List :: "'cs \<Rightarrow> string \<Rightarrow> string \<Rightarrow> goerr + apiEndpoint list list"

definition NewResolverForTest :: "string list option \<Rightarrow> resolver" where
  "NewResolverForTest contextNames =
     \<lparr>testContextNames = contextNames, cache = Map.empty, cacheTTL = 24 * 3600 * 1000000000\<rparr>"

definition NewResolver :: "int \<Rightarrow> resolver" where
  "NewResolver ttl = \<lparr>testContextNames = None, cache = Map.empty, cacheTTL = ttl\<rparr>"

definition cacheKey :: "string \<Rightarrow> string \<Rightarrow> string \<Rightarrow> string" where
  "cacheKey contextName namespace serviceName = contextName @ ''/'' @ namespace @ ''/'' @ serviceName"

primrec findPod :: "string \<Rightarrow> endpoint list \<Rightarrow> endpoint option" where
  "findPod podName [] = None"
| "findPod podName (ep # eps) = (if PodName ep = podName then Some ep else findPod podName eps)"

definition filterByPod ::
  "resolvedService \<Rightarrow> string \<Rightarrow> string \<Rightarrow> string \<Rightarrow> goerr + resolvedService" where
  "filterByPod resolved namespace serviceName podName =
     (if podName = '''' then Inr resolved
      else case findPod podName (Endpoints resolved) of
        Some ep \<Rightarrow> Inr \<lparr>Endpoints = [ep], Ports = Ports resolved, CachedAt = CachedAt resolved\<rparr>
      | None \<Rightarrow> Inl (Errorf (''pod '' @ podName @ '' not found in endpoints for service '' @
          namespace @ ''/'' @ serviceName)))"

definition portsOf :: "apiPort list \<Rightarrow> servicePort list" where
  "portsOf ps = foldl (\<lambda>ports p. ports @ [\<lparr>sp_Name = api_Name p, Port = api_Port p,
     TargetPort = IntVal (api_TargetPort p), Protocol = api_Protocol p\<rparr>]) [] ps"

definition endpointsOf :: "string \<Rightarrow> apiEndpoint \<Rightarrow> endpoint list" where
  "endpointsOf namespace ep =
     (case Ready ep of
        Some False \<Rightarrow> []
      | _ \<Rightarrow>
          (let epPodName = (case TargetRef ep of None \<Rightarrow> '''' | Some n \<Rightarrow> n)
           in map (\<lambda>addr. \<lparr>PodName = epPodName, ep_Namespace = namespace, ep_IP = addr\<rparr>) (Addresses ep)))"

definition fetch ::
  "'cs kubeapi \<Rightarrow> 'cs \<Rightarrow> string \<Rightarrow> string \<Rightarrow> int \<Rightarrow> goerr + resolvedService" where
  "fetch api cs namespace serviceName now' =
     (case Services_Get api cs namespace serviceName of
        Inl e \<Rightarrow> Inl (Wrapf (''getting service '' @ namespace @ ''/'' @ serviceName) e)
      | Inr svc \<Rightarrow>
        (case EndpointSlices_List api cs namespace (''kubernetes.io/service-name='' @ serviceName) of
           Inl e \<Rightarrow> Inl (Wrapf (''getting endpoint slices for '' @ namespace @ ''/'' @ serviceName) e)
         | Inr items \<Rightarrow>
             (let endpoints = concat (map (\<lambda>slice. concat (map (endpointsOf namespace) slice)) items)
              in if length endpoints = 0
                 then Inl (Errorf (''no ready endpoints for service '' @ namespace @ ''/'' @ serviceName))
                 else Inr \<lparr>Endpoints = endpoints, Ports = portsOf svc, CachedAt = now'\<rparr>)))"

definition contextOrCurrent :: "('o, 'rc, 'cs) clientManager option \<Rightarrow> string \<Rightarrow> string" where
  "contextOrCurrent mgr contextName =
     (if contextName = '''' then
        (case mgr of None \<Rightarrow> contextName | Some cm \<Rightarrow> CurrentContextName cm)
      else contextName)"

definition Resolve ::
  "'cs kubeapi \<Rightarrow> int \<Rightarrow> int \<Rightarrow> ('o, 'rc, 'cs) clientManager option \<Rightarrow> resolver \<Rightarrow>
   string \<Rightarrow> string \<Rightarrow> string \<Rightarrow> string \<Rightarrow> (goerr + resolvedService) \<times> resolver" where
  "Resolve api now now' mgr r ctx namespace serviceName podName =
     (let contextName = contextOrCurrent mgr ctx;
          key = cacheKey contextName namespace serviceName
      in case (case cache r key of
            None \<Rightarrow> None
          | Some c \<Rightarrow> if now - CachedAt c < cacheTTL r then Some c else None) of
        Some cached \<Rightarrow> (filterByPod cached namespace serviceName podName, r)
      | None \<Rightarrow>
        (case mgr of
           None \<Rightarrow> (Inl (Errorf (''no live client: service '' @ namespace @ ''/'' @ serviceName @
             '' not in test cache'')), r)
         | Some cm \<Rightarrow>
           (case clientForContext cm contextName of
              None \<Rightarrow> (Inl (Errorf (''unknown kubeconfig context \"'' @ contextName @ ''\"'')), r)
            | Some cc \<Rightarrow>
              (case fetch api (clientset cc) namespace serviceName now' of
                 Inl e \<Rightarrow> (Inl e, r)
               | Inr resolved \<Rightarrow>
                   (filterByPod resolved namespace serviceName podName,
                    r\<lparr>cache := (cache r)(key \<mapsto> resolved)\<rparr>)))))"

text \<open>
  \<^verbatim>\<open>rand.Intn(n)\<close> is the argument \<open>intn\<close>; indexing out of range panics, which is \<open>None\<close>
  (as does \<^verbatim>\<open>rand.Intn(0)\<close> itself).
\<close>

definition PickEndpoint :: "(nat \<Rightarrow> nat) \<Rightarrow> resolvedService \<Rightarrow> endpoint option" where
  "PickEndpoint intn resolved =
     (if length (Endpoints resolved) = 0 then None
      else let i = intn (length (Endpoints resolved))
           in if i < length (Endpoints resolved) then Some (Endpoints resolved ! i) else None)"

primrec findPortIn :: "int32 \<Rightarrow> servicePort list \<Rightarrow> goerr + int32" where
  "findPortIn servicePort [] =
     Inl (Errorf (''port '' @ dec_int (sint servicePort) @ '' not found in service''))"
| "findPortIn servicePort (p # ps) =
     (if Port p = servicePort then if TargetPort p \<noteq> 0 then Inr (TargetPort p) else Inr (Port p)
      else findPortIn servicePort ps)"

definition FindPort :: "resolvedService \<Rightarrow> int32 \<Rightarrow> goerr + int32" where
  "FindPort resolved servicePort = findPortIn servicePort (Ports resolved)"

definition AllContextNames ::
  "map_order \<Rightarrow> ('o, 'rc, 'cs) clientManager \<Rightarrow> resolver \<Rightarrow> string list" where
  "AllContextNames ord cm r =
     (case testContextNames r of Some ns \<Rightarrow> ns | None \<Rightarrow> cm_AllContextNames ord cm)"

definition Seed :: "string \<Rightarrow> string \<Rightarrow> string \<Rightarrow> resolvedService \<Rightarrow> resolver \<Rightarrow> resolver" where
  "Seed contextName namespace serviceName svc r =
     r\<lparr>cache := (cache r)(cacheKey contextName namespace serviceName \<mapsto> svc)\<rparr>"

definition Invalidate ::
  "('o, 'rc, 'cs) clientManager \<Rightarrow> string \<Rightarrow> string \<Rightarrow> string \<Rightarrow> resolver \<Rightarrow> resolver" where
  "Invalidate cm ctx namespace serviceName r =
     (let contextName = (if ctx = '''' then CurrentContextName cm else ctx)
      in r\<lparr>cache := (cache r)(cacheKey contextName namespace serviceName := None)\<rparr>)"

subsection \<open>Lemmas\<close>

definition cache_ok :: "resolver \<Rightarrow> bool" where
  "cache_ok r \<longleftrightarrow> (\<forall>k c. cache r k = Some c \<longrightarrow> Endpoints c \<noteq> [])"

lemma findPod_Some: "findPod p eps = Some ep \<Longrightarrow> ep \<in> set eps \<and> PodName ep = p"
  by (induction eps) (auto split: if_splits)

lemma findPod_None: "findPod p eps = None \<longleftrightarrow> (\<forall>ep \<in> set eps. PodName ep \<noteq> p)"
  by (induction eps) auto

lemma filterByPod_ok:
  assumes "filterByPod s ns svc pod = Inr s'"
  shows "set (Endpoints s') \<subseteq> set (Endpoints s)" "Ports s' = Ports s" "CachedAt s' = CachedAt s"
    "Endpoints s \<noteq> [] \<Longrightarrow> Endpoints s' \<noteq> []"
    "pod \<noteq> '''' \<Longrightarrow> \<exists>ep. Endpoints s' = [ep] \<and> PodName ep = pod"
  using assms findPod_Some by (auto simp: filterByPod_def split: if_splits option.splits)

lemma filterByPod_all [simp]: "filterByPod s ns svc '''' = Inr s"
  by (simp add: filterByPod_def)

lemma filterByPod_err:
  "filterByPod s ns svc pod = Inl e \<longleftrightarrow>
     pod \<noteq> '''' \<and> (\<forall>ep \<in> set (Endpoints s). PodName ep \<noteq> pod) \<and>
     e = Errorf (''pod '' @ pod @ '' not found in endpoints for service '' @ ns @ ''/'' @ svc)"
  by (auto simp: filterByPod_def findPod_None [symmetric] split: if_splits option.splits)

lemma portsOf_eq: "portsOf ps = map (\<lambda>p. \<lparr>sp_Name = api_Name p, Port = api_Port p,
     TargetPort = IntVal (api_TargetPort p), Protocol = api_Protocol p\<rparr>) ps"
proof -
  have "foldl (\<lambda>acc p. acc @ [f p]) acc ps = acc @ map f ps" for f :: "apiPort \<Rightarrow> servicePort" and acc
    by (induction ps arbitrary: acc) simp_all
  then show ?thesis by (simp add: portsOf_def)
qed

lemma set_endpointsOf:
  "set (endpointsOf ns ep) = {e. Ready ep \<noteq> Some False \<and> ep_Namespace e = ns \<and>
     PodName e = (case TargetRef ep of None \<Rightarrow> '''' | Some n \<Rightarrow> n) \<and> ep_IP e \<in> set (Addresses ep)}"
proof -
  have "e \<in> (\<lambda>a. \<lparr>PodName = p, ep_Namespace = ns, ep_IP = a\<rparr>) ` A \<longleftrightarrow>
      PodName e = p \<and> ep_Namespace e = ns \<and> ep_IP e \<in> A" for e p A
    by (cases e) auto
  then show ?thesis
    by (auto simp: endpointsOf_def Let_def split: option.splits bool.splits)
qed

lemma fetch_ok:
  assumes "fetch api cs ns svc now' = Inr s"
  obtains ps items where "Services_Get api cs ns svc = Inr ps"
    "EndpointSlices_List api cs ns (''kubernetes.io/service-name='' @ svc) = Inr items"
    "Endpoints s \<noteq> []" "Ports s = portsOf ps" "CachedAt s = now'"
    "set (Endpoints s) = (\<Union>slice \<in> set items. \<Union>ep \<in> set slice. set (endpointsOf ns ep))"
proof -
  from assms obtain ps items where *: "Services_Get api cs ns svc = Inr ps"
    "EndpointSlices_List api cs ns (''kubernetes.io/service-name='' @ svc) = Inr items"
    "s = \<lparr>Endpoints = concat (map (\<lambda>slice. concat (map (endpointsOf ns) slice)) items),
       Ports = portsOf ps, CachedAt = now'\<rparr>"
    "concat (map (\<lambda>slice. concat (map (endpointsOf ns) slice)) items) \<noteq> []"
    unfolding fetch_def Let_def length_0_conv by (auto split: sum.splits if_splits simp del: concat_eq_Nil_conv)
  show thesis by (rule that [OF *(1,2)]) (use *(3,4) in simp_all)
qed

lemma fetch_nonempty: "fetch api cs ns svc now' = Inr s \<Longrightarrow> Endpoints s \<noteq> []"
  by (erule fetch_ok)

lemma Resolve_cases:
  assumes "Resolve api now now' mgr r ctx ns svc pod = (res, r')"
  defines "key \<equiv> cacheKey (contextOrCurrent mgr ctx) ns svc"
  shows "(\<exists>c. cache r key = Some c \<and> now - CachedAt c < cacheTTL r \<and> r' = r \<and>
        res = filterByPod c ns svc pod) \<or>
    (\<exists>cm cc s. mgr = Some cm \<and> clientForContext cm (contextOrCurrent mgr ctx) = Some cc \<and>
        fetch api (clientset cc) ns svc now' = Inr s \<and> res = filterByPod s ns svc pod \<and>
        r' = r\<lparr>cache := (cache r)(key \<mapsto> s)\<rparr>) \<or>
    (\<exists>e. res = Inl e \<and> r' = r)"
proof (cases "\<exists>c. cache r key = Some c \<and> now - CachedAt c < cacheTTL r")
  case True
  then show ?thesis using assms by (auto simp: Resolve_def Let_def)
next
  case False
  then have miss: "(case cache r key of None \<Rightarrow> None
      | Some c \<Rightarrow> if now - CachedAt c < cacheTTL r then Some c else None) = None"
    by (auto split: option.splits)
  show ?thesis
  proof (cases mgr)
    case None
    with assms(1) miss show ?thesis by (auto simp: Resolve_def Let_def key_def)
  next
    case (Some cm)
    note run = assms(1) [unfolded Resolve_def Let_def key_def [symmetric] miss, simplified, unfolded Some, simplified]
    show ?thesis
    proof (cases "clientForContext cm (contextOrCurrent mgr ctx)")
      case None
      with run Some show ?thesis by auto
    next
      case (Some cc)
      note cc = this
      show ?thesis
      proof (cases "fetch api (clientset cc) ns svc now'")
        case (Inl e)
        with run cc \<open>mgr = Some cm\<close> have "res = Inl e" "r' = r" by simp_all
        then show ?thesis by blast
      next
        case (Inr s)
        with run cc \<open>mgr = Some cm\<close> show ?thesis by (auto simp: key_def)
      qed
    qed
  qed
qed

lemma cache_ok_Resolve [keeps]:
  assumes "cache_ok r" "Resolve api now now' mgr r ctx ns svc pod = (res, r')"
  shows "cache_ok r'"
  using Resolve_cases [OF assms(2)] assms(1) by (auto simp: cache_ok_def dest: fetch_nonempty split: if_splits)

lemma cache_ok_new [keeps]: "cache_ok (NewResolver ttl)" "cache_ok (NewResolverForTest ns)"
  by (simp_all add: cache_ok_def NewResolver_def NewResolverForTest_def)

lemma cache_ok_Invalidate [keeps]: "cache_ok r \<Longrightarrow> cache_ok (Invalidate cm ctx ns svc r)"
  by (simp add: cache_ok_def Invalidate_def Let_def)

lemma cache_ok_Seed [keeps]: "cache_ok r \<Longrightarrow> Endpoints s \<noteq> [] \<Longrightarrow> cache_ok (Seed ctx ns svc s r)"
  by (simp add: cache_ok_def Seed_def)

lemma Resolve_endpoints:
  assumes "cache_ok r" "Resolve api now now' mgr r ctx ns svc pod = (Inr s, r')"
  shows "Endpoints s \<noteq> []"
  using Resolve_cases [OF assms(2)] assms(1) fetch_nonempty filterByPod_ok(4)
  unfolding cache_ok_def by (metis Inl_Inr_False)

lemma cacheKey_inj:
  assumes "CHR ''/'' \<notin> set ns" "CHR ''/'' \<notin> set svc" "CHR ''/'' \<notin> set ns'" "CHR ''/'' \<notin> set svc'"
  shows "cacheKey ctx ns svc = cacheKey ctx' ns' svc' \<longleftrightarrow> ctx = ctx' \<and> ns = ns' \<and> svc = svc'"
proof -
  have split: "p @ ''/'' @ s = p' @ ''/'' @ s' \<longleftrightarrow> p = p' \<and> s = s'"
    if "CHR ''/'' \<notin> set s" "CHR ''/'' \<notin> set s'" for p p' s s' :: string
    using that by (auto simp: append_eq_append_conv2 Cons_eq_append_conv append_eq_Cons_conv)
  have "cacheKey ctx ns svc = cacheKey ctx' ns' svc' \<longleftrightarrow> ctx @ ''/'' @ ns = ctx' @ ''/'' @ ns' \<and> svc = svc'"
    using split [OF assms(2,4), of "ctx @ ''/'' @ ns" "ctx' @ ''/'' @ ns'"] by (simp add: cacheKey_def)
  with split [OF assms(1,3)] show ?thesis by auto
qed

subsection \<open>Properties\<close>

datatype ('o, 'rc, 'cs) res_op =
    OpResolve int int "('o, 'rc, 'cs) clientManager option" string string string string
  | OpInvalidate "('o, 'rc, 'cs) clientManager" string string string

fun res_run :: "'cs kubeapi \<Rightarrow> ('o, 'rc, 'cs) res_op list \<Rightarrow> resolver \<Rightarrow> resolver" where
  "res_run api [] r = r"
| "res_run api (OpResolve now now' mgr ctx ns svc pod # ops) r =
     res_run api ops (snd (Resolve api now now' mgr r ctx ns svc pod))"
| "res_run api (OpInvalidate cm ctx ns svc # ops) r = res_run api ops (Invalidate cm ctx ns svc r)"

lemma cache_ok_run: "cache_ok r \<Longrightarrow> cache_ok (res_run api ops r)"
  by (induction api ops r rule: res_run.induct)
    (simp_all add: keeps cache_ok_Resolve [OF _ surjective_pairing])

lemma pick_endpoint_ok:
  assumes "cache_ok r" "Resolve api now now' mgr r ctx ns svc pod = (Inr s, r')"
    and "\<And>n. 0 < n \<Longrightarrow> intn n < n"
  shows "\<exists>ep. PickEndpoint intn s = Some ep \<and> ep \<in> set (Endpoints s) \<and>
    (pod \<noteq> '''' \<longrightarrow> Endpoints s = [ep] \<and> PodName ep = pod)"
proof -
  have ne: "Endpoints s \<noteq> []" by (rule Resolve_endpoints [OF assms(1,2)])
  have "\<exists>c. filterByPod c ns svc pod = Inr s" using Resolve_cases [OF assms(2)] by (metis Inl_Inr_False)
  then have "pod \<noteq> '''' \<longrightarrow> (\<exists>ep. Endpoints s = [ep] \<and> PodName ep = pod)"
    using filterByPod_ok(5) by blast
  moreover have "intn (length (Endpoints s)) < length (Endpoints s)" using assms(3) ne by simp
  ultimately show ?thesis using ne by (auto simp: PickEndpoint_def Let_def)
qed

text \<open>
  After any sequence of Resolve and Invalidate calls on a new resolver, a Resolve that
  succeeds returns at least one endpoint, so PickEndpoint neither divides by zero nor indexes out
  of range, and it returns one of these endpoints. When a pod was asked for, it is that pod.
\<close>

lemma pick_endpoint_safe:
  assumes "Resolve api now now' mgr (res_run api ops (NewResolver ttl)) ctx ns svc pod = (Inr s, r')"
    and "\<And>n. 0 < n \<Longrightarrow> intn n < n"
  shows "\<exists>ep. PickEndpoint intn s = Some ep \<and> ep \<in> set (Endpoints s) \<and>
    (pod \<noteq> '''' \<longrightarrow> Endpoints s = [ep] \<and> PodName ep = pod)"
  by (rule pick_endpoint_ok [OF _ assms]) (simp add: cache_ok_run keeps)

definition demo_api :: "string kubeapi" where
  "demo_api = \<lparr>Services_Get = (\<lambda>cs ns svc. Inr [\<lparr>api_Name = ''http'', api_Port = 80,
       api_TargetPort = \<lparr>IntVal = 8080, StrVal = ''''\<rparr>, api_Protocol = ''TCP''\<rparr>]),
     EndpointSlices_List = (\<lambda>cs ns sel. Inr [[
       \<lparr>Ready = Some False, TargetRef = Some ''web-0'', Addresses = [''10.1.0.4'']\<rparr>,
       \<lparr>Ready = Some True, TargetRef = Some ''web-1'', Addresses = [''10.1.0.5'']\<rparr>]])\<rparr>"

definition demo_mgr :: "(nat, string, string) clientManager" where
  "demo_mgr = \<lparr>dynamicConfig = None, clients = [''east'' \<mapsto> \<lparr>clientset = ''c'', restConfig = ''r''\<rparr>],
     currentCtx = ''east''\<rparr>"

definition demo_svc :: "int \<Rightarrow> resolvedService" where
  "demo_svc t = \<lparr>Endpoints = [\<lparr>PodName = ''web-1'', ep_Namespace = ''prod'', ep_IP = ''10.1.0.5''\<rparr>],
     Ports = [\<lparr>sp_Name = ''http'', Port = 80, TargetPort = 8080, Protocol = ''TCP''\<rparr>], CachedAt = t\<rparr>"

lemma demo_resolve:
  "Resolve demo_api 0 5 (Some demo_mgr) (NewResolver 30) '''' ''prod'' ''web'' '''' =
     (Inr (demo_svc 5), (NewResolver 30)\<lparr>cache := [''east/prod/web'' \<mapsto> demo_svc 5]\<rparr>)"
  and demo_resolve_east:
  "Resolve demo_api 0 5 (Some demo_mgr) (NewResolver 30) ''east'' ''prod'' ''web'' '''' =
     (Inr (demo_svc 5), (NewResolver 30)\<lparr>cache := [''east/prod/web'' \<mapsto> demo_svc 5]\<rparr>)"
  by (simp_all add: Resolve_def NewResolver_def contextOrCurrent_def CurrentContextName_def demo_mgr_def
      clientForContext_def fetch_def demo_api_def endpointsOf_def portsOf_def demo_svc_def
      filterByPod_def cacheKey_def Let_def)

text \<open>
  C33: the cache. After a successful Resolve of a service, every Resolve of it before the answer
  is cacheTTL old gives that answer, restricted to the pod asked for, without asking the API
  (whatever the API would now say) and leaves the resolver as it is. Once the entry is cacheTTL
  old, or after Invalidate, the answer is the one of a resolver without the entry.
\<close>

theorem cache_serves_until_ttl:
  assumes "Resolve api t0 t1 (Some cm) r ctx ns svc '''' = (Inr s, r')"
  defines "key \<equiv> cacheKey (contextOrCurrent (Some cm) ctx) ns svc"
  shows "(t2 - CachedAt s < cacheTTL r \<longrightarrow>
      Resolve api' t2 t3 (Some cm) r' ctx ns svc pod = (filterByPod s ns svc pod, r')) \<and>
    (cacheTTL r \<le> t2 - CachedAt s \<longrightarrow> fst (Resolve api' t2 t3 (Some cm) r' ctx ns svc pod) =
      fst (Resolve api' t2 t3 (Some cm) (r'\<lparr>cache := (cache r')(key := None)\<rparr>) ctx ns svc pod)) \<and>
    Invalidate cm ctx ns svc r' = r'\<lparr>cache := (cache r')(key := None)\<rparr>"
proof -
  have s: "cache r' key = Some s" "cacheTTL r' = cacheTTL r"
    using Resolve_cases [OF assms(1)] by (auto simp: key_def filterByPod_def)
  have "Invalidate cm ctx ns svc r' = r'\<lparr>cache := (cache r')(key := None)\<rparr>"
    by (auto simp: Invalidate_def Let_def key_def contextOrCurrent_def)
  with s show ?thesis
    by (auto simp: Resolve_def Let_def key_def split: option.splits sum.splits)
qed

theorem cache_serves_until_ttl_witness:
  "Resolve (demo_api\<lparr>Services_Get := \<lambda>cs ns svc. Inl (Errorf ''down'')\<rparr>) 20 21 (Some demo_mgr)
     ((NewResolver 30)\<lparr>cache := [''east/prod/web'' \<mapsto> demo_svc 5]\<rparr>) '''' ''prod'' ''web'' ''web-0'' =
   (Inl (Errorf ''pod web-0 not found in endpoints for service prod/web''),
    (NewResolver 30)\<lparr>cache := [''east/prod/web'' \<mapsto> demo_svc 5]\<rparr>)"
proof -
  note ttl = conjunct1 [OF cache_serves_until_ttl [OF demo_resolve, of 20
      "demo_api\<lparr>Services_Get := \<lambda>cs ns svc. Inl (Errorf ''down'')\<rparr>" 21 "''web-0''"]]
  have "20 - CachedAt (demo_svc 5) < cacheTTL (NewResolver 30)"
    by (simp add: demo_svc_def NewResolver_def)
  moreover have "filterByPod (demo_svc 5) ''prod'' ''web'' ''web-0'' =
      Inl (Errorf ''pod web-0 not found in endpoints for service prod/web'')"
    by (simp add: filterByPod_def demo_svc_def)
  ultimately show ?thesis using ttl by simp
qed

text \<open>
  C32: what a Resolve that asks the API returns: the addresses of exactly those endpoints of the
  service's slices that are not marked unready, with the pod each of them targets; an error when
  there is none. It asks with the client of the requested context, or of the current one.
\<close>

theorem resolve_ready_endpoints:
  assumes "cache r (cacheKey (contextOrCurrent (Some cm) ctx) ns svc) = None"
    and "clientForContext cm (contextOrCurrent (Some cm) ctx) = Some cc"
    and "Services_Get api (clientset cc) ns svc = Inr ps"
    and "EndpointSlices_List api (clientset cc) ns (''kubernetes.io/service-name='' @ svc) = Inr items"
    and "Resolve api now now' (Some cm) r ctx ns svc '''' = (res, r')"
  shows "let ready = {(pod, addr). \<exists>slice \<in> set items. \<exists>ep \<in> set slice. Ready ep \<noteq> Some False \<and>
           addr \<in> set (Addresses ep) \<and> pod = (case TargetRef ep of None \<Rightarrow> '''' | Some n \<Rightarrow> n)}
     in case res of
       Inl e \<Rightarrow> ready = {} \<and> r' = r
     | Inr s \<Rightarrow> (\<lambda>e. (PodName e, ep_IP e)) ` set (Endpoints s) = ready \<and> ready \<noteq> {}"
proof -
  define E where "E = concat (map (\<lambda>slice. concat (map (endpointsOf ns) slice)) items)"
  have "Resolve api now now' (Some cm) r ctx ns svc '''' = (case fetch api (clientset cc) ns svc now' of Inl e \<Rightarrow> (Inl e, r)
      | Inr s \<Rightarrow> (Inr s, r\<lparr>cache := (cache r)(cacheKey (contextOrCurrent (Some cm) ctx) ns svc \<mapsto> s)\<rparr>))"
    using assms(1,2)
    by (cases "fetch api (clientset cc) ns svc now'") (simp_all add: Resolve_def Let_def)
  note res = assms(5) [symmetric, unfolded this]
  have fetch: "fetch api (clientset cc) ns svc now' =
     (if E = [] then Inl (Errorf (''no ready endpoints for service '' @ ns @ ''/'' @ svc))
      else Inr \<lparr>Endpoints = E, Ports = portsOf ps, CachedAt = now'\<rparr>)"
    unfolding fetch_def Let_def assms(3,4) sum.case length_0_conv E_def by (rule refl)
  have mem: "e \<in> set E \<longleftrightarrow> (\<exists>slice \<in> set items. \<exists>ep \<in> set slice. Ready ep \<noteq> Some False \<and>
      ep_Namespace e = ns \<and> ep_IP e \<in> set (Addresses ep) \<and>
      PodName e = (case TargetRef ep of None \<Rightarrow> '''' | Some n \<Rightarrow> n))" for e
    unfolding E_def by (auto simp: set_endpointsOf)
  have img: "(\<lambda>e. (PodName e, ep_IP e)) ` set E =
    {(pod, addr). \<exists>slice \<in> set items. \<exists>ep \<in> set slice. Ready ep \<noteq> Some False \<and>
           addr \<in> set (Addresses ep) \<and> pod = (case TargetRef ep of None \<Rightarrow> '''' | Some n \<Rightarrow> n)}"
    (is "?f ` _ = ?R")
  proof (intro set_eqI iffI)
    fix x assume "x \<in> ?R"
    then have "\<lparr>PodName = fst x, ep_Namespace = ns, ep_IP = snd x\<rparr> \<in> set E"
      by (auto simp: mem intro!: bexI)
    then show "x \<in> ?f ` set E" by (force intro: rev_image_eqI)
  next
    fix x assume "x \<in> ?f ` set E"
    then obtain e where "e \<in> set E" "x = ?f e" by blast
    then show "x \<in> ?R" unfolding mem by (simp only: mem_Collect_eq prod.case) blast
  qed
  show ?thesis unfolding Let_def img [symmetric] using res fetch by (cases "E = []") simp_all
qed

theorem resolve_ready_endpoints_witness:
  "(\<lambda>e. (PodName e, ep_IP e)) ` set (Endpoints (demo_svc 5)) = {(''web-1'', ''10.1.0.5'')}"
proof -
  note api = resolve_ready_endpoints [OF _ _ _ _ demo_resolve]
  show ?thesis
    using api by (simp add: NewResolver_def contextOrCurrent_def CurrentContextName_def
      clientForContext_def demo_mgr_def demo_api_def) auto
qed

text \<open>
  The target port of a service port. FindPort fails exactly when the service has no such
  port; else it answers with the first such port's numeric target, or with the service port
  itself when that number is zero. A port that targets a container port by name (number zero, a
  non-empty name) is thus forwarded to the service's own port number.
\<close>

lemma find_port_correct:
  "case FindPort (s\<lparr>Ports := portsOf ps\<rparr>) p of
     Inl e \<Rightarrow> p \<notin> api_Port ` set ps
   | Inr t \<Rightarrow> (\<exists>pre q post. ps = pre @ q # post \<and> p \<notin> api_Port ` set pre \<and> api_Port q = p \<and>
       t = (if IntVal (api_TargetPort q) = 0 then p else IntVal (api_TargetPort q)))"
proof -
  have "case findPortIn p (portsOf ps) of Inl e \<Rightarrow> p \<notin> api_Port ` set ps
   | Inr t \<Rightarrow> (\<exists>pre q post. ps = pre @ q # post \<and> p \<notin> api_Port ` set pre \<and> api_Port q = p \<and>
       t = (if IntVal (api_TargetPort q) = 0 then p else IntVal (api_TargetPort q)))"
  proof (induction ps)
    case (Cons q ps)
    show ?case
    proof (cases "api_Port q = p")
      case True
      then show ?thesis by (fastforce simp: portsOf_eq intro: exI [of _ "[]"])
    next
      case False
      then have eq: "findPortIn p (portsOf (q # ps)) = findPortIn p (portsOf ps)"
        by (simp add: portsOf_eq)
      show ?thesis
      proof (cases "findPortIn p (portsOf ps)")
        case (Inl e)
        with Cons False show ?thesis unfolding eq by simp
      next
        case (Inr t)
        with Cons obtain pre x post where "ps = pre @ x # post" "p \<notin> api_Port ` set pre"
          "api_Port x = p" "t = (if IntVal (api_TargetPort x) = 0 then p else IntVal (api_TargetPort x))"
          by auto
        with False Inr show ?thesis unfolding eq Inr sum.case
          by (intro exI [of _ "q # pre"] exI [of _ x] exI [of _ post]) simp
      qed
    qed
  qed (simp add: portsOf_eq)
  then show ?thesis by (simp add: FindPort_def)
qed

end
