(* ===== verification/Spdy_Pool.thy ===== *)
theory Spdy_Pool
  imports Resolver
begin

text \<open>
  The pool of SPDY connections of the ForwardManager, dialling a pod through it
  (\<^verbatim>\<open>internal/k8s/forward_manager.go\<close>, from acquirePoolEntry to DialPortForward, and
  createStreams) and the connection it returns (\<^verbatim>\<open>internal/k8s/stream_conn.go\<close>).

  A poolEntry is shared by pointer and compared by pointer, so entries live in an explicit heap:
  \<open>spdyPool\<close> maps a key to an address, \<open>pheap\<close> an address to the entry, and addresses are never
  reused. The counters are 32-bit words. The SPDY library is the parameter \<open>sp\<close> over a world
  \<open>'w\<close>. Every critical section of \<^verbatim>\<open>spdyPoolMu\<close> and every atomic operation is one definition,
  and the sequential operations are composed of them the way the code composes them.

  \<open>pool_step\<close> interleaves these atomic parts of any number of goroutines. \<open>pool_inv\<close> shows that
  the count of an entry in the pool is the number of its live holders, so that dropping the last
  reference never closes a connection in use and no entry stays in the pool unused. The locale
  \<open>spdy_traffic\<close> observes the requests that reach the API server, so that the URL and the port that
  are dialled can be stated.
\<close>

record spdyKey =
  sk_contextName :: string
  sk_namespace :: string
  sk_podName :: string

record 'c poolEntry =
  conn :: 'c
  nextID :: int32
  refs :: int32

record 'c pool =
  spdyPool :: "spdyKey \<rightharpoonup> nat"
  pheap :: "nat \<Rightarrow> 'c poolEntry option"
  palloc :: nat

datatype streamType = StreamTypeError | StreamTypeData

record pfHeaders =
  hdr_StreamType :: streamType
  hdr_Port :: string
  hdr_RequestID :: string

record pfURL =
  url_Host :: string
  url_Path :: string

text \<open>
  The libraries the code calls: \<^verbatim>\<open>url.Parse\<close> on the host of a REST config,
  \<^verbatim>\<open>spdy.RoundTripperFor\<close>, dialling, and the methods of a SPDY connection and of its streams.
  Errors that the code drops are not results here.
\<close>

record ('rc, 'tr, 'c, 'st, 'w) spdy =
  rc_Host :: "'rc \<Rightarrow> string"
  url_Parse :: "string \<Rightarrow> goerr + pfURL"
  RoundTripperFor :: "'rc \<Rightarrow> goerr + 'tr"
  Dial :: "'tr \<Rightarrow> pfURL \<Rightarrow> 'w \<Rightarrow> (goerr + 'c) \<times> 'w"
  CloseChan_closed :: "'c \<Rightarrow> 'w \<Rightarrow> bool"
  Conn_Close :: "'c \<Rightarrow> 'w \<Rightarrow> 'w"
  CreateStream :: "'c \<Rightarrow> pfHeaders \<Rightarrow> 'w \<Rightarrow> (goerr + 'st) \<times> 'w"
  Stream_Reset :: "'st \<Rightarrow> 'w \<Rightarrow> 'w"

definition emptyPool :: "'c pool" where
  "emptyPool = \<lparr>spdyPool = Map.empty, pheap = (\<lambda>_. None), palloc = 0\<rparr>"

definition spdyKey_String :: "spdyKey \<Rightarrow> string" where
  "spdyKey_String k = sk_contextName k @ ''/'' @ sk_namespace k @ ''/'' @ sk_podName k"

definition entry_at :: "'c pool \<Rightarrow> nat \<Rightarrow> 'c poolEntry" where
  "entry_at p a = the (pheap p a)"

definition upd_entry :: "nat \<Rightarrow> ('c poolEntry \<Rightarrow> 'c poolEntry) \<Rightarrow> 'c pool \<Rightarrow> 'c pool" where
  "upd_entry a f p = p\<lparr>pheap := (pheap p)(a := map_option f (pheap p a))\<rparr>"

definition dialEntry ::
  "('rc, 'tr, 'c, 'st, 'w) spdy \<Rightarrow> spdyKey \<Rightarrow> 'tr \<Rightarrow> pfURL \<Rightarrow> 'c pool \<Rightarrow> 'w \<Rightarrow>
   (goerr + nat) \<times> 'c pool \<times> 'w" where
  "dialEntry sp poolKey transport reqURL p w =
     (case Dial sp transport reqURL w of
        (Inl err, w') \<Rightarrow> (Inl (Wrapf ''dialing SPDY portforward to pod'' err), p, w')
      | (Inr spdyConn, w') \<Rightarrow>
          (Inr (palloc p),
           p\<lparr>pheap := (pheap p)(palloc p \<mapsto> \<lparr>conn = spdyConn, nextID = 0, refs = 1\<rparr>),
             palloc := palloc p + 1, spdyPool := (spdyPool p)(poolKey \<mapsto> palloc p)\<rparr>, w'))"

definition acquirePoolEntry ::
  "('rc, 'tr, 'c, 'st, 'w) spdy \<Rightarrow> spdyKey \<Rightarrow> 'tr \<Rightarrow> pfURL \<Rightarrow> 'c pool \<Rightarrow> 'w \<Rightarrow>
   (goerr + nat) \<times> 'c pool \<times> 'w" where
  "acquirePoolEntry sp poolKey transport reqURL p w =
     (case spdyPool p poolKey of
        Some e \<Rightarrow>
          if CloseChan_closed sp (conn (entry_at p e)) w
          then dialEntry sp poolKey transport reqURL
                 (p\<lparr>spdyPool := (spdyPool p)(poolKey := None)\<rparr>) w
          else (Inr e, upd_entry e (\<lambda>x. x\<lparr>refs := refs x + 1\<rparr>) p, w)
      | None \<Rightarrow> dialEntry sp poolKey transport reqURL p w)"

text \<open>The three parts of the callback of buildOnClose, and the callback.\<close>

definition onClose_drop :: "nat \<Rightarrow> 'c pool \<Rightarrow> bool \<times> 'c pool" where
  "onClose_drop e p =
     (let p' = upd_entry e (\<lambda>x. x\<lparr>refs := refs x - 1\<rparr>) p in (refs (entry_at p' e) = 0, p'))"

definition onClose_evict :: "spdyKey \<Rightarrow> nat \<Rightarrow> 'c pool \<Rightarrow> bool \<times> 'c pool" where
  "onClose_evict poolKey e p =
     (if spdyPool p poolKey = Some e \<and> refs (entry_at p e) = 0
      then (True, p\<lparr>spdyPool := (spdyPool p)(poolKey := None)\<rparr>) else (False, p))"

definition buildOnClose ::
  "('rc, 'tr, 'c, 'st, 'w) spdy \<Rightarrow> spdyKey \<Rightarrow> nat \<Rightarrow> 'c pool \<Rightarrow> 'w \<Rightarrow> 'c pool \<times> 'w" where
  "buildOnClose sp poolKey e p w =
     (let (zero, p1) = onClose_drop e p in
      if \<not> zero then (p1, w)
      else let (shouldClose, p2) = onClose_evict poolKey e p1
           in if shouldClose then (p2, Conn_Close sp (conn (entry_at p2 e)) w) else (p2, w))"

definition createStreams ::
  "('rc, 'tr, 'c, 'st, 'w) spdy \<Rightarrow> nat \<Rightarrow> string \<Rightarrow> 'c pool \<Rightarrow> 'w \<Rightarrow>
   (goerr + 'st \<times> 'st) \<times> 'c pool \<times> 'w" where
  "createStreams sp e portStr p w =
     (let p' = upd_entry e (\<lambda>x. x\<lparr>nextID := nextID x + 1\<rparr>) p;
          reqID = dec_int (sint (nextID (entry_at p' e) - 1));
          c = conn (entry_at p' e)
      in case CreateStream sp c \<lparr>hdr_StreamType = StreamTypeError, hdr_Port = portStr, hdr_RequestID = reqID\<rparr> w of
        (Inl err, w1) \<Rightarrow> (Inl (Wrapf ''creating SPDY error stream to pod'' err), p', w1)
      | (Inr errorStream, w1) \<Rightarrow>
          (case CreateStream sp c \<lparr>hdr_StreamType = StreamTypeData, hdr_Port = portStr, hdr_RequestID = reqID\<rparr> w1 of
             (Inl err, w2) \<Rightarrow>
               (Inl (Wrapf ''creating SPDY data stream to pod'' err), p', Stream_Reset sp errorStream w2)
           | (Inr dataStream, w2) \<Rightarrow> (Inr (dataStream, errorStream), p', w2)))"

text \<open>
  A connection handed to the caller. DialPortForward always passes nil for \<^verbatim>\<open>spdyCon\<close> and the
  callback for the entry it acquired, which \<open>sc_onClose\<close> names.
\<close>

record 'st streamConn =
  sc_data :: 'st
  sc_errStr :: 'st
  sc_onClose :: "spdyKey \<times> nat"

definition newStreamConn :: "'st \<Rightarrow> 'st \<Rightarrow> spdyKey \<times> nat \<Rightarrow> 'st streamConn" where
  "newStreamConn d er onClose = \<lparr>sc_data = d, sc_errStr = er, sc_onClose = onClose\<rparr>"

declare newStreamConn_def [simp]

text \<open>
  The goroutine newStreamConn starts: \<open>copied\<close> is what \<^verbatim>\<open>io.Copy\<close> got out of the error stream until
  it was reset or ended. It only writes to the log.
\<close>

definition io_EOF :: goerr where
  "io_EOF = Errorf ''EOF''"

datatype drain_log = ReadingErrorStream goerr | ApiserverError string string

definition drain_errStr :: "string \<Rightarrow> goerr option \<times> string \<Rightarrow> drain_log list" where
  "drain_errStr podName copied =
     (let (err, buf) = copied
      in (case err of Some e \<Rightarrow> if e \<noteq> io_EOF then [ReadingErrorStream e] else [] | None \<Rightarrow> []) @
         (if 0 < length buf then [ApiserverError podName buf] else []))"

definition streamConn_Close ::
  "('rc, 'tr, 'c, 'st, 'w) spdy \<Rightarrow> 'st streamConn \<Rightarrow> 'c pool \<Rightarrow> 'w \<Rightarrow> 'c pool \<times> 'w" where
  "streamConn_Close sp c p w =
     (let w1 = Stream_Reset sp (sc_data c) w; w2 = Stream_Reset sp (sc_errStr c) w1
      in buildOnClose sp (fst (sc_onClose c)) (snd (sc_onClose c)) p w2)"

text \<open>
  The other methods of a streamConn pass on to the data stream, whose operations are the arguments
  \<open>sread\<close>, \<open>swrite\<close> and \<open>sclose\<close>, or do nothing; its two addresses are 0.0.0.0 with port 0.
\<close>

definition streamConn_Read ::
  "('st \<Rightarrow> nat \<Rightarrow> 'w \<Rightarrow> (goerr option \<times> string) \<times> 'w) \<Rightarrow> 'st streamConn \<Rightarrow> nat \<Rightarrow> 'w \<Rightarrow> (goerr option \<times> string) \<times> 'w" where
  "streamConn_Read sread c n w = sread (sc_data c) n w"

definition streamConn_Write ::
  "('st \<Rightarrow> string \<Rightarrow> 'w \<Rightarrow> (goerr option \<times> nat) \<times> 'w) \<Rightarrow> 'st streamConn \<Rightarrow> string \<Rightarrow> 'w \<Rightarrow> (goerr option \<times> nat) \<times> 'w" where
  "streamConn_Write swrite c b w = swrite (sc_data c) b w"

definition streamConn_CloseWrite ::
  "('st \<Rightarrow> 'w \<Rightarrow> goerr option \<times> 'w) \<Rightarrow> 'st streamConn \<Rightarrow> 'w \<Rightarrow> goerr option \<times> 'w" where
  "streamConn_CloseWrite sclose c w = sclose (sc_data c) w"

definition streamConn_Addr :: "'st streamConn \<Rightarrow> byte list \<times> nat" where
  "streamConn_Addr c = ([0, 0, 0, 0], 0)"

definition streamConn_SetDeadline :: "'st streamConn \<Rightarrow> int \<Rightarrow> goerr option" where
  "streamConn_SetDeadline c t = None"

definition evictStale :: "spdyKey \<Rightarrow> nat \<Rightarrow> 'c pool \<Rightarrow> 'c pool" where
  "evictStale poolKey e p =
     (if spdyPool p poolKey = Some e then p\<lparr>spdyPool := (spdyPool p)(poolKey := None)\<rparr> else p)"

text \<open>\<^verbatim>\<open>url.PathEscape\<close>.\<close>

definition path_safe :: "char \<Rightarrow> bool" where
  "path_safe c \<longleftrightarrow> (let n = of_char c :: nat in
     97 \<le> n \<and> n \<le> 122 \<or> 65 \<le> n \<and> n \<le> 90 \<or> 48 \<le> n \<and> n \<le> 57 \<or>
     c \<in> set ''-_.~$&+=:@'')"

definition upper_hex :: "nat \<Rightarrow> char" where
  "upper_hex d = (if d < 10 then char_of (48 + d) else char_of (55 + d))"

definition PathEscape :: "string \<Rightarrow> string" where
  "PathEscape s = concat (map (\<lambda>c. if path_safe c then [c]
     else let n = of_char c :: nat in [CHR ''%'', upper_hex (n div 16), upper_hex (n mod 16)]) s)"

text \<open>
  Opening the streams with one retry: the part of DialPortForward after the request is known.
\<close>

definition openStreams ::
  "('rc, 'tr, 'c, 'st, 'w) spdy \<Rightarrow> spdyKey \<Rightarrow> 'tr \<Rightarrow> pfURL \<Rightarrow> string \<Rightarrow> 'c pool \<Rightarrow> 'w \<Rightarrow>
   (goerr + 'st streamConn) \<times> 'c pool \<times> 'w" where
  "openStreams sp poolKey transport reqURL portStr p w =
     (case acquirePoolEntry sp poolKey transport reqURL p w of
        (Inl err, p1, w1) \<Rightarrow> (Inl err, p1, w1)
      | (Inr e, p1, w1) \<Rightarrow>
        (case createStreams sp e portStr p1 w1 of
           (Inr (d, er), p2, w2) \<Rightarrow>
             (Inr (newStreamConn d er (poolKey, e)), p2, w2)
         | (Inl _, p2, w2) \<Rightarrow>
             (let p3 = evictStale poolKey e p2; w3 = Conn_Close sp (conn (entry_at p3 e)) w2
              in case acquirePoolEntry sp poolKey transport reqURL p3 w3 of
                (Inl err, p4, w4) \<Rightarrow> (Inl err, p4, w4)
              | (Inr e', p4, w4) \<Rightarrow>
                (case createStreams sp e' portStr p4 w4 of
                   (Inr (d, er), p5, w5) \<Rightarrow>
                     (Inr (newStreamConn d er (poolKey, e')), p5, w5)
                 | (Inl err, p5, w5) \<Rightarrow>
                     (let (p6, w6) = buildOnClose sp poolKey e' p5 w5 in (Inl err, p6, w6))))))"

text \<open>
  \<^verbatim>\<open>DialPortForward\<close>. The outer \<open>None\<close> is a panic of PickEndpoint. The client manager and the
  resolver are read and updated as one unit.
\<close>

definition DialPortForward ::
  "('rc, 'tr, 'c, 'st, 'w) spdy \<Rightarrow> 'cs kubeapi \<Rightarrow> (nat \<Rightarrow> nat) \<Rightarrow> int \<Rightarrow> int \<Rightarrow>
   ('o, 'rc, 'cs) clientManager \<Rightarrow> string \<Rightarrow> string \<Rightarrow> string \<Rightarrow> string \<Rightarrow> int32 \<Rightarrow>
   resolver \<Rightarrow> 'c pool \<Rightarrow> 'w \<Rightarrow> (goerr + 'st streamConn) option \<times> resolver \<times> 'c pool \<times> 'w" where
  "DialPortForward sp api intn now now' cm ctx namespace svcName podName svcPort r p w =
     (let contextName = (if ctx = '''' then CurrentContextName cm else ctx) in
      case clientForContext cm contextName of
        None \<Rightarrow> (Some (Inl (Errorf (''unknown kubeconfig context \"'' @ contextName @ ''\"''))), r, p, w)
      | Some cc \<Rightarrow>
        (case Resolve api now now' (Some cm) r contextName namespace svcName podName of
           (Inl err, r') \<Rightarrow>
             (Some (Inl (Wrapf (''resolving '' @ namespace @ ''/'' @ svcName) err)), r', p, w)
         | (Inr resolved, r') \<Rightarrow>
           (case PickEndpoint intn resolved of
              None \<Rightarrow> (None, r', p, w)
            | Some ep \<Rightarrow>
              (case FindPort resolved svcPort of
                 Inl err \<Rightarrow>
                   (Some (Inl (Wrapf (''finding container port for svc port '' @ dec_int (sint svcPort) @
                      '' on '' @ namespace @ ''/'' @ svcName) err)), r', p, w)
               | Inr podPort \<Rightarrow>
                 (case url_Parse sp (rc_Host sp (restConfig cc)) of
                    Inl err \<Rightarrow> (Some (Inl (Wrapf ''parsing REST config host'' err)), r', p, w)
                  | Inr u \<Rightarrow>
                    (let reqURL = u\<lparr>url_Path := ''/api/v1/namespaces/'' @ PathEscape (ep_Namespace ep) @
                           ''/pods/'' @ PathEscape (PodName ep) @ ''/portforward''\<rparr> in
                     case RoundTripperFor sp (restConfig cc) of
                       Inl err \<Rightarrow> (Some (Inl (Wrapf ''creating SPDY round tripper'' err)), r', p, w)
                     | Inr transport \<Rightarrow>
                       (let poolKey = \<lparr>sk_contextName = contextName, sk_namespace = ep_Namespace ep,
                              sk_podName = PodName ep\<rparr>;
                            (res, p', w') = openStreams sp poolKey transport reqURL
                              (dec_int (sint podPort)) p w
                        in (Some res, r', p', w'))))))))"

text \<open>Closing the pool, at shutdown (every key) or for one context.\<close>

definition closePool ::
  "('rc, 'tr, 'c, 'st, 'w) spdy \<Rightarrow> (spdyKey \<Rightarrow> bool) \<Rightarrow> spdyKey list \<Rightarrow> 'c pool \<Rightarrow> 'w \<Rightarrow> 'c pool \<times> 'w" where
  "closePool sp sel ks p w =
     foldl (\<lambda>(p, w) key. case spdyPool p key of
         None \<Rightarrow> (p, w)
       | Some pe \<Rightarrow>
           if \<not> sel key then (p, w)
           else (p\<lparr>spdyPool := (spdyPool p)(key := None)\<rparr>, Conn_Close sp (conn (entry_at p pe)) w)) (p, w) ks"

subsection \<open>Interleavings\<close>

text \<open>
  The pool as goroutines see it. \<open>holders\<close> are the references handed out and not yet dropped
  (by a streamConn, or by a dial between acquiring and creating its streams), \<open>pending\<close> the
  callbacks that brought a count to zero and have not taken the mutex yet, \<open>closing\<close> the entries
  whose connection a callback has decided to close, \<open>killing\<close> those a failed dial will close.
\<close>

record ('c, 'w) pool_sys =
  sys_pool :: "'c pool"
  sys_world :: 'w
  holders :: "(spdyKey \<times> nat) multiset"
  pending :: "(spdyKey \<times> nat) multiset"
  closing :: "nat multiset"
  killing :: "nat multiset"

definition pool_init :: "('c, 'w) pool_sys \<Rightarrow> bool" where
  "pool_init s \<longleftrightarrow> sys_pool s = emptyPool \<and> holders s = {#} \<and> pending s = {#} \<and>
     closing s = {#} \<and> killing s = {#}"

inductive pool_step ::
  "('rc, 'tr, 'c, 'st, 'w) spdy \<Rightarrow> ('c, 'w) pool_sys \<Rightarrow> ('c, 'w) pool_sys \<Rightarrow> bool"
  for sp :: "('rc, 'tr, 'c, 'st, 'w) spdy" where
  acquire: "size (holders s) + 1 < 2 ^ 31 \<Longrightarrow>
    acquirePoolEntry sp k tr u (sys_pool s) (sys_world s) = (Inr e, p', w') \<Longrightarrow>
    pool_step sp s (s\<lparr>sys_pool := p', sys_world := w', holders := add_mset (k, e) (holders s)\<rparr>)"
| acquire_fail: "acquirePoolEntry sp k tr u (sys_pool s) (sys_world s) = (Inl err, p', w') \<Longrightarrow>
    pool_step sp s (s\<lparr>sys_pool := p', sys_world := w'\<rparr>)"
| streams: "(k, e) \<in># holders s \<Longrightarrow>
    createStreams sp e portStr (sys_pool s) (sys_world s) = (res, p', w') \<Longrightarrow>
    pool_step sp s (s\<lparr>sys_pool := p', sys_world := w'\<rparr>)"
| stale: "(k, e) \<in># holders s \<Longrightarrow>
    pool_step sp s (s\<lparr>sys_pool := evictStale k e (sys_pool s), holders := holders s - {#(k, e)#},
      killing := add_mset e (killing s)\<rparr>)"
| kill: "e \<in># killing s \<Longrightarrow>
    pool_step sp s (s\<lparr>sys_world := Conn_Close sp (conn (entry_at (sys_pool s) e)) (sys_world s),
      killing := killing s - {#e#}\<rparr>)"
| release: "(k, e) \<in># holders s \<Longrightarrow> onClose_drop e (sys_pool s) = (zero, p') \<Longrightarrow>
    pool_step sp s (s\<lparr>sys_pool := p', holders := holders s - {#(k, e)#},
      pending := (if zero then add_mset (k, e) (pending s) else pending s)\<rparr>)"
| evict: "(k, e) \<in># pending s \<Longrightarrow> onClose_evict k e (sys_pool s) = (close, p') \<Longrightarrow>
    pool_step sp s (s\<lparr>sys_pool := p', pending := pending s - {#(k, e)#},
      closing := (if close then add_mset e (closing s) else closing s)\<rparr>)"
| close: "e \<in># closing s \<Longrightarrow>
    pool_step sp s (s\<lparr>sys_world := Conn_Close sp (conn (entry_at (sys_pool s) e)) (sys_world s),
      closing := closing s - {#e#}\<rparr>)"
| shutdown: "range_of ks (spdyPool (sys_pool s)) \<Longrightarrow>
    closePool sp sel ks (sys_pool s) (sys_world s) = (p', w') \<Longrightarrow>
    pool_step sp s (s\<lparr>sys_pool := p', sys_world := w'\<rparr>)"
| world: "pool_step sp s (s\<lparr>sys_world := w'\<rparr>)"

inductive_cases pool_stepE: "pool_step sp s s'"

definition users :: "nat \<Rightarrow> (spdyKey \<times> nat) multiset \<Rightarrow> nat" where
  "users e H = size (filter_mset (\<lambda>x. snd x = e) H)"

definition counted :: "'c pool \<Rightarrow> (spdyKey \<times> nat) multiset \<Rightarrow> (spdyKey \<times> nat) multiset \<Rightarrow> nat multiset \<Rightarrow>
    spdyKey \<Rightarrow> nat \<Rightarrow> bool" where
  "counted p H P C k e \<longleftrightarrow>
     e < palloc p \<and> refs (entry_at p e) = of_nat (users e H) \<and> e \<notin># C \<and> (k, e) \<in># H + P \<and>
     (\<forall>k'. (k', e) \<in># H + P \<or> spdyPool p k' = Some e \<longrightarrow> k' = k)"

definition pool_inv :: "'c pool \<Rightarrow> (spdyKey \<times> nat) multiset \<Rightarrow> (spdyKey \<times> nat) multiset \<Rightarrow> nat multiset \<Rightarrow> bool" where
  "pool_inv p H P C \<longleftrightarrow>
     size H < 2 ^ 31 \<and>
     (\<forall>e. pheap p e \<noteq> None \<longleftrightarrow> e < palloc p) \<and>
     (\<forall>x \<in># H + P. snd x < palloc p) \<and>
     (\<forall>e \<in># C. e < palloc p \<and> users e H = 0) \<and>
     (\<forall>k e. spdyPool p k = Some e \<longrightarrow> counted p H P C k e)"

subsection \<open>Lemmas\<close>

lemma users_simps [simp]:
  "users e {#} = 0" "users e (add_mset x H) = (if snd x = e then users e H + 1 else users e H)"
  by (simp_all add: users_def)

lemma users_le: "users e H \<le> size H"
  by (simp add: users_def size_filter_mset_lesseq)

lemma users_0: "users e H = 0 \<longleftrightarrow> (\<forall>x \<in># H. snd x \<noteq> e)"
  unfolding users_def size_eq_0_iff_empty set_mset_eq_empty_iff [symmetric] set_mset_filter by blast

lemma users_remove:
  "(k, e') \<in># H \<Longrightarrow> users e (H - {#(k, e')#}) = (if e' = e then users e H - 1 else users e H)"
  by (cases "(k, e') \<in># H") (auto dest!: multi_member_split)

lemma entry_at_upd [simp]:
  "entry_at (upd_entry e f p) e' = (if e' = e \<and> pheap p e \<noteq> None then f (entry_at p e) else entry_at p e')"
  by (auto simp: entry_at_def upd_entry_def)

lemma upd_entry_simps [simp]:
  "spdyPool (upd_entry e f p) = spdyPool p" "palloc (upd_entry e f p) = palloc p"
  "(pheap (upd_entry e f p) e' = None) = (pheap p e' = None)"
  by (auto simp: upd_entry_def)

lemma entry_at_pool [simp]: "entry_at (p\<lparr>spdyPool := m\<rparr>) = entry_at p"
  by (simp add: entry_at_def fun_eq_iff)

lemma pool_invI:
  assumes "size H < 2 ^ 31" "\<And>e. pheap p e \<noteq> None \<longleftrightarrow> e < palloc p"
    "\<And>x. x \<in># H + P \<Longrightarrow> snd x < palloc p"
    "\<And>e. e \<in># C \<Longrightarrow> e < palloc p \<and> users e H = 0"
    "\<And>k e. spdyPool p k = Some e \<Longrightarrow> counted p H P C k e"
  shows "pool_inv p H P C"
  using assms unfolding pool_inv_def by blast

lemma pool_invD:
  assumes "pool_inv p H P C"
  shows "size H < 2 ^ 31" "pheap p e \<noteq> None \<longleftrightarrow> e < palloc p"
    "x \<in># H + P \<Longrightarrow> snd x < palloc p"
    "e \<in># C \<Longrightarrow> e < palloc p \<and> users e H = 0"
    "spdyPool p k = Some e \<Longrightarrow> counted p H P C k e"
  using assms unfolding pool_inv_def by blast+

lemma countedD:
  assumes "counted p H P C k e"
  shows "e < palloc p" "refs (entry_at p e) = of_nat (users e H)" "e \<notin># C" "(k, e) \<in># H + P"
    "(k', e) \<in># H \<Longrightarrow> k' = k" "(k', e) \<in># P \<Longrightarrow> k' = k" "spdyPool p k' = Some e \<Longrightarrow> k' = k"
  using assms unfolding counted_def by simp_all

lemma counted_keep:
  assumes c: "counted p H P C k e" and "palloc p \<le> palloc p'" "refs (entry_at p' e) = refs (entry_at p e)"
    and "users e H' = users e H" "e \<in># C' \<Longrightarrow> e \<in># C" "(k, e) \<in># H' + P'"
    and "\<And>k'. (k', e) \<in># H' + P' \<Longrightarrow> (k', e) \<in># H + P"
    and "\<And>k'. spdyPool p' k' = Some e \<Longrightarrow> spdyPool p k' = Some e"
  shows "counted p' H' P' C' k e"
proof -
  from c have "e < palloc p'" using assms(2) by (simp add: counted_def)
  moreover have "refs (entry_at p' e) = of_nat (users e H')" using c assms(3,4) by (simp add: counted_def)
  moreover have "e \<notin># C'" using c assms(5) by (auto simp: counted_def)
  moreover have "k' = k" if "(k', e) \<in># H' + P' \<or> spdyPool p' k' = Some e" for k'
    using c assms(7,8) that unfolding counted_def by blast
  ultimately show ?thesis using assms(6) unfolding counted_def by blast
qed

lemma pool_inv_forget:
  assumes "pool_inv p H P C"
  shows "pool_inv (p\<lparr>spdyPool := (spdyPool p)(k := None)\<rparr>) H P C"
  using assms by (auto simp: pool_inv_def counted_def)

lemma pool_inv_upd:
  assumes "pool_inv p H P C" "\<And>x. refs (f x) = refs x"
  shows "pool_inv (upd_entry e f p) H P C"
  using assms by (auto simp: pool_inv_def counted_def)

lemma pool_inv_reuse:
  assumes inv: "pool_inv p H P C" and k: "spdyPool p k = Some e" and "size H + 1 < 2 ^ 31"
  shows "pool_inv (upd_entry e (\<lambda>x. x\<lparr>refs := refs x + 1\<rparr>) p) (add_mset (k, e) H) P C"
proof (rule pool_invI)
  note c = pool_invD(5) [OF inv k]
  have e: "pheap p e \<noteq> None" using pool_invD(2) [OF inv, of e] c by (simp add: counted_def)
  show "counted (upd_entry e (\<lambda>x. x\<lparr>refs := refs x + 1\<rparr>) p) (add_mset (k, e) H) P C k' e'"
    if "spdyPool (upd_entry e (\<lambda>x. x\<lparr>refs := refs x + 1\<rparr>) p) k' = Some e'" for k' e'
  proof (cases "e' = e")
    case True
    with c that e show ?thesis by (auto simp: counted_def)
  next
    case False
    have old: "counted p H P C k' e'" using pool_invD(5) [OF inv] that by simp
    then have "(k', e') \<in># H + P" by (simp add: counted_def)
    with False show ?thesis by (intro counted_keep [OF old]) auto
  qed
  show "snd x < palloc (upd_entry e (\<lambda>x. x\<lparr>refs := refs x + 1\<rparr>) p)" if "x \<in># add_mset (k, e) H + P" for x
    using that pool_invD(3) [OF inv, of x] c by (auto simp: counted_def)
  show "e' < palloc (upd_entry e (\<lambda>x. x\<lparr>refs := refs x + 1\<rparr>) p) \<and> users e' (add_mset (k, e) H) = 0"
    if "e' \<in># C" for e'
    using that pool_invD(4) [OF inv, of e'] c by (auto simp: counted_def)
qed (use assms(3) pool_invD(2) [OF inv] in simp_all)

lemma pool_inv_dial:
  assumes inv: "pool_inv p H P C" and k: "spdyPool p k = None" and "size H + 1 < 2 ^ 31"
  shows "pool_inv (p\<lparr>pheap := (pheap p)(palloc p \<mapsto> \<lparr>conn = c, nextID = 0, refs = 1\<rparr>),
      palloc := palloc p + 1, spdyPool := (spdyPool p)(k \<mapsto> palloc p)\<rparr>)
    (add_mset (k, palloc p) H) P C" (is "pool_inv ?p ?H P C")
proof (rule pool_invI)
  have fresh: "users (palloc p) H = 0" "(k', palloc p) \<notin># H + P" for k'
    unfolding users_0 using pool_invD(3) [OF inv] by fastforce+
  have pool: "e < palloc p" if "spdyPool p k' = Some e" for k' e
    using pool_invD(5) [OF inv that] by (simp add: counted_def)
  have notC: "palloc p \<notin># C" using pool_invD(4) [OF inv, of "palloc p"] by blast
  show "counted ?p ?H P C k' e'" if "spdyPool ?p k' = Some e'" for k' e'
  proof (cases "k' = k")
    case True
    with that have "e' = palloc p" by simp
    with True fresh pool notC show ?thesis by (auto simp: counted_def entry_at_def)
  next
    case False
    with that have "spdyPool p k' = Some e'" by simp
    note old = pool_invD(5) [OF inv this] and lt = pool [OF this]
    then have "(k', e') \<in># H + P" by (simp add: counted_def)
    with lt show ?thesis by (intro counted_keep [OF old]) (auto simp: entry_at_def split: if_splits)
  qed
  show "snd x < palloc ?p" if "x \<in># ?H + P" for x
    using that pool_invD(3) [OF inv, of x] by auto
  show "e < palloc ?p \<and> users e ?H = 0" if "e \<in># C" for e
    using that pool_invD(4) [OF inv, of e] by auto
qed (use assms(3) pool_invD(2) [OF inv] in \<open>auto simp: less_Suc_eq\<close>)

lemma in_diff_single: "x \<noteq> y \<Longrightarrow> x \<in># H - {#y#} \<longleftrightarrow> x \<in># H"
  by (simp add: in_diff_count)

lemma pool_inv_stale:
  assumes inv: "pool_inv p H P C" and h: "(k, e) \<in># H"
  shows "pool_inv (evictStale k e p) (H - {#(k, e)#}) P C"
proof (rule pool_invI)
  have H: "x \<in># H" if "x \<in># H - {#(k, e)#}" for x using that by (rule in_diffD)
  show "counted (evictStale k e p) (H - {#(k, e)#}) P C k' e'"
    if k': "spdyPool (evictStale k e p) k' = Some e'" for k' e'
  proof -
    have pool: "spdyPool p k' = Some e'" using k' by (auto simp: evictStale_def split: if_splits)
    note old = pool_invD(5) [OF inv pool]
    have "e' \<noteq> e"
    proof
      assume "e' = e"
      with old h have "k = k'" unfolding counted_def by simp
      with \<open>e' = e\<close> pool k' show False by (simp add: evictStale_def)
    qed
    moreover have "(k', e') \<in># H + P" using old by (simp add: counted_def)
    ultimately show ?thesis
      by (intro counted_keep [OF old])
        (auto simp: evictStale_def users_remove [OF h] in_diff_single split: if_splits)
  qed
  show "size (H - {#(k, e)#}) < 2 ^ 31"
    using pool_invD(1) [OF inv] size_Diff1_le [of H "(k, e)"] by linarith
  show "e' < palloc (evictStale k e p) \<and> users e' (H - {#(k, e)#}) = 0" if "e' \<in># C" for e'
    using pool_invD(4) [OF inv that] users_remove [OF h, of e'] by (simp add: evictStale_def)
  show "snd x < palloc (evictStale k e p)" if "x \<in># H - {#(k, e)#} + P" for x
    using that pool_invD(3) [OF inv, of x] by (auto simp: evictStale_def dest: in_diffD)
  show "pheap (evictStale k e p) e' \<noteq> None \<longleftrightarrow> e' < palloc (evictStale k e p)" for e'
    using pool_invD(2) [OF inv, of e'] by (simp add: evictStale_def)
qed

lemma pool_inv_drop:
  assumes inv: "pool_inv p H P C" and h: "(k, e) \<in># H"
    and drop: "onClose_drop e p = (zero, p')"
    and P': "P' = (if zero then add_mset (k, e) P else P)"
  shows "pool_inv p' (H - {#(k, e)#}) P' C"
proof (rule pool_invI)
  have H: "x \<in># H" if "x \<in># H - {#(k, e)#}" for x using that by (rule in_diffD)
  have e: "pheap p e \<noteq> None" using pool_invD(2) [OF inv, of e] pool_invD(3) [OF inv, of "(k, e)"] h by simp
  have p': "p' = upd_entry e (\<lambda>x. x\<lparr>refs := refs x - 1\<rparr>) p" and
    zero: "zero \<longleftrightarrow> refs (entry_at p e) - 1 = 0"
    using drop e by (auto simp: onClose_drop_def Let_def)
  have P: "x \<in># P" if "x \<in># P'" "snd x \<noteq> e" for x using that P' by (auto split: if_splits)
  show "counted p' (H - {#(k, e)#}) P' C k' e'" if k': "spdyPool p' k' = Some e'" for k' e'
  proof (cases "e' = e")
    case False
    have old: "counted p H P C k' e'" using pool_invD(5) [OF inv] k' p' by simp
    then have "(k', e') \<in># H + P" by (simp add: counted_def)
    with False P P' show ?thesis
      by (intro counted_keep [OF old]) (auto simp: p' users_remove [OF h] in_diff_single split: if_splits)
  next
    case True
    with k' p' have old: "counted p H P C k' e" using pool_invD(5) [OF inv, of k' e] by simp
    then have [simp]: "k' = k" using h by (auto simp: counted_def)
    have u: "users e H \<noteq> 0" using h users_0 [of e H] by auto
    then have refs: "refs (entry_at p e) - 1 = of_nat (users e H - 1)"
      using old by (simp add: counted_def of_nat_diff)
    have "users e H - 1 < 2 ^ 32" using users_le [of e H] pool_invD(1) [OF inv] by simp
    then have z: "zero \<longleftrightarrow> users e H - 1 = 0"
      unfolding zero refs by (rule of_nat32_eq_0)
    have "(k, e) \<in># H - {#(k, e)#} + P'"
    proof (cases zero)
      case True
      then show ?thesis using P' by simp
    next
      case False
      with z have "users e (H - {#(k, e)#}) \<noteq> 0" using users_remove [OF h, of e] by simp
      then obtain k2 where k2: "(k2, e) \<in># H - {#(k, e)#}" using users_0 [of e "H - {#(k, e)#}"] by auto
      then have "(k2, e) \<in># H" by (rule in_diffD)
      with old have "k2 = k" unfolding counted_def by simp
      with k2 show ?thesis by simp
    qed
    moreover have "k'' = k" if "(k'', e) \<in># H - {#(k, e)#} + P' \<or> spdyPool p' k'' = Some e" for k''
    proof -
      from that P' p' have "(k'', e) \<in># H + P \<or> spdyPool p k'' = Some e \<or> k'' = k"
        by (auto split: if_splits dest: in_diffD)
      with old show ?thesis unfolding counted_def by auto
    qed
    moreover have "refs (entry_at p' e) = of_nat (users e (H - {#(k, e)#}))"
      using refs e by (simp add: p' users_remove [OF h])
    ultimately show ?thesis using True old unfolding counted_def by (simp add: p')
  qed
  show "size (H - {#(k, e)#}) < 2 ^ 31"
    using pool_invD(1) [OF inv] size_Diff1_le [of H "(k, e)"] by linarith
  show "e' < palloc p' \<and> users e' (H - {#(k, e)#}) = 0" if "e' \<in># C" for e'
    using pool_invD(4) [OF inv that] users_remove [OF h, of e'] by (simp add: p')
  show "snd x < palloc p'" if "x \<in># H - {#(k, e)#} + P'" for x
    using that P' h pool_invD(3) [OF inv, of x] pool_invD(3) [OF inv, of "(k, e)"]
    by (auto simp: p' split: if_splits dest: in_diffD)
  show "pheap p' e' \<noteq> None \<longleftrightarrow> e' < palloc p'" for e'
    using pool_invD(2) [OF inv, of e'] by (simp add: p')
qed

lemma pool_inv_evict:
  assumes inv: "pool_inv p H P C" and pd: "(k, e) \<in># P"
    and evict: "onClose_evict k e p = (close, p')"
    and C': "C' = (if close then add_mset e C else C)"
  shows "pool_inv p' H (P - {#(k, e)#}) C'"
proof (rule pool_invI)
  have p': "p' = (if close then p\<lparr>spdyPool := (spdyPool p)(k := None)\<rparr> else p)" and
    close: "close \<longleftrightarrow> spdyPool p k = Some e \<and> refs (entry_at p e) = 0"
    using evict by (auto simp: onClose_evict_def split: if_splits)
  have pool: "spdyPool p k' = Some e'" if "spdyPool p' k' = Some e'" for k' e'
    using that p' by (auto split: if_splits)
  have zero: "users e' H = 0 \<longleftrightarrow> refs (entry_at p e') = 0" if "counted p H P C k' e'" for k' e'
    using that of_nat32_eq_0 [of "users e' H"] users_le [of e' H] pool_invD(1) [OF inv]
    by (auto simp: counted_def)
  show "counted p' H (P - {#(k, e)#}) C' k' e'" if k': "spdyPool p' k' = Some e'" for k' e'
  proof -
    note old = pool_invD(5) [OF inv pool [OF k']]
    have keep: "(k', e') \<in># H + (P - {#(k, e)#})"
    proof (cases "e' = e")
      case False
      with old show ?thesis by (auto simp: counted_def in_diff_single)
    next
      case True
      with old pd have [simp]: "k' = k" by (auto simp: counted_def)
      with k' True p' have "\<not> close" by (auto split: if_splits)
      with close pool [OF k'] True have "refs (entry_at p e) \<noteq> 0" by simp
      with zero [OF old] True have "users e H \<noteq> 0" by simp
      then obtain k2 where "(k2, e) \<in># H" using users_0 [of e H] by auto
      moreover from this old True have "k2 = k" unfolding counted_def by simp
      ultimately show ?thesis using True by simp
    qed
    have "e' \<noteq> e" if close
    proof
      assume "e' = e"
      with old pd have "k' = k" by (auto simp: counted_def)
      with k' p' that show False by simp
    qed
    with keep show ?thesis using C' p' pool
      by (intro counted_keep [OF old]) (simp, simp, simp, force split: if_splits, simp,
        auto dest: in_diffD)
  qed
  show "e' < palloc p' \<and> users e' H = 0" if "e' \<in># C'" for e'
  proof (cases "e' \<in># C")
    case True
    with pool_invD(4) [OF inv] p' show ?thesis by auto
  next
    case False
    with that C' have "e' = e" close by (auto split: if_splits)
    with close have "counted p H P C k e" "refs (entry_at p e) = 0" using pool_invD(5) [OF inv] by simp_all
    then have "users e H = 0" "e < palloc p" using zero countedD(1) by blast+
    with \<open>e' = e\<close> p' show ?thesis by simp
  qed
  show "snd x < palloc p'" if "x \<in># H + (P - {#(k, e)#})" for x
    using that pool_invD(3) [OF inv, of x] by (auto simp: p' dest: in_diffD)
  show "pheap p' e' \<noteq> None \<longleftrightarrow> e' < palloc p'" for e'
    using pool_invD(2) [OF inv, of e'] p' by simp
qed (rule pool_invD(1) [OF inv])

lemma pool_inv_closed:
  assumes inv: "pool_inv p H P C"
  shows "pool_inv p H P (C - {#e#})"
proof (rule pool_invI)
  show "counted p H P (C - {#e#}) k e'" if "spdyPool p k = Some e'" for k e'
    using pool_invD(5) [OF inv that] by (intro counted_keep [OF pool_invD(5) [OF inv that]])
      (auto simp: counted_def dest: in_diffD)
qed (use pool_invD(1-4) [OF inv] in \<open>auto dest: in_diffD\<close>)

lemma pool_inv_closePool:
  assumes "pool_inv p H P C" "closePool sp sel ks p w = (p', w')"
  shows "pool_inv p' H P C"
proof -
  define f where "f = (\<lambda>(p, w) key. case spdyPool p key of
         None \<Rightarrow> (p, w)
       | Some pe \<Rightarrow>
           if \<not> sel key then (p, w)
           else (p\<lparr>spdyPool := (spdyPool p)(key := None)\<rparr>, Conn_Close sp (conn (entry_at p pe)) w))"
  have "pool_inv (fst (f pw key)) H P C" if "pool_inv (fst pw) H P C" for pw key
    using that by (auto simp: f_def pool_inv_forget split: prod.splits option.splits)
  then have "pool_inv (fst (foldl f pw ks)) H P C" if "pool_inv (fst pw) H P C" for pw
    using that by (induction ks arbitrary: pw) auto
  from this [of "(p, w)"] assms show ?thesis by (simp add: closePool_def f_def)
qed

lemma closePool_keys:
  assumes "closePool sp sel ks p w = (p', w')"
  shows "spdyPool p' k = (if k \<in> set ks \<and> sel k then None else spdyPool p k)"
proof -
  have "spdyPool (fst (foldl (\<lambda>(p, w) key. case spdyPool p key of None \<Rightarrow> (p, w)
       | Some pe \<Rightarrow> if \<not> sel key then (p, w)
           else (p\<lparr>spdyPool := (spdyPool p)(key := None)\<rparr>, Conn_Close sp (conn (entry_at p pe)) w)) pw ks)) k =
     (if k \<in> set ks \<and> sel k then None else spdyPool (fst pw) k)" for pw
    by (induction ks arbitrary: pw) (auto split: option.splits prod.splits)
  from this [of "(p, w)"] assms show ?thesis by (simp add: closePool_def)
qed

lemma closePool_all:
  assumes "range_of ks (spdyPool p)" "closePool sp (\<lambda>_. True) ks p w = (p', w')"
  shows "spdyPool p' = Map.empty"
proof (rule ext)
  fix k
  show "spdyPool p' k = None"
    using closePool_keys [OF assms(2), of k] range_of_set [OF assms(1)] by (auto split: if_splits)
qed

lemma pool_inv_dialEntry:
  assumes "pool_inv p H P C" "spdyPool p k = None" "dialEntry sp k tr u p w = (r, p', w')"
  shows "case r of Inl err \<Rightarrow> p' = p | Inr e \<Rightarrow>
    size H + 1 < 2 ^ 31 \<longrightarrow> pool_inv p' (add_mset (k, e) H) P C"
  using assms pool_inv_dial [OF assms(1,2)]
  by (auto simp: dialEntry_def split: prod.splits sum.splits)

lemma pool_inv_acquire:
  assumes inv: "pool_inv p H P C" and run: "acquirePoolEntry sp k tr u p w = (r, p', w')"
  shows "case r of Inl err \<Rightarrow> pool_inv p' H P C | Inr e \<Rightarrow>
    size H + 1 < 2 ^ 31 \<longrightarrow> pool_inv p' (add_mset (k, e) H) P C"
proof (cases "spdyPool p k")
  case None
  with run have "dialEntry sp k tr u p w = (r, p', w')" by (simp add: acquirePoolEntry_def)
  from pool_inv_dialEntry [OF inv None this] inv show ?thesis by (auto split: sum.splits)
next
  case (Some e)
  let ?p = "p\<lparr>spdyPool := (spdyPool p)(k := None)\<rparr>"
  show ?thesis
  proof (cases "CloseChan_closed sp (conn (entry_at p e)) w")
    case True
    with run Some have "dialEntry sp k tr u ?p w = (r, p', w')" by (simp add: acquirePoolEntry_def)
    from pool_inv_dialEntry [OF pool_inv_forget [OF inv] _ this] pool_inv_forget [OF inv, of k]
    show ?thesis by (auto split: sum.splits)
  next
    case False
    with run Some pool_inv_reuse [OF inv Some] show ?thesis
      by (auto simp: acquirePoolEntry_def)
  qed
qed

lemma createStreams_pool:
  "createStreams sp e portStr p w = (res, p', w') \<Longrightarrow> p' = upd_entry e (\<lambda>x. x\<lparr>nextID := nextID x + 1\<rparr>) p"
  by (auto simp: createStreams_def Let_def split: prod.splits sum.splits)

definition sys_inv :: "('c, 'w) pool_sys \<Rightarrow> bool" where
  "sys_inv s = pool_inv (sys_pool s) (holders s) (pending s) (closing s)"

lemma sys_inv_step:
  assumes "sys_inv s" "pool_step sp s s'"
  shows "sys_inv s'"
  using assms(2,1) unfolding sys_inv_def
proof (induction rule: pool_step.induct)
  case (acquire s k tr u e p' w')
  with pool_inv_acquire [OF acquire.prems acquire.hyps(2)] show ?case by simp
next
  case (acquire_fail k tr u s err p' w')
  with pool_inv_acquire [OF acquire_fail.prems acquire_fail.hyps(1)] show ?case by simp
next
  case (streams k e s portStr res p' w')
  with createStreams_pool [OF streams.hyps(2)] show ?case by (simp add: pool_inv_upd)
next
  case (stale k e s)
  then show ?case by (simp add: pool_inv_stale)
next
  case (release k e s zero p')
  with pool_inv_drop [OF release.prems release.hyps(1,2) refl] show ?case by simp
next
  case (evict k e s close p')
  with pool_inv_evict [OF evict.prems evict.hyps(1,2) refl] show ?case by simp
next
  case (close e s)
  then show ?case by (simp add: pool_inv_closed)
next
  case (shutdown ks s sel p' w')
  with pool_inv_closePool [OF shutdown.prems shutdown.hyps(2)] show ?case by simp
qed simp_all

lemma sys_inv_init: "pool_init s \<Longrightarrow> sys_inv s"
  by (simp add: pool_init_def sys_inv_def pool_inv_def emptyPool_def)

lemma sys_inv_reachable: "reachable pool_init (pool_step sp) s \<Longrightarrow> sys_inv s"
  by (erule reachable_invariant) (simp_all add: sys_inv_init sys_inv_step)

lemma sys_inv_refs:
  assumes "sys_inv s" "spdyPool (sys_pool s) k = Some e"
  shows "unat (refs (entry_at (sys_pool s) e)) = size (filter_mset (\<lambda>h. h = (k, e)) (holders s))"
proof -
  have c: "counted (sys_pool s) (holders s) (pending s) (closing s) k e"
    using pool_invD(5) [OF assms(1) [unfolded sys_inv_def] assms(2)] .
  have "unat (of_nat (users e (holders s)) :: uint32) = users e (holders s)"
    using users_le [of e "holders s"] pool_invD(1) [OF assms(1) [unfolded sys_inv_def]]
    by (intro unat_of_nat32) simp
  moreover have "filter_mset (\<lambda>x. snd x = e) (holders s) = filter_mset (\<lambda>h. h = (k, e)) (holders s)"
  proof (rule filter_mset_cong [OF refl])
    fix x assume "x \<in># holders s"
    then show "(snd x = e) = (x = (k, e))" using countedD(5) [OF c, of "fst x"] by (cases x) auto
  qed
  ultimately show ?thesis using countedD(2) [OF c] by (simp add: users_def)
qed

text \<open>The sequential operations are runs of the interleaved system.\<close>

definition moved :: "('c, 'w) pool_sys \<Rightarrow> 'c pool \<Rightarrow> 'w \<Rightarrow> (spdyKey \<times> nat) multiset \<Rightarrow> ('c, 'w) pool_sys" where
  "moved s p w H = \<lparr>sys_pool = p, sys_world = w, holders = H, pending = pending s,
     closing = closing s, killing = killing s\<rparr>"

lemma moved_simps [simp]:
  "sys_pool (moved s p w H) = p" "sys_world (moved s p w H) = w" "holders (moved s p w H) = H"
  "pending (moved s p w H) = pending s" "closing (moved s p w H) = closing s"
  "killing (moved s p w H) = killing s" "moved (moved s p w H) p' w' H' = moved s p' w' H'"
  by (simp_all add: moved_def)

lemma buildOnClose_run:
  assumes "(k, e) \<in># H" "buildOnClose sp k e p w = (p', w')"
  shows "(pool_step sp)\<^sup>*\<^sup>* (moved s p w H) (moved s p' w' (H - {#(k, e)#}))"
proof -
  obtain zero p1 where d: "onClose_drop e p = (zero, p1)" by fastforce
  let ?s1 = "(moved s p1 w (H - {#(k, e)#}))\<lparr>pending := (if zero then add_mset (k, e) (pending s) else pending s)\<rparr>"
  have 1: "pool_step sp (moved s p w H) ?s1"
    using release [of k e "moved s p w H" zero p1 sp] assms(1) d by (cases zero) (simp_all add: moved_def)
  show ?thesis
  proof (cases zero)
    case False
    with 1 assms(2) d show ?thesis by (auto simp: buildOnClose_def moved_def)
  next
    case True
    obtain cl p2 where e: "onClose_evict k e p1 = (cl, p2)" by fastforce
    let ?s2 = "(moved s p2 w (H - {#(k, e)#}))\<lparr>closing := (if cl then add_mset e (closing s) else closing s)\<rparr>"
    have 2: "pool_step sp ?s1 ?s2"
      using evict [of k e ?s1 cl p2 sp] True e by (cases cl) (simp_all add: moved_def)
    have 3: "(pool_step sp)\<^sup>*\<^sup>* ?s2 (moved s p' w' (H - {#(k, e)#}))"
    proof (cases cl)
      case True
      with close [of e ?s2 sp] assms(2) d e \<open>zero\<close> show ?thesis
        by (auto simp: buildOnClose_def moved_def intro!: r_into_rtranclp)
    next
      case False
      with assms(2) d e \<open>zero\<close> show ?thesis by (auto simp: buildOnClose_def moved_def)
    qed
    from 1 2 3 show ?thesis by (meson converse_rtranclp_into_rtranclp)
  qed
qed

lemma acquire_run:
  assumes "size H + 1 < 2 ^ 31" "acquirePoolEntry sp k tr u p w = (r, p', w')"
  shows "pool_step sp (moved s p w H) (moved s p' w' (case r of Inl _ \<Rightarrow> H | Inr e \<Rightarrow> add_mset (k, e) H))"
  using assms acquire [of "moved s p w H" sp k tr u _ p' w'] acquire_fail [of sp k tr u "moved s p w H" _ p' w']
  by (cases r) (simp_all add: moved_def)

lemma streams_run:
  assumes "(k, e) \<in># H" "createStreams sp e portStr p w = (res, p', w')"
  shows "pool_step sp (moved s p w H) (moved s p' w' H)"
  using streams [of k e "moved s p w H" sp portStr res p' w'] assms by (simp add: moved_def)

lemma stale_run:
  assumes "(k, e) \<in># H"
  shows "(pool_step sp)\<^sup>*\<^sup>* (moved s p w H) (moved s (evictStale k e p)
     (Conn_Close sp (conn (entry_at (evictStale k e p) e)) w) (H - {#(k, e)#}))"
proof -
  let ?s1 = "(moved s (evictStale k e p) w (H - {#(k, e)#}))\<lparr>killing := add_mset e (killing s)\<rparr>"
  have "pool_step sp (moved s p w H) ?s1"
    using stale [of k e "moved s p w H" sp] assms by (simp add: moved_def)
  moreover have "pool_step sp ?s1 (moved s (evictStale k e p)
     (Conn_Close sp (conn (entry_at (evictStale k e p) e)) w) (H - {#(k, e)#}))"
    using kill [of e ?s1 sp] by (simp add: moved_def)
  ultimately show ?thesis by (meson converse_rtranclp_into_rtranclp r_into_rtranclp)
qed

lemma openStreams_run:
  assumes "size H + 1 < 2 ^ 31" "openStreams sp k tr u portStr p w = (res, p', w')"
  shows "(pool_step sp)\<^sup>*\<^sup>* (moved s p w H)
    (moved s p' w' (case res of Inl _ \<Rightarrow> H | Inr c \<Rightarrow> add_mset (sc_onClose c) H))"
proof -
  note join = rtranclp_trans [of "pool_step sp"] and one = r_into_rtranclp [of "pool_step sp"]
  obtain r1 p1 w1 where a1: "acquirePoolEntry sp k tr u p w = (r1, p1, w1)" by (metis prod_cases3)
  note s1 = acquire_run [OF assms(1) a1, of s]
  show ?thesis
  proof (cases r1)
    case (Inl err)
    with assms(2) a1 s1 show ?thesis by (auto simp: openStreams_def)
  next
    case (Inr e)
    let ?H = "add_mset (k, e) H"
    obtain r2 p2 w2 where c1: "createStreams sp e portStr p1 w1 = (r2, p2, w2)" by (metis prod_cases3)
    have s2: "pool_step sp (moved s p1 w1 ?H) (moved s p2 w2 ?H)" by (rule streams_run [of k e, OF _ c1]) simp
    from s1 s2 Inr have s12: "(pool_step sp)\<^sup>*\<^sup>* (moved s p w H) (moved s p2 w2 ?H)"
      by (auto intro: join one)
    show ?thesis
    proof (cases r2)
      case (Inr ds)
      with assms(2) a1 c1 s12 \<open>r1 = Inr e\<close> show ?thesis
        by (cases ds) (auto simp: openStreams_def)
    next
      case (Inl err)
      let ?p3 = "evictStale k e p2" let ?w3 = "Conn_Close sp (conn (entry_at ?p3 e)) w2"
      have s3: "(pool_step sp)\<^sup>*\<^sup>* (moved s p w H) (moved s ?p3 ?w3 H)"
        using join [OF s12 stale_run [of k e ?H]] by simp
      obtain r4 p4 w4 where a2: "acquirePoolEntry sp k tr u ?p3 ?w3 = (r4, p4, w4)" by (metis prod_cases3)
      note s4 = join [OF s3 one [OF acquire_run [OF assms(1) a2]]]
      show ?thesis
      proof (cases r4)
        case (Inl err')
        with assms(2) a1 c1 a2 s4 \<open>r1 = Inr e\<close> \<open>r2 = Inl err\<close> show ?thesis
          by (auto simp: openStreams_def Let_def)
      next
        case (Inr e')
        let ?H' = "add_mset (k, e') H"
        obtain r5 p5 w5 where c2: "createStreams sp e' portStr p4 w4 = (r5, p5, w5)" by (metis prod_cases3)
        have "pool_step sp (moved s p4 w4 ?H') (moved s p5 w5 ?H')" by (rule streams_run [of k e', OF _ c2]) simp
        with s4 Inr have s5: "(pool_step sp)\<^sup>*\<^sup>* (moved s p w H) (moved s p5 w5 ?H')"
          by (auto intro: join one)
        obtain p6 w6 where b: "buildOnClose sp k e' p5 w5 = (p6, w6)" by fastforce
        have s6: "(pool_step sp)\<^sup>*\<^sup>* (moved s p w H) (moved s p6 w6 H)"
          using join [OF s5 buildOnClose_run [OF _ b]] by simp
        show ?thesis
          using assms(2) a1 c1 a2 c2 b s5 s6 \<open>r1 = Inr e\<close> \<open>r2 = Inl err\<close> Inr
          by (cases r5) (auto simp: openStreams_def Let_def)
      qed
    qed
  qed
qed

subsection \<open>Properties\<close>

lemma openStreams_key: "openStreams sp k tr u portStr p w = (Inr c, p', w') \<Longrightarrow> fst (sc_onClose c) = k"
  by (auto simp: openStreams_def Let_def split: prod.splits sum.splits)

text \<open>
  What goes over the wire. \<open>sent w\<close> is the set of requests made of the API server up to the world
  \<open>w\<close>: the addresses dialled and the streams opened, with the port the request header asks for.
  Dialling and creating a stream make such a request, whatever comes of it; closing makes none.
\<close>

datatype ('tr, 'c) wire_request = DialTo 'tr pfURL | OpenStream 'c string

text \<open>The requests for one URL and one port.\<close>

definition to_pod :: "'tr \<Rightarrow> pfURL \<Rightarrow> string \<Rightarrow> ('tr, 'c) wire_request set" where
  "to_pod tr u portStr = insert (DialTo tr u) (range (\<lambda>c. OpenStream c portStr))"

locale spdy_traffic =
  fixes sp :: "('rc, 'tr, 'c, 'st, 'w) spdy" and sent :: "'w \<Rightarrow> ('tr, 'c) wire_request set"
  assumes dial_sent: "Dial sp tr u w = (r, w') \<Longrightarrow> sent w' = insert (DialTo tr u) (sent w)"
    and stream_sent: "CreateStream sp c h w = (q, w') \<Longrightarrow> sent w' = insert (OpenStream c (hdr_Port h)) (sent w)"
    and close_silent: "sent (Conn_Close sp c w) = sent w"
    and reset_silent: "sent (Stream_Reset sp st w) = sent w"
begin

lemma acquire_sent:
  "acquirePoolEntry sp k tr u p w = (r, p', w') \<Longrightarrow> sent w \<subseteq> sent w' \<and> sent w' \<subseteq> insert (DialTo tr u) (sent w)"
  by (auto simp: acquirePoolEntry_def dialEntry_def dest!: dial_sent split: option.splits prod.splits sum.splits if_splits)

lemma create_sent:
  assumes "createStreams sp e portStr p w = (r, p', w')"
  shows "sent w \<subseteq> sent w'" "sent w' \<subseteq> insert (OpenStream (conn (entry_at p' e)) portStr) (sent w)"
    "r = Inr ds \<Longrightarrow> OpenStream (conn (entry_at p' e)) portStr \<in> sent w'"
  using assms
  by (auto simp: createStreams_def Let_def reset_silent dest!: stream_sent split: prod.splits sum.splits)

lemma onClose_sent: "buildOnClose sp k e p w = (p', w') \<Longrightarrow> sent w' = sent w"
  by (auto simp: buildOnClose_def Let_def close_silent split: prod.splits if_splits)

lemma openStreams_sent:
  assumes "openStreams sp k tr u portStr p w = (r, p', w')"
  shows "sent w' \<subseteq> sent w \<union> to_pod tr u portStr"
    "r = Inr c \<Longrightarrow> OpenStream (conn (entry_at p' (snd (sc_onClose c)))) portStr \<in> sent w'"
proof -
  obtain a p1 w1 where A: "acquirePoolEntry sp k tr u p w = (a, p1, w1)" by (metis prod_cases3)
  note a = acquire_sent [OF A]
  have goal: "sent w' \<subseteq> sent w \<union> to_pod tr u portStr \<and>
    (\<forall>c. r = Inr c \<longrightarrow> OpenStream (conn (entry_at p' (snd (sc_onClose c)))) portStr \<in> sent w')"
  proof (cases a)
    case (Inl err)
    with assms A a show ?thesis by (auto simp: openStreams_def to_pod_def)
  next
    case (Inr e)
    obtain q p2 w2 where C: "createStreams sp e portStr p1 w1 = (q, p2, w2)" by (metis prod_cases3)
    note c = create_sent [OF C]
    show ?thesis
    proof (cases q)
      case (Inr ds)
      with assms A \<open>a = Inr e\<close> C c(2,3) a show ?thesis
        by (auto simp: openStreams_def to_pod_def split: prod.splits)
    next
      case (Inl err)
      let ?p3 = "evictStale k e p2" and ?w3 = "Conn_Close sp (conn (entry_at (evictStale k e p2) e)) w2"
      obtain a' p4 w4 where A': "acquirePoolEntry sp k tr u ?p3 ?w3 = (a', p4, w4)" by (metis prod_cases3)
      note a' = acquire_sent [OF A', unfolded close_silent]
      have to4: "sent w4 \<subseteq> sent w \<union> to_pod tr u portStr" using a a' c(2) by (auto simp: to_pod_def)
      show ?thesis
      proof (cases a')
        case (Inl err')
        with assms A \<open>a = Inr e\<close> C \<open>q = Inl err\<close> A' to4 show ?thesis by (auto simp: openStreams_def Let_def)
      next
        case (Inr e')
        obtain q' p5 w5 where C': "createStreams sp e' portStr p4 w4 = (q', p5, w5)" by (metis prod_cases3)
        note c' = create_sent [OF C']
        have to5: "sent w5 \<subseteq> sent w \<union> to_pod tr u portStr" using to4 c'(2) by (auto simp: to_pod_def)
        have "r = Inl err' \<and> sent w' = sent w5" if "q' = Inl err'" for err'
          using assms A \<open>a = Inr e\<close> C \<open>q = Inl err\<close> A' Inr C' that onClose_sent
          by (fastforce simp: openStreams_def Let_def split: prod.splits)
        moreover have "r = Inr \<lparr>sc_data = fst ds, sc_errStr = snd ds, sc_onClose = (k, e')\<rparr> \<and> p' = p5 \<and> w' = w5"
          if "q' = Inr ds" for ds
          using assms A \<open>a = Inr e\<close> C \<open>q = Inl err\<close> A' Inr C' that
          by (auto simp: openStreams_def Let_def split: prod.splits)
        ultimately show ?thesis using to5 c'(3) by (cases q') auto
      qed
    qed
  qed
  then show "sent w' \<subseteq> sent w \<union> to_pod tr u portStr"
    "r = Inr c \<Longrightarrow> OpenStream (conn (entry_at p' (snd (sc_onClose c)))) portStr \<in> sent w'" by blast+
qed

end

text \<open>
  A concrete SPDY library: connections and streams are numbered, what is closed and what is sent is
  recorded. The world also records the sockets of the rest of the process that are closed.
\<close>

record tworld =
  tw_next :: nat
  tw_dead :: "nat list"
  tw_streams :: nat
  tw_shut :: "(string \<times> nat) list"
  tw_sent :: "(unit, nat) wire_request list"

definition demo_spdy :: "(string, unit, nat, nat, tworld) spdy" where
  "demo_spdy = \<lparr>rc_Host = (\<lambda>h. h), url_Parse = (\<lambda>h. Inr \<lparr>url_Host = h, url_Path = ''''\<rparr>),
     RoundTripperFor = (\<lambda>_. Inr ()),
     Dial = (\<lambda>tr u w. (Inr (tw_next w), w\<lparr>tw_next := tw_next w + 1, tw_sent := DialTo tr u # tw_sent w\<rparr>)),
     CloseChan_closed = (\<lambda>c w. c \<in> set (tw_dead w)),
     Conn_Close = (\<lambda>c w. w\<lparr>tw_dead := c # tw_dead w\<rparr>),
     CreateStream = (\<lambda>c h w. let w' = w\<lparr>tw_sent := OpenStream c (hdr_Port h) # tw_sent w\<rparr> in
       if c \<in> set (tw_dead w) then (Inl (Errorf ''closed''), w')
       else (Inr (tw_streams w), w'\<lparr>tw_streams := tw_streams w + 1\<rparr>)),
     Stream_Reset = (\<lambda>_ w. w)\<rparr>"

definition demo_key :: spdyKey where
  "demo_key = \<lparr>sk_contextName = ''east'', sk_namespace = ''prod'', sk_podName = ''web-1''\<rparr>"

definition demo_url :: pfURL where
  "demo_url = \<lparr>url_Host = ''https://api'', url_Path = ''/''\<rparr>"

definition tw0 :: tworld where
  "tw0 = \<lparr>tw_next = 0, tw_dead = [], tw_streams = 0, tw_shut = [], tw_sent = []\<rparr>"

interpretation demo_wire: spdy_traffic demo_spdy "\<lambda>w. set (tw_sent w)"
  by unfold_locales (auto simp: demo_spdy_def Let_def split: if_splits)

definition sys0 :: "(nat, tworld) pool_sys" where
  "sys0 = \<lparr>sys_pool = emptyPool, sys_world = tw0, holders = {#}, pending = {#}, closing = {#}, killing = {#}\<rparr>"

definition pool1 :: "int32 \<Rightarrow> (spdyKey \<rightharpoonup> nat) \<Rightarrow> nat pool" where
  "pool1 n m = \<lparr>spdyPool = m, pheap = [0 \<mapsto> \<lparr>conn = 0, nextID = 0, refs = n\<rparr>], palloc = 1\<rparr>"

definition sys1 :: "(nat, tworld) pool_sys" where
  "sys1 = sys0\<lparr>sys_pool := pool1 1 [demo_key \<mapsto> 0], sys_world := tw0\<lparr>tw_next := 1, tw_sent := [DialTo () demo_url]\<rparr>,
     holders := {#(demo_key, 0)#}\<rparr>"

definition sys2 :: "(nat, tworld) pool_sys" where
  "sys2 = sys1\<lparr>sys_pool := pool1 0 [demo_key \<mapsto> 0], holders := {#}, pending := {#(demo_key, 0)#}\<rparr>"

definition sys3 :: "(nat, tworld) pool_sys" where
  "sys3 = sys2\<lparr>sys_pool := pool1 0 Map.empty, pending := {#}, closing := {#0#}\<rparr>"

lemma sys1_reachable: "reachable pool_init (pool_step demo_spdy) sys1"
proof (rule reach_step [OF reach_init])
  show "pool_init sys0" by (simp add: sys0_def pool_init_def)
  have "acquirePoolEntry demo_spdy demo_key () demo_url emptyPool tw0 =
      (Inr 0, pool1 1 [demo_key \<mapsto> 0], tw0\<lparr>tw_next := 1, tw_sent := [DialTo () demo_url]\<rparr>)"
    by (simp add: acquirePoolEntry_def dialEntry_def emptyPool_def pool1_def demo_spdy_def tw0_def)
  then show "pool_step demo_spdy sys0 sys1"
    using acquire [of sys0 demo_spdy demo_key "()" demo_url 0 "pool1 1 [demo_key \<mapsto> 0]" "tw0\<lparr>tw_next := 1, tw_sent := [DialTo () demo_url]\<rparr>"]
    by (simp add: sys0_def sys1_def)
qed

lemma sys3_reachable: "reachable pool_init (pool_step demo_spdy) sys3"
proof (rule reach_step [OF reach_step [OF sys1_reachable]])
  have "onClose_drop 0 (pool1 1 [demo_key \<mapsto> 0]) = (True, pool1 0 [demo_key \<mapsto> 0])"
    by (simp add: onClose_drop_def pool1_def upd_entry_def entry_at_def)
  then show "pool_step demo_spdy sys1 sys2"
    using release [of demo_key 0 sys1 True "pool1 0 [demo_key \<mapsto> 0]" demo_spdy]
    by (simp add: sys0_def sys1_def sys2_def)
  have "onClose_evict demo_key 0 (pool1 0 [demo_key \<mapsto> 0]) = (True, pool1 0 Map.empty)"
    by (simp add: onClose_evict_def pool1_def entry_at_def)
  then show "pool_step demo_spdy sys2 sys3"
    using evict [of demo_key 0 sys2 True "pool1 0 Map.empty" demo_spdy]
    by (simp add: sys0_def sys1_def sys2_def sys3_def)
qed

text \<open>
  C2: no live stream is cut by the reference count. In every state that any interleaving of
  dials, stream creations, closes, evictions and shutdowns can reach, a connection that a
  callback of buildOnClose is about to close is out of the pool and nobody holds a reference to
  it, nor can anyone acquire one again.
\<close>

theorem last_close_is_safe:
  assumes "reachable pool_init (pool_step sp) s" "e \<in># closing s"
  shows "(\<forall>k. (k, e) \<notin># holders s) \<and> (\<forall>k. spdyPool (sys_pool s) k \<noteq> Some e)"
proof -
  have inv: "pool_inv (sys_pool s) (holders s) (pending s) (closing s)"
    using sys_inv_reachable [OF assms(1)] by (simp add: sys_inv_def)
  then have "users e (holders s) = 0" using pool_invD(4) assms(2) by blast
  moreover have "spdyPool (sys_pool s) k \<noteq> Some e" for k
    using pool_invD(5) [OF inv, of k e] assms(2) by (auto simp: counted_def)
  ultimately show ?thesis using users_0 [of e "holders s"] by auto
qed

theorem last_close_is_safe_witness: "(demo_key, 0) \<notin># holders sys3"
  using last_close_is_safe [OF sys3_reachable, of 0] by (simp add: sys3_def)

text \<open>
  C10: the count of a pooled entry is exact, and no connection is left behind. In every
  reachable state the refs of an entry in the pool is the number of references handed out for it
  under its key; when no callback is still waiting for the mutex, every entry in the pool is in
  use.
\<close>

theorem pool_refs_exact:
  assumes "reachable pool_init (pool_step sp) s" "spdyPool (sys_pool s) k = Some e"
  shows "unat (refs (entry_at (sys_pool s) e)) = size (filter_mset (\<lambda>h. h = (k, e)) (holders s)) \<and>
    (pending s = {#} \<longrightarrow> (k, e) \<in># holders s)"
proof
  note inv = sys_inv_reachable [OF assms(1)]
  show "unat (refs (entry_at (sys_pool s) e)) = size (filter_mset (\<lambda>h. h = (k, e)) (holders s))"
    by (rule sys_inv_refs [OF inv assms(2)])
  show "pending s = {#} \<longrightarrow> (k, e) \<in># holders s"
    using pool_invD(5) [OF inv [unfolded sys_inv_def] assms(2)] by (auto simp: counted_def)
qed

theorem pool_refs_exact_witness:
  "unat (refs (entry_at (sys_pool sys1) 0)) = size (filter_mset (\<lambda>h. h = (demo_key, 0)) (holders sys1))"
  using pool_refs_exact [OF sys1_reachable, of demo_key 0] by (simp add: sys1_def pool1_def)

text \<open>
  C12: opening streams with its retry, and closing a connection, are runs of the interleaved
  system. Opening ends with one reference more when it succeeds and with none when it fails on
  any path (the dial, the streams, the second dial, the second streams); closing returns
  exactly the reference of that connection.
\<close>

theorem open_close_references:
  assumes "reachable pool_init (pool_step sp) s" "size (holders s) + 1 < 2 ^ 31"
    and "openStreams sp k tr u portStr (sys_pool s) (sys_world s) = (res, p', w')"
    and "(streamConn_Close sp c (sys_pool s) (sys_world s)) = (p'', w'')"
  shows "reachable pool_init (pool_step sp) (s\<lparr>sys_pool := p', sys_world := w',
      holders := (case res of Inl _ \<Rightarrow> holders s | Inr c \<Rightarrow> add_mset (sc_onClose c) (holders s))\<rparr>) \<and>
    (sc_onClose c \<in># holders s \<longrightarrow>
      reachable pool_init (pool_step sp) (s\<lparr>sys_pool := p'', sys_world := w'',
        holders := holders s - {#sc_onClose c#}\<rparr>))"
proof (intro conjI impI)
  have eq: "moved s p w H = s\<lparr>sys_pool := p, sys_world := w, holders := H\<rparr>" for p w H
    by (cases s) (simp add: moved_def)
  have s: "moved s (sys_pool s) (sys_world s) (holders s) = s" by (simp add: moved_def)
  show "reachable pool_init (pool_step sp) (s\<lparr>sys_pool := p', sys_world := w',
        holders := (case res of Inl _ \<Rightarrow> holders s | Inr c \<Rightarrow> add_mset (sc_onClose c) (holders s))\<rparr>)"
    using openStreams_run [OF assms(2,3), of s, unfolded s] unfolding eq by (rule reachable_steps [OF assms(1)])
  assume c: "sc_onClose c \<in># holders s"
  let ?w = "Stream_Reset sp (sc_errStr c) (Stream_Reset sp (sc_data c) (sys_world s))"
  have "pool_step sp s (moved s (sys_pool s) ?w (holders s))"
    using world [of sp s ?w] by (cases s) (simp add: moved_def)
  moreover have "(pool_step sp)\<^sup>*\<^sup>* (moved s (sys_pool s) ?w (holders s)) (moved s p'' w'' (holders s - {#sc_onClose c#}))"
    using buildOnClose_run [of "fst (sc_onClose c)" "snd (sc_onClose c)" "holders s" sp "sys_pool s" ?w p'' w'' s] assms(4) c
    by (simp add: streamConn_Close_def Let_def)
  ultimately have "(pool_step sp)\<^sup>*\<^sup>* s (moved s p'' w'' (holders s - {#sc_onClose c#}))"
    by (rule converse_rtranclp_into_rtranclp)
  then show "reachable pool_init (pool_step sp) (s\<lparr>sys_pool := p'', sys_world := w'',
        holders := holders s - {#sc_onClose c#}\<rparr>)"
    unfolding eq by (rule reachable_steps [OF assms(1)])
qed

theorem open_close_references_witness:
  "\<exists>p' w' c. openStreams demo_spdy demo_key () demo_url ''8080'' (sys_pool sys1) (sys_world sys1) = (Inr c, p', w') \<and>
     reachable pool_init (pool_step demo_spdy) (sys1\<lparr>sys_pool := p', sys_world := w',
       holders := {#(demo_key, 0), (demo_key, 0)#}\<rparr>)"
proof -
  let ?c = "\<lparr>sc_data = 1, sc_errStr = 0, sc_onClose = (demo_key, 0)\<rparr> :: nat streamConn"
  obtain p' w' where o: "openStreams demo_spdy demo_key () demo_url ''8080'' (sys_pool sys1) (sys_world sys1) =
      (Inr ?c, p', w')"
    by (simp add: openStreams_def acquirePoolEntry_def createStreams_def sys1_def sys0_def pool1_def
        demo_spdy_def tw0_def entry_at_def upd_entry_def Let_def)
  obtain p'' w'' where c: "streamConn_Close demo_spdy ?c (sys_pool sys1) (sys_world sys1) = (p'', w'')"
    by fastforce
  show ?thesis
    using conjunct1 [OF open_close_references [OF sys1_reachable _ o c]] o by (auto simp: sys1_def sys0_def)
qed


definition demo_dial where
  "demo_dial = DialPortForward demo_spdy demo_api (\<lambda>n. 0) 0 5 demo_mgr '''' ''prod'' ''web'' '''' 80
     (NewResolver 30) emptyPool tw0"

lemma demo_dial_ok: "\<exists>c. fst demo_dial = Some (Inr c)"
  by (simp add: demo_dial_def DialPortForward_def CurrentContextName_def clientForContext_def Let_def
      demo_resolve_east [unfolded demo_mgr_def] demo_mgr_def PickEndpoint_def FindPort_def demo_svc_def
      openStreams_def acquirePoolEntry_def dialEntry_def emptyPool_def createStreams_def
      entry_at_def upd_entry_def demo_spdy_def tw0_def)


end
