(* ===== verification/Forward_Manager.thy ===== *)
theory Forward_Manager
  imports Spdy_Pool Vip_Allocator
begin

text \<open>
  The listeners on the virtual addresses and their idle expiry
  (\<^verbatim>\<open>internal/k8s/forward_manager.go\<close>, all of it but the pool of SPDY connections).

  A vipState is shared by pointer between the map \<open>vipStates\<close> and the handlers of the connections,
  which keep it after it has left the map: states live in the heap \<open>vheap\<close> and are named by
  addresses. \<open>armed\<close> are the timers of the Go runtime: the instant a timer is due and the
  arguments of the expireVIP call its callback makes. Stopping a timer takes it out of \<open>armed\<close>; a
  timer that has fired is out of it too and its callback runs whatever happens later. \<open>cancelled\<close>
  are the accept-loop contexts that were cancelled. Listening and closing a listener are the
  parameter \<open>io\<close> over the world \<open>'w\<close>; the VIPReleaser is the parameter \<open>rel\<close> over its own state
  \<open>'v\<close>.

  Every critical section is one definition; StartForward, expireVIP, ShutdownContext and Shutdown
  are composed of them. \<open>fm_step\<close> interleaves the critical sections of any number of goroutines.
  The locale \<open>sockets\<close> shows what the two shutdowns close when a close call takes its socket away.
\<close>

record forwardKey =
  fk_contextName :: string
  fk_vipAddr :: string
  fk_svcPort :: int32

record 'l forwardEntry =
  listener :: 'l
  cancel :: nat

record vipState =
  timer :: "nat option"
  generation :: uint64
  activeConns :: int32
  forwardKeys :: "forwardKey list"

record 'l forwardManager =
  vipReleaser :: bool
  idleTimeout :: int
  entries :: "forwardKey \<rightharpoonup> 'l forwardEntry"
  vipStates :: "string \<rightharpoonup> nat"
  vheap :: "nat \<Rightarrow> vipState option"
  valloc :: nat
  armed :: "nat \<rightharpoonup> int \<times> string \<times> uint64"
  talloc :: nat
  cancelled :: "nat set"
  calloc :: nat

record ('l, 'w) netio =
  Listen :: "string \<Rightarrow> 'w \<Rightarrow> (goerr + 'l) \<times> 'w"
  Listener_Close :: "'l \<Rightarrow> 'w \<Rightarrow> 'w"

definition forwardKey_String :: "forwardKey \<Rightarrow> string" where
  "forwardKey_String k = fk_contextName k @ ''/'' @ fk_vipAddr k @ '':'' @ dec_int (sint (fk_svcPort k))"

definition NewForwardManager :: "bool \<Rightarrow> int \<Rightarrow> 'l forwardManager" where
  "NewForwardManager rel idle = \<lparr>vipReleaser = rel, idleTimeout = idle, entries = Map.empty,
     vipStates = Map.empty, vheap = (\<lambda>_. None), valloc = 0, armed = Map.empty, talloc = 0,
     cancelled = {}, calloc = 0\<rparr>"

definition state_at :: "'l forwardManager \<Rightarrow> nat \<Rightarrow> vipState" where
  "state_at m a = the (vheap m a)"

definition put_state :: "nat \<Rightarrow> vipState \<Rightarrow> 'l forwardManager \<Rightarrow> 'l forwardManager" where
  "put_state a st m = m\<lparr>vheap := (vheap m)(a \<mapsto> st)\<rparr>"

text \<open>\<^verbatim>\<open>if state.timer != nil { state.timer.Stop() }\<close>\<close>

definition stopTimer :: "nat \<Rightarrow> 'l forwardManager \<Rightarrow> 'l forwardManager" where
  "stopTimer a m =
     (case timer (state_at m a) of
        None \<Rightarrow> m
      | Some t \<Rightarrow> m\<lparr>armed := (armed m)(t := None)\<rparr>)"

text \<open>Advancing the generation and arming a new timer for it.\<close>

definition rearm :: "int \<Rightarrow> string \<Rightarrow> nat \<Rightarrow> 'l forwardManager \<Rightarrow> 'l forwardManager" where
  "rearm now vipAddr a m =
     (let st = state_at m a; gen = generation st + 1; t = talloc m
      in (put_state a (st\<lparr>generation := gen, timer := Some t\<rparr>) m)
           \<lparr>armed := (armed m)(t \<mapsto> (now + idleTimeout m, vipAddr, gen)), talloc := t + 1\<rparr>)"

definition touchVIPLocked :: "int \<Rightarrow> string \<Rightarrow> 'l forwardManager \<Rightarrow> 'l forwardManager" where
  "touchVIPLocked now vipAddr m =
     (if idleTimeout m = 0 \<or> \<not> vipReleaser m then m
      else case vipStates m vipAddr of
        None \<Rightarrow> m
      | Some a \<Rightarrow>
          (let m1 = stopTimer a m
           in if 0 < sint (activeConns (state_at m1 a)) then m1 else rearm now vipAddr a m1))"

definition TouchVIP :: "int \<Rightarrow> string \<Rightarrow> 'l forwardManager \<Rightarrow> 'l forwardManager" where
  "TouchVIP now vipAddr m = touchVIPLocked now vipAddr m"

text \<open>StartForward: the first critical section, the second one, and the whole.\<close>

definition start_check :: "int \<Rightarrow> forwardKey \<Rightarrow> 'l forwardManager \<Rightarrow> bool \<times> 'l forwardManager" where
  "start_check now key m =
     (case entries m key of
        Some _ \<Rightarrow> (True, touchVIPLocked now (fk_vipAddr key) m)
      | None \<Rightarrow> (False, m))"

definition start_commit ::
  "int \<Rightarrow> forwardKey \<Rightarrow> 'l forwardEntry \<Rightarrow> 'l forwardManager \<Rightarrow> bool \<times> 'l forwardManager" where
  "start_commit now key entry m =
     (case entries m key of
        Some _ \<Rightarrow> (True, touchVIPLocked now (fk_vipAddr key) m)
      | None \<Rightarrow>
          (let m1 = m\<lparr>entries := (entries m)(key \<mapsto> entry)\<rparr>
           in if 0 < idleTimeout m1 \<and> vipReleaser m1
              then
                (let m2 = (case vipStates m1 (fk_vipAddr key) of
                     Some a \<Rightarrow>
                       (let st = state_at m1 a
                        in put_state a (st\<lparr>forwardKeys := forwardKeys st @ [key]\<rparr>) m1)
                   | None \<Rightarrow>
                       (put_state (valloc m1)
                          \<lparr>timer = None, generation = 0, activeConns = 0, forwardKeys = [key]\<rparr> m1)
                         \<lparr>vipStates := (vipStates m1)(fk_vipAddr key \<mapsto> valloc m1),
                          valloc := valloc m1 + 1\<rparr>)
                 in (False, touchVIPLocked now (fk_vipAddr key) m2))
              else (False, m1)))"

definition new_context :: "'l forwardManager \<Rightarrow> nat \<times> 'l forwardManager" where
  "new_context m = (calloc m, m\<lparr>calloc := calloc m + 1\<rparr>)"

definition cancel_entry ::
  "('l, 'w) netio \<Rightarrow> 'l forwardEntry \<Rightarrow> 'l forwardManager \<Rightarrow> 'w \<Rightarrow> 'l forwardManager \<times> 'w" where
  "cancel_entry io entry m w =
     (m\<lparr>cancelled := insert (cancel entry) (cancelled m)\<rparr>, Listener_Close io (listener entry) w)"

definition StartForward ::
  "('l, 'w) netio \<Rightarrow> int \<Rightarrow> int \<Rightarrow> ('o, 'rc, 'cs) clientManager \<Rightarrow> string \<Rightarrow> string \<Rightarrow> int32 \<Rightarrow>
   'l forwardManager \<Rightarrow> 'w \<Rightarrow> goerr option \<times> 'l forwardManager \<times> 'w" where
  "StartForward io now now' cm ctx vipAddr svcPort m w =
     (let contextName = (if ctx = '''' then CurrentContextName cm else ctx);
          key = \<lparr>fk_contextName = contextName, fk_vipAddr = vipAddr, fk_svcPort = svcPort\<rparr>;
          addr = vipAddr @ '':'' @ dec_int (sint svcPort);
          (exists, m1) = start_check now key m
      in if exists then (None, m1, w)
         else case Listen io addr w of
           (Inl err, w1) \<Rightarrow> (Some (Wrapf (''listening on '' @ addr) err), m1, w1)
         | (Inr ln, w1) \<Rightarrow>
             (let (c, m2) = new_context m1;
                  entry = \<lparr>listener = ln, cancel = c\<rparr>;
                  (raced, m3) = start_commit now' key entry m2
              in if raced then (let (m4, w2) = cancel_entry io entry m3 w1 in (None, m4, w2))
                 else (None, m3, w1)))"

text \<open>
  expireVIP: the critical section, which says whether the VIP is to be released, and the whole.
\<close>

primrec expire_keys ::
  "('l, 'w) netio \<Rightarrow> forwardKey list \<Rightarrow> 'l forwardManager \<Rightarrow> 'w \<Rightarrow> 'l forwardManager \<times> 'w" where
  "expire_keys io [] m w = (m, w)"
| "expire_keys io (key # keys) m w =
     (case entries m key of
        None \<Rightarrow> expire_keys io keys m w
      | Some entry \<Rightarrow>
          (let (m1, w1) = cancel_entry io entry m w
           in expire_keys io keys (m1\<lparr>entries := (entries m1)(key := None)\<rparr>) w1))"

definition expire_locked ::
  "('l, 'w) netio \<Rightarrow> string \<Rightarrow> uint64 \<Rightarrow> 'l forwardManager \<Rightarrow> 'w \<Rightarrow> bool \<times> 'l forwardManager \<times> 'w" where
  "expire_locked io vipAddr gen m w =
     (case vipStates m vipAddr of
        None \<Rightarrow> (False, m, w)
      | Some a \<Rightarrow>
          if generation (state_at m a) \<noteq> gen \<or> 0 < sint (activeConns (state_at m a))
          then (False, m, w)
          else
            (let (m1, w1) = expire_keys io (forwardKeys (state_at m a)) m w
             in (True, m1\<lparr>vipStates := (vipStates m1)(vipAddr := None)\<rparr>, w1)))"

definition release_vip :: "(ip \<Rightarrow> 'v \<Rightarrow> goerr option \<times> 'v) \<Rightarrow> string \<Rightarrow> 'v \<Rightarrow> 'v" where
  "release_vip rel vipAddr v = (case ParseIP vipAddr of None \<Rightarrow> v | Some a \<Rightarrow> snd (rel a v))"

definition expireVIP ::
  "('l, 'w) netio \<Rightarrow> (ip \<Rightarrow> 'v \<Rightarrow> goerr option \<times> 'v) \<Rightarrow> string \<Rightarrow> uint64 \<Rightarrow>
   'l forwardManager \<Rightarrow> 'w \<Rightarrow> 'v \<Rightarrow> 'l forwardManager \<times> 'w \<times> 'v" where
  "expireVIP io rel vipAddr gen m w v =
     (let (expired, m1, w1) = expire_locked io vipAddr gen m w
      in (m1, w1, if expired then release_vip rel vipAddr v else v))"

text \<open>
  handleConn, as far as the manager's state is concerned: finding the state of the VIP, entering
  it, and leaving it when the connection is done.
\<close>

definition conn_lookup :: "string \<Rightarrow> 'l forwardManager \<Rightarrow> nat option" where
  "conn_lookup vipAddr m = (if 0 < idleTimeout m \<and> vipReleaser m then vipStates m vipAddr else None)"

definition conn_enter :: "nat \<Rightarrow> 'l forwardManager \<Rightarrow> 'l forwardManager" where
  "conn_enter a m =
     (let m1 = stopTimer a m; st = state_at m1 a
      in put_state a (st\<lparr>activeConns := activeConns st + 1\<rparr>) m1)"

definition conn_leave :: "int \<Rightarrow> string \<Rightarrow> nat \<Rightarrow> 'l forwardManager \<Rightarrow> 'l forwardManager" where
  "conn_leave now vipAddr a m =
     (let st = state_at m a; n = activeConns st - 1;
          m1 = put_state a (st\<lparr>activeConns := n\<rparr>) m
      in if n = 0 \<and> 0 < idleTimeout m1 then rearm now vipAddr a m1 else m1)"

text \<open>
  The whole handler of an accepted connection, without interleaving: closing the accepted
  connection and copying in both directions until both ends are done are the parameters
  \<open>closeConn\<close> and \<open>copyBoth\<close>. \<open>None\<close> is a panic of DialPortForward.
\<close>

definition handleConn ::
  "('rc, 'tr, 'c, 'st, 'w) spdy \<Rightarrow> 'cs kubeapi \<Rightarrow> (nat \<Rightarrow> nat) \<Rightarrow> int \<Rightarrow> int \<Rightarrow> int \<Rightarrow>
   ('o, 'rc, 'cs) clientManager \<Rightarrow> ('w \<Rightarrow> 'w) \<Rightarrow> ('st streamConn \<Rightarrow> 'w \<Rightarrow> 'w) \<Rightarrow>
   string \<Rightarrow> string \<Rightarrow> int32 \<Rightarrow> string \<Rightarrow> string \<Rightarrow> string \<Rightarrow>
   'l forwardManager \<Rightarrow> resolver \<Rightarrow> 'c pool \<Rightarrow> 'w \<Rightarrow>
   ('l forwardManager \<times> resolver \<times> 'c pool \<times> 'w) option" where
  "handleConn sp api intn t0 t1 t2 cm closeConn copyBoth ctx vipAddr svcPort namespace svcName podName m r p w =
     (let connState = conn_lookup vipAddr m;
          m1 = (case connState of None \<Rightarrow> m | Some a \<Rightarrow> conn_enter a m);
          leave = (\<lambda>m. case connState of None \<Rightarrow> m | Some a \<Rightarrow> conn_leave t2 vipAddr a m)
      in case DialPortForward sp api intn t0 t1 cm ctx namespace svcName podName svcPort r p w of
        (None, _) \<Rightarrow> None
      | (Some (Inl err), r1, p1, w1) \<Rightarrow> Some (leave m1, r1, p1, closeConn w1)
      | (Some (Inr pfConn), r1, p1, w1) \<Rightarrow>
          (let w2 = copyBoth pfConn w1; (p2, w3) = streamConn_Close sp pfConn p1 w2
           in Some (leave m1, r1, p2, closeConn w3)))"

text \<open>
  The accept loop on a sequence of results of Accept, each error with whether the loop's context
  was cancelled by then: the connections it dispatches and how it ended (\<open>None\<close>: still waiting;
  \<open>Some warned\<close>: it returned, having logged a warning or not, and closed the listener).
\<close>

datatype 'conn accept = Accepted 'conn | AcceptErr goerr bool

fun listenLoop :: "'conn accept list \<Rightarrow> 'conn list \<times> bool option" where
  "listenLoop [] = ([], None)"
| "listenLoop (Accepted c # rest) = (let (cs, e) = listenLoop rest in (c # cs, e))"
| "listenLoop (AcceptErr err ctxDone # rest) = ([], Some (\<not> ctxDone))"

subsection \<open>Shutting down\<close>

primrec close_context ::
  "('l, 'w) netio \<Rightarrow> string \<Rightarrow> forwardKey list \<Rightarrow> (string \<rightharpoonup> ip) \<Rightarrow> 'l forwardManager \<Rightarrow> 'w \<Rightarrow>
   (string \<rightharpoonup> ip) \<times> 'l forwardManager \<times> 'w" where
  "close_context io ctx [] u m w = (u, m, w)"
| "close_context io ctx (key # keys) u m w =
     (case entries m key of
        None \<Rightarrow> close_context io ctx keys u m w
      | Some entry \<Rightarrow>
          if fk_contextName key \<noteq> ctx then close_context io ctx keys u m w
          else
            (let (m1, w1) = cancel_entry io entry m w;
                 m2 = m1\<lparr>entries := (entries m1)(key := None)\<rparr>;
                 u' = (case ParseIP (fk_vipAddr key) of None \<Rightarrow> u | Some a \<Rightarrow> u(fk_vipAddr key \<mapsto> a))
             in close_context io ctx keys u' m2 w1))"

definition drop_state :: "'l forwardManager \<Rightarrow> string \<Rightarrow> 'l forwardManager" where
  "drop_state m vipAddr =
     (case vipStates m vipAddr of
        None \<Rightarrow> m
      | Some a \<Rightarrow> (stopTimer a m)\<lparr>vipStates := (vipStates m)(vipAddr := None)\<rparr>)"

definition shutdown_context_locked ::
  "('l, 'w) netio \<Rightarrow> map_order \<Rightarrow> forwardKey list \<Rightarrow> string \<Rightarrow> 'l forwardManager \<Rightarrow> 'w \<Rightarrow>
   (string \<rightharpoonup> ip) \<times> 'l forwardManager \<times> 'w" where
  "shutdown_context_locked io ord ks ctx m w =
     (let (u, m1, w1) = close_context io ctx ks Map.empty m w
      in (u, foldl drop_state m1 (ord (dom u)), w1))"

definition release_all ::
  "(ip \<Rightarrow> 'v \<Rightarrow> goerr option \<times> 'v) \<Rightarrow> (string \<rightharpoonup> ip) \<Rightarrow> string list \<Rightarrow> 'v \<Rightarrow> 'v" where
  "release_all rel u vs v =
     foldl (\<lambda>v vip. case u vip of None \<Rightarrow> v | Some a \<Rightarrow> snd (rel a v)) v vs"

definition ShutdownContext ::
  "('l, 'w) netio \<Rightarrow> ('rc, 'tr, 'c, 'st, 'w) spdy \<Rightarrow> (ip \<Rightarrow> 'v \<Rightarrow> goerr option \<times> 'v) \<Rightarrow> map_order \<Rightarrow>
   forwardKey list \<Rightarrow> spdyKey list \<Rightarrow> string \<Rightarrow> 'l forwardManager \<Rightarrow> 'c pool \<Rightarrow> 'w \<Rightarrow> 'v \<Rightarrow>
   'l forwardManager \<times> 'c pool \<times> 'w \<times> 'v" where
  "ShutdownContext io sp rel ord ks ps contextName m p w v =
     (let (u, m1, w1) = shutdown_context_locked io ord ks contextName m w;
          v1 = (if vipReleaser m then release_all rel u (ord (dom u)) v else v);
          (p1, w2) = closePool sp (\<lambda>k. sk_contextName k = contextName) ps p w1
      in (m1, p1, w2, v1))"

definition shutdown_locked ::
  "('l, 'w) netio \<Rightarrow> map_order \<Rightarrow> forwardKey list \<Rightarrow> 'l forwardManager \<Rightarrow> 'w \<Rightarrow> 'l forwardManager \<times> 'w" where
  "shutdown_locked io ord ks m w =
     (let (m1, w1) = expire_keys io ks m w;
          m2 = foldl (\<lambda>m vip. case vipStates m vip of None \<Rightarrow> m | Some a \<Rightarrow> stopTimer a m) m1
                 (ord (dom (vipStates m1)))
      in (m2\<lparr>vipStates := Map.empty\<rparr>, w1))"

definition Shutdown ::
  "('l, 'w) netio \<Rightarrow> ('rc, 'tr, 'c, 'st, 'w) spdy \<Rightarrow> map_order \<Rightarrow> forwardKey list \<Rightarrow> spdyKey list \<Rightarrow>
   'l forwardManager \<Rightarrow> 'c pool \<Rightarrow> 'w \<Rightarrow> 'l forwardManager \<times> 'c pool \<times> 'w" where
  "Shutdown io sp ord ks ps m p w =
     (let (m1, w1) = shutdown_locked io ord ks m w;
          (p1, w2) = closePool sp (\<lambda>_. True) ps p w1
      in (m1, p1, w2))"

subsection \<open>Interleavings\<close>

text \<open>
  The manager as goroutines see it. \<open>starting\<close> are the calls of StartForward that hold a bound
  listener and have not committed it; \<open>entering\<close> the handlers that have found a state and not yet
  entered it; \<open>serving\<close> those that have; \<open>fired\<close> the callbacks of timers that have gone off and
  not taken the mutex; \<open>releasing\<close> the addresses taken out of the manager and not yet handed to
  the releaser. A \<open>tick\<close> lets time pass, in which the rest of the process may do anything to the
  world and to the allocator.
\<close>

record ('l, 'w, 'v) fm_sys =
  mgr :: "'l forwardManager"
  fworld :: 'w
  vips :: 'v
  clock :: int
  starting :: "(forwardKey \<times> 'l forwardEntry) multiset"
  entering :: "(nat \<times> string) multiset"
  serving :: "(nat \<times> string) multiset"
  fired :: "(string \<times> uint64) multiset"
  releasing :: "string multiset"

definition fm_init :: "bool \<Rightarrow> int \<Rightarrow> ('l, 'w, 'v) fm_sys \<Rightarrow> bool" where
  "fm_init rel idle s \<longleftrightarrow> mgr s = NewForwardManager rel idle \<and> starting s = {#} \<and> entering s = {#} \<and>
     serving s = {#} \<and> fired s = {#} \<and> releasing s = {#}"

inductive fm_step ::
  "('l, 'w) netio \<Rightarrow> (ip \<Rightarrow> 'v \<Rightarrow> goerr option \<times> 'v) \<Rightarrow> map_order \<Rightarrow>
   ('l, 'w, 'v) fm_sys \<Rightarrow> ('l, 'w, 'v) fm_sys \<Rightarrow> bool"
  for io :: "('l, 'w) netio" and rel :: "ip \<Rightarrow> 'v \<Rightarrow> goerr option \<times> 'v" and ord :: map_order where
  tick: "clock s \<le> t \<Longrightarrow> fm_step io rel ord s (s\<lparr>clock := t, fworld := w', vips := v'\<rparr>)"
| start_hit: "start_check (clock s) key (mgr s) = (True, m') \<Longrightarrow> fm_step io rel ord s (s\<lparr>mgr := m'\<rparr>)"
| start_listen: "Listen io addr (fworld s) = (Inr ln, w') \<Longrightarrow> new_context (mgr s) = (c, m') \<Longrightarrow>
    fm_step io rel ord s (s\<lparr>mgr := m', fworld := w',
      starting := add_mset (key, \<lparr>listener = ln, cancel = c\<rparr>) (starting s)\<rparr>)"
| commit: "(key, entry) \<in># starting s \<Longrightarrow> start_commit (clock s) key entry (mgr s) = (False, m') \<Longrightarrow>
    fm_step io rel ord s (s\<lparr>mgr := m', starting := starting s - {#(key, entry)#}\<rparr>)"
| commit_raced: "(key, entry) \<in># starting s \<Longrightarrow> start_commit (clock s) key entry (mgr s) = (True, m1) \<Longrightarrow>
    cancel_entry io entry m1 (fworld s) = (m', w') \<Longrightarrow>
    fm_step io rel ord s (s\<lparr>mgr := m', fworld := w', starting := starting s - {#(key, entry)#}\<rparr>)"
| touch: "fm_step io rel ord s (s\<lparr>mgr := TouchVIP (clock s) vip (mgr s)\<rparr>)"
| lookup: "conn_lookup vip (mgr s) = Some a \<Longrightarrow>
    fm_step io rel ord s (s\<lparr>entering := add_mset (a, vip) (entering s)\<rparr>)"
| enter: "size (serving s) + 1 < 2 ^ 31 \<Longrightarrow> (a, vip) \<in># entering s \<Longrightarrow>
    fm_step io rel ord s (s\<lparr>mgr := conn_enter a (mgr s), entering := entering s - {#(a, vip)#},
      serving := add_mset (a, vip) (serving s)\<rparr>)"
| leave: "(a, vip) \<in># serving s \<Longrightarrow>
    fm_step io rel ord s (s\<lparr>mgr := conn_leave (clock s) vip a (mgr s),
      serving := serving s - {#(a, vip)#}\<rparr>)"
| fire: "armed (mgr s) t = Some (due, vip, gen) \<Longrightarrow> due \<le> clock s \<Longrightarrow>
    fm_step io rel ord s (s\<lparr>mgr := (mgr s)\<lparr>armed := (armed (mgr s))(t := None)\<rparr>,
      fired := add_mset (vip, gen) (fired s)\<rparr>)"
| expire: "(vip, gen) \<in># fired s \<Longrightarrow> expire_locked io vip gen (mgr s) (fworld s) = (expired, m', w') \<Longrightarrow>
    fm_step io rel ord s (s\<lparr>mgr := m', fworld := w', fired := fired s - {#(vip, gen)#},
      releasing := (if expired then add_mset vip (releasing s) else releasing s)\<rparr>)"
| release: "vip \<in># releasing s \<Longrightarrow>
    fm_step io rel ord s (s\<lparr>vips := release_vip rel vip (vips s), releasing := releasing s - {#vip#}\<rparr>)"
| shutdown_context: "range_of ks (entries (mgr s)) \<Longrightarrow>
    shutdown_context_locked io ord ks ctx (mgr s) (fworld s) = (u, m', w') \<Longrightarrow>
    fm_step io rel ord s (s\<lparr>mgr := m', fworld := w',
      releasing := releasing s + (if vipReleaser m' then mset (ord (dom u)) else {#})\<rparr>)"
| shutdown: "range_of ks (entries (mgr s)) \<Longrightarrow>
    shutdown_locked io ord ks (mgr s) (fworld s) = (m', w') \<Longrightarrow>
    fm_step io rel ord s (s\<lparr>mgr := m', fworld := w'\<rparr>)"

subsection \<open>The invariant\<close>

definition conns :: "nat \<Rightarrow> (nat \<times> string) multiset \<Rightarrow> nat" where
  "conns a S = size (filter_mset (\<lambda>x. fst x = a) S)"

text \<open>The timer of the state \<open>a\<close> of a VIP will expire it, or its callback is on its way.\<close>

definition ticking :: "'l forwardManager \<Rightarrow> (string \<times> uint64) multiset \<Rightarrow> string \<Rightarrow> nat \<Rightarrow> bool" where
  "ticking m F vip a \<longleftrightarrow>
     (\<exists>t due. timer (state_at m a) = Some t \<and> armed m t = Some (due, vip, generation (state_at m a))) \<or>
     (vip, generation (state_at m a)) \<in># F"

text \<open>
  The invariant of the idle expiry. \<open>X\<close> is the set of states whose timer is being changed: between
  critical sections it is empty.
\<close>

definition fm_inv ::
  "nat set \<Rightarrow> 'l forwardManager \<Rightarrow> (nat \<times> string) multiset \<Rightarrow> (nat \<times> string) multiset \<Rightarrow>
   (string \<times> uint64) multiset \<Rightarrow> int \<Rightarrow> bool" where
  "fm_inv X m E S F now \<longleftrightarrow>
     size S < 2 ^ 31 \<and>
     (\<forall>a. vheap m a \<noteq> None \<longleftrightarrow> a < valloc m) \<and>
     (\<forall>a vip. (a, vip) \<in># E + S \<longrightarrow> a < valloc m \<and> (\<forall>vip'. vipStates m vip' = Some a \<longrightarrow> vip' = vip)) \<and>
     (\<forall>a < valloc m. activeConns (state_at m a) = of_nat (conns a S)) \<and>
     (\<forall>a < valloc m. \<forall>t. timer (state_at m a) = Some t \<longrightarrow> t < talloc m) \<and>
     (\<forall>a < valloc m. \<forall>b < valloc m. \<forall>t. timer (state_at m a) = Some t \<and> timer (state_at m b) = Some t \<longrightarrow> a = b) \<and>
     (\<forall>t x. armed m t = Some x \<longrightarrow> t < talloc m \<and> fst x \<le> now + idleTimeout m) \<and>
     (\<forall>vip a. vipStates m vip = Some a \<longrightarrow>
        a < valloc m \<and> (\<forall>vip'. vipStates m vip' = Some a \<longrightarrow> vip' = vip) \<and>
        (a \<notin> X \<and> conns a S = 0 \<longrightarrow> ticking m F vip a) \<and> 0 < idleTimeout m \<and> vipReleaser m)"

lemma fm_invI:
  assumes "size S < 2 ^ 31" "\<And>a. vheap m a \<noteq> None \<longleftrightarrow> a < valloc m"
    "\<And>a vip. (a, vip) \<in># E + S \<Longrightarrow> a < valloc m"
    "\<And>a vip vip'. (a, vip) \<in># E + S \<Longrightarrow> vipStates m vip' = Some a \<Longrightarrow> vip' = vip"
    "\<And>a. a < valloc m \<Longrightarrow> activeConns (state_at m a) = of_nat (conns a S)"
    "\<And>a t. a < valloc m \<Longrightarrow> timer (state_at m a) = Some t \<Longrightarrow> t < talloc m"
    "\<And>a b t. a < valloc m \<Longrightarrow> b < valloc m \<Longrightarrow> timer (state_at m a) = Some t \<Longrightarrow>
       timer (state_at m b) = Some t \<Longrightarrow> a = b"
    "\<And>t x. armed m t = Some x \<Longrightarrow> t < talloc m"
    "\<And>t x. armed m t = Some x \<Longrightarrow> fst x \<le> now + idleTimeout m"
    "\<And>vip a. vipStates m vip = Some a \<Longrightarrow> a < valloc m"
    "\<And>vip vip' a. vipStates m vip = Some a \<Longrightarrow> vipStates m vip' = Some a \<Longrightarrow> vip' = vip"
    "\<And>vip a. vipStates m vip = Some a \<Longrightarrow> a \<notin> X \<Longrightarrow> conns a S = 0 \<Longrightarrow> ticking m F vip a"
    "\<And>vip a. vipStates m vip = Some a \<Longrightarrow> 0 < idleTimeout m \<and> vipReleaser m"
  shows "fm_inv X m E S F now"
  unfolding fm_inv_def
proof (intro conjI)
  show "\<forall>a. vheap m a \<noteq> None \<longleftrightarrow> a < valloc m" using assms(2) by blast
  show "\<forall>a vip. (a, vip) \<in># E + S \<longrightarrow> a < valloc m \<and> (\<forall>vip'. vipStates m vip' = Some a \<longrightarrow> vip' = vip)"
    using assms(3,4) by blast
  show "\<forall>a < valloc m. activeConns (state_at m a) = of_nat (conns a S)" using assms(5) by blast
  show "\<forall>a < valloc m. \<forall>t. timer (state_at m a) = Some t \<longrightarrow> t < talloc m" using assms(6) by blast
  show "\<forall>a < valloc m. \<forall>b < valloc m. \<forall>t. timer (state_at m a) = Some t \<and> timer (state_at m b) = Some t \<longrightarrow> a = b"
    using assms(7) by blast
  show "\<forall>t x. armed m t = Some x \<longrightarrow> t < talloc m \<and> fst x \<le> now + idleTimeout m"
    using assms(8,9) by blast
  show "\<forall>vip a. vipStates m vip = Some a \<longrightarrow>
        a < valloc m \<and> (\<forall>vip'. vipStates m vip' = Some a \<longrightarrow> vip' = vip) \<and>
        (a \<notin> X \<and> conns a S = 0 \<longrightarrow> ticking m F vip a) \<and> 0 < idleTimeout m \<and> vipReleaser m"
    using assms(10-13) by blast
qed (rule assms(1))

lemma fm_invD:
  assumes "fm_inv X m E S F now"
  shows "size S < 2 ^ 31" "vheap m a \<noteq> None \<longleftrightarrow> a < valloc m"
    "(a, vip) \<in># E + S \<Longrightarrow> a < valloc m"
    "(a, vip) \<in># E + S \<Longrightarrow> vipStates m vip' = Some a \<Longrightarrow> vip' = vip"
    "a < valloc m \<Longrightarrow> activeConns (state_at m a) = of_nat (conns a S)"
    "a < valloc m \<Longrightarrow> timer (state_at m a) = Some t \<Longrightarrow> t < talloc m"
    "a < valloc m \<Longrightarrow> b < valloc m \<Longrightarrow> timer (state_at m a) = Some t \<Longrightarrow>
       timer (state_at m b) = Some t \<Longrightarrow> a = b"
    "armed m t = Some x \<Longrightarrow> t < talloc m"
    "armed m t = Some x \<Longrightarrow> fst x \<le> now + idleTimeout m"
    "vipStates m vip = Some a \<Longrightarrow> a < valloc m"
    "vipStates m vip = Some a \<Longrightarrow> vipStates m vip' = Some a \<Longrightarrow> vip' = vip"
    "vipStates m vip = Some a \<Longrightarrow> a \<notin> X \<Longrightarrow> conns a S = 0 \<Longrightarrow> ticking m F vip a"
    "vipStates m vip = Some a \<Longrightarrow> 0 < idleTimeout m \<and> vipReleaser m"
  using assms unfolding fm_inv_def by blast+

lemma conns_simps [simp]:
  "conns a {#} = 0" "conns a (add_mset x S) = (if fst x = a then conns a S + 1 else conns a S)"
  by (simp_all add: conns_def)

lemma conns_le: "conns a S \<le> size S"
  by (simp add: conns_def size_filter_mset_lesseq)

lemma conns_0: "conns a S = 0 \<longleftrightarrow> (\<forall>x \<in># S. fst x \<noteq> a)"
  unfolding conns_def size_eq_0_iff_empty set_mset_eq_empty_iff [symmetric] set_mset_filter by blast

lemma conns_remove:
  "(a, v) \<in># S \<Longrightarrow> conns b (S - {#(a, v)#}) = (if a = b then conns b S - 1 else conns b S)"
  by (auto dest!: multi_member_split)

lemma active_pos:
  assumes "fm_inv X m E S F now" "a < valloc m"
  shows "0 < sint (activeConns (state_at m a)) \<longleftrightarrow> conns a S \<noteq> 0"
proof -
  have "conns a S < 2 ^ 31" using conns_le [of a S] fm_invD(1) [OF assms(1)] by simp
  then have "sint (of_nat (conns a S) :: int32) = int (conns a S)"
    by (simp add: sint_uint uint_nat unat_of_nat32 signed_take_bit_int_eq_self)
  with fm_invD(5) [OF assms] show ?thesis by simp
qed

lemma state_at_simps [simp]:
  "state_at (m\<lparr>armed := x1\<rparr>) = state_at m" "state_at (m\<lparr>talloc := x2\<rparr>) = state_at m"
  "state_at (m\<lparr>entries := x3\<rparr>) = state_at m" "state_at (m\<lparr>vipStates := x4\<rparr>) = state_at m"
  "state_at (m\<lparr>cancelled := x5\<rparr>) = state_at m" "state_at (m\<lparr>calloc := x6\<rparr>) = state_at m"
  "state_at (m\<lparr>valloc := x7\<rparr>) = state_at m"
  "state_at (put_state a st m) b = (if b = a then st else state_at m b)"
  by (auto simp: state_at_def put_state_def)

lemma put_state_simps [simp]:
  "vipReleaser (put_state a st m) = vipReleaser m" "idleTimeout (put_state a st m) = idleTimeout m"
  "entries (put_state a st m) = entries m" "vipStates (put_state a st m) = vipStates m"
  "valloc (put_state a st m) = valloc m" "armed (put_state a st m) = armed m"
  "talloc (put_state a st m) = talloc m" "vheap (put_state a st m) = (vheap m)(a \<mapsto> st)"
  by (simp_all add: put_state_def)

lemma stopTimer_simps [simp]:
  "vipReleaser (stopTimer a m) = vipReleaser m" "idleTimeout (stopTimer a m) = idleTimeout m"
  "entries (stopTimer a m) = entries m" "vipStates (stopTimer a m) = vipStates m"
  "valloc (stopTimer a m) = valloc m" "talloc (stopTimer a m) = talloc m"
  "vheap (stopTimer a m) = vheap m" "state_at (stopTimer a m) = state_at m"
  by (auto simp: stopTimer_def state_at_def split: option.splits)

lemma rearm_simps [simp]:
  "vipReleaser (rearm n v a m) = vipReleaser m" "idleTimeout (rearm n v a m) = idleTimeout m"
  "entries (rearm n v a m) = entries m" "vipStates (rearm n v a m) = vipStates m"
  "valloc (rearm n v a m) = valloc m"
  by (simp_all add: rearm_def Let_def)

lemma fm_inv_stop:
  assumes inv: "fm_inv X m E S F now" and a: "a < valloc m"
  shows "fm_inv (insert a X) (stopTimer a m) E S F now"
proof (rule fm_invI)
  have arm: "armed (stopTimer a m) t = Some x \<Longrightarrow> armed m t = Some x" for t x
    by (auto simp: stopTimer_def split: option.splits if_splits)
  show "t < talloc (stopTimer a m)" "fst x \<le> now + idleTimeout (stopTimer a m)"
    if "armed (stopTimer a m) t = Some x" for t x
    using fm_invD(8,9) [OF inv arm [OF that]] by simp_all
  show "ticking (stopTimer a m) F vip b"
    if "vipStates (stopTimer a m) vip = Some b" "b \<notin> insert a X" "conns b S = 0" for vip b
  proof -
    have b: "vipStates m vip = Some b" "b \<notin> X" "b \<noteq> a" using that by simp_all
    have "armed (stopTimer a m) t = armed m t" if "timer (state_at m b) = Some t" for t
      using fm_invD(7) [OF inv a fm_invD(10) [OF inv b(1)] _ that] b(3)
      by (auto simp: stopTimer_def split: option.splits)
    with fm_invD(12) [OF inv b(1,2) that(3)] show ?thesis by (auto simp: ticking_def)
  qed
qed (use fm_invD [OF inv] in simp_all)

lemma fm_inv_rearm:
  assumes inv: "fm_inv X m E S F now" and a: "a < valloc m"
    and vip: "\<And>vip'. vipStates m vip' = Some a \<Longrightarrow> vip' = vip"
  shows "fm_inv (X - {a}) (rearm now vip a m) E S F now"
proof (rule fm_invI)
  let ?m = "rearm now vip a m"
  have st: "state_at ?m b = (if b = a then (state_at m a)\<lparr>generation := generation (state_at m a) + 1,
      timer := Some (talloc m)\<rparr> else state_at m b)" for b
    by (simp add: rearm_def Let_def)
  have arm: "armed ?m = (armed m)(talloc m \<mapsto> (now + idleTimeout m, vip, generation (state_at m a) + 1))"
    "talloc ?m = talloc m + 1" by (simp_all add: rearm_def Let_def)
  have old: "t \<noteq> talloc m" if "b < valloc m" "timer (state_at m b) = Some t" for b t
    using fm_invD(6) [OF inv that] by simp
  show "activeConns (state_at ?m b) = of_nat (conns b S)" if "b < valloc ?m" for b
    using fm_invD(5) [OF inv, of b] that by (auto simp: st)
  show "t < talloc ?m" if "b < valloc ?m" "timer (state_at ?m b) = Some t" for b t
    using fm_invD(6) [OF inv, of b t] that by (auto simp: st arm split: if_splits)
  show "b = c" if "b < valloc ?m" "c < valloc ?m" "timer (state_at ?m b) = Some t"
    "timer (state_at ?m c) = Some t" for b c t
    using that old [of b t] old [of c t] fm_invD(7) [OF inv, of b c t] by (auto simp: st split: if_splits)
  show "t < talloc ?m" "fst x \<le> now + idleTimeout ?m" if "armed ?m t = Some x" for t x
    using that fm_invD(8,9) [OF inv, of t x] by (auto simp: arm split: if_splits)
  show "ticking ?m F v b" if "vipStates ?m v = Some b" "b \<notin> X - {a}" "conns b S = 0" for v b
  proof (cases "b = a")
    case True
    with that vip have "v = vip" by simp
    with True show ?thesis by (simp add: ticking_def st arm)
  next
    case False
    with that have b: "vipStates m v = Some b" "b \<notin> X" by simp_all
    with fm_invD(12) [OF inv b that(3)] old [OF fm_invD(10) [OF inv b(1)]] False show ?thesis
      by (auto simp: ticking_def st arm)
  qed
  show "vheap ?m b \<noteq> None \<longleftrightarrow> b < valloc ?m" for b
    using fm_invD(2) [OF inv, of b] a by (auto simp: rearm_def Let_def)
  show "v' = v" if "(b, v) \<in># E + S" "vipStates ?m v' = Some b" for b v v'
    using fm_invD(4) [OF inv that(1)] that(2) by simp
  show "v' = v" if "vipStates ?m v = Some b" "vipStates ?m v' = Some b" for b v v'
    using fm_invD(11) [OF inv, of v b v'] that by simp
qed (use fm_invD(1,3,10,13) [OF inv] in simp_all)

lemma fm_inv_retick:
  assumes inv: "fm_inv X m E S F now" and "now \<le> now'"
    and "\<And>vip a. vipStates m vip = Some a \<Longrightarrow> a \<notin> Y \<Longrightarrow> conns a S = 0 \<Longrightarrow> ticking m F' vip a"
  shows "fm_inv Y m E S F' now'"
proof (rule fm_invI)
  show "fst x \<le> now' + idleTimeout m" if "armed m t = Some x" for t x
    using fm_invD(9) [OF inv that] assms(2) by linarith
qed (rule fm_invD [OF inv] assms(3); assumption)+

lemma fm_inv_busy:
  assumes "fm_inv (insert a X) m E S F now" "conns a S \<noteq> 0"
  shows "fm_inv X m E S F now"
proof (rule fm_inv_retick [OF assms(1) order_refl])
  fix vip b
  assume "vipStates m vip = Some b" "b \<notin> X" "conns b S = 0"
  with fm_invD(12) [OF assms(1), of vip b] assms(2) show "ticking m F vip b" by (cases "b = a") auto
qed

lemma fm_inv_touch_new:
  assumes inv: "fm_inv X m E S F now" and Some: "vipStates m vip = Some a" and X: "X \<subseteq> {a}"
  shows "fm_inv {} (touchVIPLocked now vip m) E S F now"
proof -
  note a = fm_invD(10) [OF inv Some] and on = fm_invD(13) [OF inv Some]
  have "insert a X = {a}" using X by auto
  with fm_inv_stop [OF inv a] have stop: "fm_inv {a} (stopTimer a m) E S F now" by simp
  show ?thesis
  proof (cases "0 < sint (activeConns (state_at m a))")
    case True
    then have "conns a S \<noteq> 0" using active_pos [OF inv a] by simp
    from fm_inv_busy [OF stop this] True on Some show ?thesis by (simp add: touchVIPLocked_def Let_def)
  next
    case False
    have "fm_inv ({a} - {a}) (rearm now vip a (stopTimer a m)) E S F now"
      by (rule fm_inv_rearm [OF stop]) (use a fm_invD(11) [OF inv Some] in simp_all)
    with False on Some show ?thesis by (simp add: touchVIPLocked_def Let_def)
  qed
qed

lemma fm_inv_touch:
  assumes inv: "fm_inv {} m E S F now"
  shows "fm_inv {} (touchVIPLocked now vip m) E S F now"
  using inv fm_inv_touch_new [OF inv, of vip]
  by (cases "vipStates m vip") (simp_all add: touchVIPLocked_def)

lemma fm_inv_count:
  assumes inv: "fm_inv X m E S F now" and a: "a < valloc m" and st: "st = state_at m a"
    and S': "size S' < 2 ^ 31" "\<And>b. b \<noteq> a \<Longrightarrow> conns b S' = conns b S"
    and ES: "\<And>x. x \<in># E' + S' \<Longrightarrow> x \<in># E + S"
  shows "fm_inv (insert a X) (put_state a (st\<lparr>activeConns := of_nat (conns a S')\<rparr>) m) E' S' F now"
proof (rule fm_invI)
  let ?m = "put_state a (st\<lparr>activeConns := of_nat (conns a S')\<rparr>) m"
  have eq: "timer (state_at ?m b) = timer (state_at m b)" "generation (state_at ?m b) = generation (state_at m b)" for b
    by (simp_all add: st)
  show "t < talloc ?m" if "b < valloc ?m" "timer (state_at ?m b) = Some t" for b t
    using fm_invD(6) [OF inv, of b t] that unfolding eq by simp
  show "b = c" if "b < valloc ?m" "c < valloc ?m" "timer (state_at ?m b) = Some t"
    "timer (state_at ?m c) = Some t" for b c t
    using fm_invD(7) [OF inv, of b c t] that unfolding eq by simp
  show "activeConns (state_at ?m b) = of_nat (conns b S')" if "b < valloc ?m" for b
    using fm_invD(5) [OF inv, of b] that S'(2) by simp
  show "ticking ?m F v b" if "vipStates ?m v = Some b" "b \<notin> insert a X" "conns b S' = 0" for v b
    using fm_invD(12) [OF inv, of v b] that S'(2) [of b] unfolding ticking_def eq by simp
  show "b < valloc ?m" if "(b, v) \<in># E' + S'" for b v
    using fm_invD(3) [OF inv ES [OF that]] by simp
  show "v' = v" if "(b, v) \<in># E' + S'" "vipStates ?m v' = Some b" for b v v'
    using fm_invD(4) [OF inv ES [OF that(1)]] that(2) by simp
  show "vheap ?m b \<noteq> None \<longleftrightarrow> b < valloc ?m" for b
    using fm_invD(2) [OF inv, of b] a by auto
qed (use fm_invD(8,9,10,11,13) [OF inv] S'(1) in simp_all)

lemma fm_inv_enter:
  assumes inv: "fm_inv {} m E S F now" and e: "(a, v) \<in># E" and "size S + 1 < 2 ^ 31"
  shows "fm_inv {} (conn_enter a m) (E - {#(a, v)#}) (add_mset (a, v) S) F now"
proof -
  have a: "a < valloc m" using fm_invD(3) [OF inv, of a v] e by simp
  have "fm_inv (insert a {a}) (put_state a ((state_at m a)\<lparr>activeConns := of_nat (conns a (add_mset (a, v) S))\<rparr>)
      (stopTimer a m)) (E - {#(a, v)#}) (add_mset (a, v) S) F now"
    by (rule fm_inv_count [OF fm_inv_stop [OF inv a]])
      (use a e assms(3) in \<open>auto dest: in_diffD\<close>)
  moreover have "activeConns (state_at m a) + 1 = of_nat (conns a (add_mset (a, v) S))"
    using fm_invD(5) [OF inv a] by simp
  ultimately have "fm_inv {a} (conn_enter a m) (E - {#(a, v)#}) (add_mset (a, v) S) F now"
    by (simp add: conn_enter_def Let_def add.commute)
  then show ?thesis by (rule fm_inv_busy) simp
qed

lemma fm_inv_leave:
  assumes inv: "fm_inv {} m E S F now" and s: "(a, v) \<in># S"
  shows "fm_inv {} (conn_leave now v a m) E (S - {#(a, v)#}) F now"
proof -
  let ?S = "S - {#(a, v)#}" and ?st = "state_at m a"
  have a: "a < valloc m" using fm_invD(3) [OF inv, of a v] s by simp
  have c: "conns a S \<noteq> 0" using s conns_0 [of a S] by auto
  have n: "activeConns ?st - 1 = of_nat (conns a ?S)"
    using fm_invD(5) [OF inv a] c by (simp add: conns_remove [OF s] of_nat_diff)
  let ?m = "put_state a (?st\<lparr>activeConns := of_nat (conns a ?S)\<rparr>) m"
  have sz: "size ?S < 2 ^ 31" using fm_invD(1) [OF inv] size_Diff1_le [of S "(a, v)"] by linarith
  have i: "fm_inv {a} ?m E ?S F now"
    by (rule fm_inv_count [OF inv a refl sz]) (auto simp: conns_remove [OF s] dest: in_diffD)
  have z: "(of_nat (conns a ?S) :: int32) = 0 \<longleftrightarrow> conns a ?S = 0"
    using conns_le [of a ?S] sz by (intro of_nat32_eq_0) simp
  show ?thesis
  proof (cases "conns a ?S = 0")
    case False
    with fm_inv_busy [OF i] show ?thesis unfolding conn_leave_def Let_def n z by simp
  next
    case True
    show ?thesis
    proof (cases "0 < idleTimeout m")
      case True
      have "fm_inv ({a} - {a}) (rearm now v a ?m) E ?S F now"
        by (rule fm_inv_rearm [OF i]) (use a fm_invD(4) [OF inv, of a v] s in auto)
      with True \<open>conns a ?S = 0\<close> show ?thesis unfolding conn_leave_def Let_def n z by simp
    next
      case False
      then have "vipStates m v' \<noteq> Some b" for v' b using fm_invD(13) [OF inv, of v' b] by auto
      then have "fm_inv {} ?m E ?S F now" using i unfolding fm_inv_def by simp
      with False show ?thesis unfolding conn_leave_def Let_def n by simp
    qed
  qed
qed

text \<open>Changes that leave the idle expiry alone, and forgetting a state.\<close>

lemma fm_inv_cong:
  assumes inv: "fm_inv X m E S F now"
    and same: "vipStates m' = vipStates m" "vheap m' = vheap m" "valloc m' = valloc m" "armed m' = armed m"
      "talloc m' = talloc m" "idleTimeout m' = idleTimeout m" "vipReleaser m' = vipReleaser m"
  shows "fm_inv X m' E S F now"
proof -
  have st: "state_at m' = state_at m" by (simp add: state_at_def fun_eq_iff same)
  show ?thesis using inv unfolding fm_inv_def ticking_def st same .
qed

lemma fm_inv_forget:
  assumes inv: "fm_inv X m E S F now"
    and sub: "\<And>v a. vipStates m' v = Some a \<Longrightarrow> vipStates m v = Some a"
      "\<And>v a. vipStates m' v = Some a \<Longrightarrow> a \<notin> X \<Longrightarrow> conns a S = 0 \<Longrightarrow> ticking m' F' v a"
    and same: "vheap m' = vheap m" "valloc m' = valloc m" "talloc m' = talloc m"
      "idleTimeout m' = idleTimeout m" "vipReleaser m' = vipReleaser m"
    and arm: "\<And>t x. armed m' t = Some x \<Longrightarrow> armed m t = Some x"
  shows "fm_inv X m' E S F' now"
proof (rule fm_invI)
  have st: "state_at m' = state_at m" by (simp add: state_at_def fun_eq_iff same)
  show "v' = v" if "(a, v) \<in># E + S" "vipStates m' v' = Some a" for a v v'
    by (rule fm_invD(4) [OF inv that(1) sub(1) [OF that(2)]])
  show "v' = v" if "vipStates m' v = Some a" "vipStates m' v' = Some a" for a v v'
    by (rule fm_invD(11) [OF inv sub(1) [OF that(1)] sub(1) [OF that(2)]])
  show "a < valloc m'" "0 < idleTimeout m' \<and> vipReleaser m'" if "vipStates m' v = Some a" for v a
    using fm_invD(10,13) [OF inv sub(1) [OF that]] same by simp_all
  show "ticking m' F' v a" if "vipStates m' v = Some a" "a \<notin> X" "conns a S = 0" for v a
    by (rule sub(2) [OF that])
  show "a = b" if "a < valloc m'" "b < valloc m'" "timer (state_at m' a) = Some t"
    "timer (state_at m' b) = Some t" for a b t
    using fm_invD(7) [OF inv, of a b t] that unfolding st same by blast
  show "t < talloc m'" "fst x \<le> now + idleTimeout m'" if "armed m' t = Some x" for t x
    using fm_invD(8,9) [OF inv arm [OF that]] same by simp_all
qed (use fm_invD(1,2,3,5,6) [OF inv] same in \<open>simp_all add: state_at_def\<close>)

lemma fm_inv_keys:
  assumes inv: "fm_inv X m E S F now" and a: "a < valloc m"
  shows "fm_inv X (put_state a ((state_at m a)\<lparr>forwardKeys := ks\<rparr>) m) E S F now" (is "fm_inv X ?m E S F now")
proof (rule fm_invI)
  have eq: "timer (state_at ?m b) = timer (state_at m b)" "generation (state_at ?m b) = generation (state_at m b)"
    "activeConns (state_at ?m b) = activeConns (state_at m b)" for b by simp_all
  show "b = c" if "b < valloc ?m" "c < valloc ?m" "timer (state_at ?m b) = Some t"
    "timer (state_at ?m c) = Some t" for b c t
    using fm_invD(7) [OF inv, of b c t] that unfolding eq by simp
  show "t < talloc ?m" if "b < valloc ?m" "timer (state_at ?m b) = Some t" for b t
    using fm_invD(6) [OF inv, of b t] that unfolding eq by simp
  show "activeConns (state_at ?m b) = of_nat (conns b S)" if "b < valloc ?m" for b
    using fm_invD(5) [OF inv, of b] that unfolding eq by simp
  show "ticking ?m F v b" if "vipStates ?m v = Some b" "b \<notin> X" "conns b S = 0" for v b
    using fm_invD(12) [OF inv, of v b] that unfolding ticking_def eq by simp
  show "v' = v" if "(b, v) \<in># E + S" "vipStates ?m v' = Some b" for b v v'
    using fm_invD(4) [OF inv that(1)] that(2) by simp
  show "v' = v" if "vipStates ?m v = Some b" "vipStates ?m v' = Some b" for b v v'
    using fm_invD(11) [OF inv, of v b v'] that by simp
  show "vheap ?m b \<noteq> None \<longleftrightarrow> b < valloc ?m" for b
    using fm_invD(2) [OF inv, of b] a by auto
qed (use fm_invD(1,3,8,9,10,13) [OF inv] in simp_all)

lemma fm_inv_new_state:
  assumes inv: "fm_inv X m E S F now" and none: "vipStates m v = None"
    and on: "0 < idleTimeout m" "vipReleaser m"
    and m': "m' = (put_state (valloc m) \<lparr>timer = None, generation = 0, activeConns = 0, forwardKeys = ks\<rparr> m)
      \<lparr>vipStates := (vipStates m)(v \<mapsto> valloc m), valloc := valloc m + 1\<rparr>"
  shows "fm_inv (insert (valloc m) X) m' E S F now"
proof (rule fm_invI)
  let ?a = "valloc m"
  have fresh: "(?a, v') \<notin># E + S" for v' using fm_invD(3) [OF inv, of ?a v'] by auto
  have zero: "conns ?a S = 0"
    unfolding conns_0
  proof
    fix x assume "x \<in># S"
    with fresh [of "snd x"] show "fst x \<noteq> ?a" by (cases x) auto
  qed
  have pool: "b \<noteq> ?a" if "vipStates m v' = Some b" for v' b using fm_invD(10) [OF inv that] by simp
  have st: "state_at m' b = (if b = ?a then \<lparr>timer = None, generation = 0, activeConns = 0, forwardKeys = ks\<rparr>
      else state_at m b)" for b by (simp add: m')
  have sel: "vipStates m' = (vipStates m)(v \<mapsto> ?a)" "valloc m' = Suc ?a" "armed m' = armed m"
    "talloc m' = talloc m" "idleTimeout m' = idleTimeout m" "vipReleaser m' = vipReleaser m" by (simp_all add: m')
  show "activeConns (state_at m' b) = of_nat (conns b S)" if "b < valloc m'" for b
    using fm_invD(5) [OF inv, of b] that zero by (auto simp: st sel less_Suc_eq)
  show "t < talloc m'" if "b < valloc m'" "timer (state_at m' b) = Some t" for b t
    using fm_invD(6) [OF inv, of b t] that by (auto simp: st sel less_Suc_eq split: if_splits)
  show "b = c" if "b < valloc m'" "c < valloc m'" "timer (state_at m' b) = Some t"
    "timer (state_at m' c) = Some t" for b c t
    using fm_invD(7) [OF inv, of b c t] that by (auto simp: st sel less_Suc_eq split: if_splits)
  show "ticking m' F v' b" if "vipStates m' v' = Some b" "b \<notin> insert ?a X" "conns b S = 0" for v' b
  proof -
    from that have "vipStates m v' = Some b" by (auto simp: sel split: if_splits)
    from fm_invD(12) [OF inv this] that show ?thesis by (auto simp: ticking_def st sel)
  qed
  show "v'' = v'" if "(b, v') \<in># E + S" "vipStates m' v'' = Some b" for b v' v''
    using fm_invD(4) [OF inv that(1), of v''] that fresh [of v'] by (auto simp: sel split: if_splits)
  show "v'' = v'" if "vipStates m' v' = Some b" "vipStates m' v'' = Some b" for b v' v''
    using fm_invD(11) [OF inv, of v' b v''] pool [of v' b] pool [of v'' b] that by (auto simp: sel split: if_splits)
  show "vheap m' b \<noteq> None \<longleftrightarrow> b < valloc m'" for b
    using fm_invD(2) [OF inv, of b] by (auto simp: m' less_Suc_eq)
  show "b < valloc m'" if "(b, v') \<in># E + S" for b v' using fm_invD(3) [OF inv that] by (simp add: sel)
  show "b < valloc m'" if "vipStates m' v' = Some b" for b v'
    using that fm_invD(10) [OF inv, of v' b] by (auto simp: sel split: if_splits)
qed (use fm_invD(1,8,9) [OF inv] on in \<open>simp_all add: m'\<close>)

lemma fm_inv_commit:
  assumes inv: "fm_inv {} m E S F now" and run: "start_commit now key entry m = (raced, m')"
  shows "fm_inv {} m' E S F now"
proof (cases "entries m key")
  case (Some x)
  with run inv show ?thesis by (auto simp: start_commit_def fm_inv_touch)
next
  case None
  let ?m1 = "m\<lparr>entries := (entries m)(key \<mapsto> entry)\<rparr>" and ?v = "fk_vipAddr key"
  have inv1: "fm_inv {} ?m1 E S F now" by (rule fm_inv_cong [OF inv]) simp_all
  show ?thesis
  proof (cases "0 < idleTimeout m \<and> vipReleaser m")
    case False
    with run None inv1 show ?thesis by (auto simp: start_commit_def Let_def)
  next
    case True
    show ?thesis
    proof (cases "vipStates m ?v")
      case (Some a)
      let ?m2 = "put_state a ((state_at ?m1 a)\<lparr>forwardKeys := forwardKeys (state_at ?m1 a) @ [key]\<rparr>) ?m1"
      have "fm_inv {} ?m2 E S F now"
        by (rule fm_inv_keys [OF inv1]) (use fm_invD(10) [OF inv Some] in simp)
      then have "fm_inv {} (touchVIPLocked now ?v ?m2) E S F now" by (rule fm_inv_touch)
      with run None True Some show ?thesis by (simp add: start_commit_def Let_def)
    next
      case none: None
      let ?m2 = "(put_state (valloc ?m1) \<lparr>timer = None, generation = 0, activeConns = 0, forwardKeys = [key]\<rparr> ?m1)
        \<lparr>vipStates := (vipStates ?m1)(?v \<mapsto> valloc ?m1), valloc := valloc ?m1 + 1\<rparr>"
      have "fm_inv (insert (valloc ?m1) {}) ?m2 E S F now"
        by (rule fm_inv_new_state [OF inv1]) (use True none in simp_all)
      then have "fm_inv {} (touchVIPLocked now ?v ?m2) E S F now"
        by (rule fm_inv_touch_new [where a = "valloc ?m1"]) simp_all
      with run None True none show ?thesis by (simp add: start_commit_def Let_def)
    qed
  qed
qed

lemma expire_keys_simps [simp]:
  "vipStates (fst (expire_keys io ks m w)) = vipStates m" "vheap (fst (expire_keys io ks m w)) = vheap m"
  "valloc (fst (expire_keys io ks m w)) = valloc m" "armed (fst (expire_keys io ks m w)) = armed m"
  "talloc (fst (expire_keys io ks m w)) = talloc m" "idleTimeout (fst (expire_keys io ks m w)) = idleTimeout m"
  "vipReleaser (fst (expire_keys io ks m w)) = vipReleaser m"
  by (induction ks arbitrary: m w) (auto simp: cancel_entry_def split: option.splits)

lemma expire_keys_entries:
  "entries (fst (expire_keys io ks m w)) k = (if k \<in> set ks then None else entries m k)"
  by (induction ks arbitrary: m w) (auto simp: cancel_entry_def split: option.splits)

lemma expire_keys_cancelled_mono: "cancelled m \<subseteq> cancelled (fst (expire_keys io ks m w))"
proof (induction ks arbitrary: m w)
  case (Cons k ks)
  show ?case
  proof (cases "entries m k")
    case (Some e)
    let ?m = "(m\<lparr>cancelled := insert (cancel e) (cancelled m)\<rparr>)\<lparr>entries := (entries m)(k := None)\<rparr>"
    have "cancelled m \<subseteq> cancelled ?m" by auto
    also have "\<dots> \<subseteq> cancelled (fst (expire_keys io (k # ks) m w))"
      using Cons.IH [of ?m] Some by (simp add: cancel_entry_def)
    finally show ?thesis .
  qed (use Cons.IH in simp)
qed simp

lemma expire_keys_cancelled:
  assumes "key \<in> set ks" "entries m key = Some e"
  shows "cancel e \<in> cancelled (fst (expire_keys io ks m w))"
  using assms
proof (induction ks arbitrary: m w)
  case (Cons k ks)
  show ?case
  proof (cases "entries m k")
    case None
    with Cons show ?thesis by auto
  next
    case (Some e')
    let ?m = "(m\<lparr>cancelled := insert (cancel e') (cancelled m)\<rparr>)\<lparr>entries := (entries m)(k := None)\<rparr>"
    show ?thesis
    proof (cases "k = key")
      case True
      with Some Cons.prems(2) have "cancel e \<in> cancelled ?m" by simp
      with expire_keys_cancelled_mono [of ?m io ks] Some show ?thesis by (auto simp: cancel_entry_def)
    next
      case False
      with Cons Some show ?thesis by (simp add: cancel_entry_def)
    qed
  qed
qed simp

lemma expire_locked_cases:
  assumes "expire_locked io vip gen m w = (expired, m', w')"
  shows "\<not> expired \<and> m' = m \<and> w' = w \<and>
      (\<forall>a. vipStates m vip = Some a \<longrightarrow>
         generation (state_at m a) \<noteq> gen \<or> 0 < sint (activeConns (state_at m a))) \<or>
    expired \<and> (\<exists>a m1. vipStates m vip = Some a \<and> generation (state_at m a) = gen \<and>
      \<not> 0 < sint (activeConns (state_at m a)) \<and>
      expire_keys io (forwardKeys (state_at m a)) m w = (m1, w') \<and>
      m' = m1\<lparr>vipStates := (vipStates m1)(vip := None)\<rparr>)"
  using assms by (auto simp: expire_locked_def split: option.splits if_splits prod.splits)

lemma fm_inv_expire:
  assumes inv: "fm_inv {} m E S F now" and f: "(vip, gen) \<in># F"
    and run: "expire_locked io vip gen m w = (expired, m', w')"
  shows "fm_inv {} m' E S (F - {#(vip, gen)#}) now"
  using expire_locked_cases [OF run]
proof (elim disjE conjE exE)
  assume m': "m' = m" and no: "\<forall>a. vipStates m vip = Some a \<longrightarrow>
      generation (state_at m a) \<noteq> gen \<or> 0 < sint (activeConns (state_at m a))"
  have "fm_inv {} m E S (F - {#(vip, gen)#}) now"
  proof (rule fm_inv_retick [OF inv order_refl])
    fix v a assume v: "vipStates m v = Some a" "conns a S = 0"
    then have tick: "ticking m F v a" using fm_invD(12) [OF inv] by simp
    have "(v, generation (state_at m a)) \<noteq> (vip, gen)"
      using no v active_pos [OF inv fm_invD(10) [OF inv v(1)]] by auto
    with tick show "ticking m (F - {#(vip, gen)#}) v a" by (simp add: ticking_def in_diff_single)
  qed
  with m' show ?thesis by simp
next
  fix a m1
  assume a: "vipStates m vip = Some a" and keys: "expire_keys io (forwardKeys (state_at m a)) m w = (m1, w')"
    and m': "m' = m1\<lparr>vipStates := (vipStates m1)(vip := None)\<rparr>"
  have m1: "m1 = fst (expire_keys io (forwardKeys (state_at m a)) m w)" using keys by simp
  have st: "state_at m' = state_at m" by (simp add: state_at_def fun_eq_iff m' m1)
  show ?thesis
  proof (rule fm_inv_forget [OF inv])
    fix v b assume "vipStates m' v = Some b" "conns b S = 0"
    then have v: "v \<noteq> vip" "vipStates m v = Some b" by (auto simp: m' m1 split: if_splits)
    from fm_invD(12) [OF inv v(2)] \<open>conns b S = 0\<close> v(1) show "ticking m' (F - {#(vip, gen)#}) v b"
      by (simp add: ticking_def st in_diff_single) (simp add: m' m1)
  qed (auto simp: m' m1 split: if_splits)
qed

lemma fm_inv_fire:
  assumes inv: "fm_inv {} m E S F now" and t: "armed m t = Some (due, vip, gen)"
  shows "fm_inv {} (m\<lparr>armed := (armed m)(t := None)\<rparr>) E S (add_mset (vip, gen) F) now"
proof (rule fm_inv_forget [OF inv])
  fix v a assume "vipStates (m\<lparr>armed := (armed m)(t := None)\<rparr>) v = Some a" "conns a S = 0"
  then have "ticking m F v a" using fm_invD(12) [OF inv, of v a] by simp
  with t show "ticking (m\<lparr>armed := (armed m)(t := None)\<rparr>) (add_mset (vip, gen) F) v a"
    by (cases "timer (state_at m a) = Some t") (auto simp: ticking_def)
qed (auto split: if_splits)

lemma close_context_simps:
  assumes "close_context io ctx ks u m w = (u', m', w')"
  shows "vipStates m' = vipStates m" "vheap m' = vheap m" "valloc m' = valloc m" "armed m' = armed m"
    "talloc m' = talloc m" "idleTimeout m' = idleTimeout m" "vipReleaser m' = vipReleaser m"
  using assms
  by (induction ks arbitrary: u m w) (auto simp: cancel_entry_def Let_def split: option.splits if_splits)

lemma close_context_entries:
  assumes "close_context io ctx ks u m w = (u', m', w')"
  shows "entries m' k = (if k \<in> set ks \<and> fk_contextName k = ctx then None else entries m k)"
  using assms
  by (induction ks arbitrary: u m w) (auto simp: cancel_entry_def Let_def split: option.splits if_splits)

lemma close_context_vips:
  assumes "close_context io ctx ks u m w = (u', m', w')" "distinct ks"
  shows "u' = (\<lambda>v. if \<exists>k \<in> set ks. fk_contextName k = ctx \<and> fk_vipAddr k = v \<and> entries m k \<noteq> None \<and> ParseIP v \<noteq> None
     then ParseIP v else u v)"
  using assms
proof (induction ks arbitrary: u m w)
  case (Cons k ks)
  show ?case
  proof (cases "entries m k \<noteq> None \<and> fk_contextName k = ctx")
    case False
    with Cons.prems have "close_context io ctx ks u m w = (u', m', w')" by (auto split: option.splits)
    from Cons.IH [OF this] Cons.prems(2) False show ?thesis by (auto simp: fun_eq_iff)
  next
    case True
    then obtain entry where e: "entries m k = Some entry" by auto
    let ?u = "case ParseIP (fk_vipAddr k) of None \<Rightarrow> u | Some a \<Rightarrow> u(fk_vipAddr k \<mapsto> a)"
    obtain m1 w1 where c: "cancel_entry io entry m w = (m1, w1)" by fastforce
    then have m1: "entries m1 = entries m" by (auto simp: cancel_entry_def)
    have "close_context io ctx ks ?u (m1\<lparr>entries := (entries m1)(k := None)\<rparr>) w1 = (u', m', w')"
      using Cons.prems(1) True e c by (simp add: Let_def)
    moreover have "distinct ks" "k \<notin> set ks" using Cons.prems(2) by simp_all
    ultimately have "u' = (\<lambda>v. if \<exists>k' \<in> set ks. fk_contextName k' = ctx \<and> fk_vipAddr k' = v \<and>
        entries m k' \<noteq> None \<and> ParseIP v \<noteq> None then ParseIP v else ?u v)"
      using Cons.IH by (fastforce simp: m1 fun_eq_iff)
    with True show ?thesis by (auto simp: fun_eq_iff split: option.splits)
  qed
qed simp

lemma fm_inv_drop_state:
  assumes inv: "fm_inv {} m E S F now"
  shows "fm_inv {} (drop_state m vip) E S F now"
proof (cases "vipStates m vip")
  case None
  with inv show ?thesis by (simp add: drop_state_def)
next
  case (Some a)
  note a = fm_invD(10) [OF inv Some]
  let ?m = "drop_state m vip"
  have m: "?m = (stopTimer a m)\<lparr>vipStates := (vipStates m)(vip := None)\<rparr>"
    using Some by (simp add: drop_state_def)
  show ?thesis
  proof (rule fm_inv_retick [OF fm_inv_forget [OF fm_inv_stop [OF inv a], of ?m F] order_refl], goal_cases)
    case (9 v b)
    then have v: "vipStates m v = Some b" "v \<noteq> vip" by (auto simp: m split: if_splits)
    then have "b \<noteq> a" using fm_invD(11) [OF inv Some, of v] by auto
    with fm_invD(12) [OF fm_inv_stop [OF inv a], of v b] v 9(3) show ?case by (simp add: m ticking_def)
  next
    case (2 v b)
    then have "ticking (stopTimer a m) F v b"
      using fm_invD(12) [OF fm_inv_stop [OF inv a], of v b] by (auto simp: m split: if_splits)
    then show ?case by (simp add: m ticking_def)
  qed (auto simp: m split: if_splits)
qed

lemma fm_inv_shutdown_context:
  assumes inv: "fm_inv {} m E S F now" and run: "shutdown_context_locked io ord ks ctx m w = (u, m', w')"
  shows "fm_inv {} m' E S F now"
proof -
  obtain m1 where c: "close_context io ctx ks Map.empty m w = (u, m1, w')"
    and m': "m' = foldl drop_state m1 (ord (dom u))"
    using run by (auto simp: shutdown_context_locked_def split: prod.splits)
  have "fm_inv {} m1 E S F now" by (rule fm_inv_cong [OF inv close_context_simps [OF c]])
  then have "fm_inv {} (foldl drop_state m1 vs) E S F now" for vs
    by (rule foldl_invariant) (rule fm_inv_drop_state)
  with m' show ?thesis by simp
qed

lemma fm_inv_shutdown:
  assumes inv: "fm_inv {} m E S F now" and run: "shutdown_locked io ord ks m w = (m', w')"
  shows "fm_inv {} m' E S F now"
proof -
  obtain m1 where c: "expire_keys io ks m w = (m1, w')"
    and m': "m' = (foldl (\<lambda>m vip. case vipStates m vip of None \<Rightarrow> m | Some a \<Rightarrow> stopTimer a m) m1
      (ord (dom (vipStates m1))))\<lparr>vipStates := Map.empty\<rparr>"
    using run by (auto simp: shutdown_locked_def Let_def split: prod.splits)
  let ?f = "\<lambda>m vip. case vipStates m vip of None \<Rightarrow> m | Some a \<Rightarrow> stopTimer a m"
  have "fm_inv UNIV m1 E S F now"
    by (rule fm_inv_retick [OF fm_inv_cong [OF inv] order_refl]) (use c expire_keys_simps [of io ks m w] in simp_all)
  moreover have "fm_inv UNIV (?f m vip) E S F now" if "fm_inv UNIV m E S F now" for m vip
  proof (cases "vipStates m vip")
    case (Some a)
    with fm_inv_stop [OF that fm_invD(10) [OF that Some]] show ?thesis by simp
  qed (simp add: that)
  ultimately have "fm_inv UNIV (foldl ?f m1 vs) E S F now" for vs
    by (intro foldl_invariant [where P = "\<lambda>m. fm_inv UNIV m E S F now"])
  from fm_inv_forget [OF this, where m' = m' and F' = F] have "fm_inv UNIV m' E S F now" by (simp add: m')
  then show ?thesis by (rule fm_inv_retick) (simp_all add: m')
qed

definition fm_sys_inv :: "('l, 'w, 'v) fm_sys \<Rightarrow> bool" where
  "fm_sys_inv s = fm_inv {} (mgr s) (entering s) (serving s) (fired s) (clock s)"

lemma fm_sys_inv_step:
  assumes "fm_sys_inv s" "fm_step io rel ord s s'"
  shows "fm_sys_inv s'"
  using assms(2,1) unfolding fm_sys_inv_def
proof (induction rule: fm_step.induct)
  case (tick s t w' v')
  have "fm_inv {} (mgr s) (entering s) (serving s) (fired s) t"
    by (rule fm_inv_retick [OF tick.prems tick.hyps]) (use fm_invD(12) [OF tick.prems] in simp)
  then show ?case by simp
next
  case (start_hit s key m')
  then show ?case by (auto simp: start_check_def fm_inv_touch split: option.splits)
next
  case (start_listen addr s ln w' c m' key)
  then have "fm_inv {} m' (entering s) (serving s) (fired s) (clock s)"
    by (intro fm_inv_cong [OF start_listen.prems]) (auto simp: new_context_def)
  then show ?case by simp
next
  case (commit key entry s m')
  with fm_inv_commit [OF commit.prems commit.hyps(2)] show ?case by simp
next
  case (commit_raced key entry s m1 m' w')
  have "fm_inv {} m1 (entering s) (serving s) (fired s) (clock s)"
    by (rule fm_inv_commit [OF commit_raced.prems commit_raced.hyps(2)])
  then have "fm_inv {} m' (entering s) (serving s) (fired s) (clock s)"
    by (rule fm_inv_cong) (use commit_raced.hyps(3) in \<open>auto simp: cancel_entry_def\<close>)
  then show ?case by simp
next
  case (touch s vip)
  then show ?case by (simp add: TouchVIP_def fm_inv_touch)
next
  case (lookup vip s a)
  then have v: "vipStates (mgr s) vip = Some a" by (auto simp: conn_lookup_def split: if_splits)
  have "fm_inv {} (mgr s) (add_mset (a, vip) (entering s)) (serving s) (fired s) (clock s)"
  proof (rule fm_invI)
    show "b < valloc (mgr s)" if "(b, x) \<in># add_mset (a, vip) (entering s) + serving s" for b x
      using that fm_invD(3) [OF lookup.prems, of b x] fm_invD(10) [OF lookup.prems v] by auto
    show "x' = x" if "(b, x) \<in># add_mset (a, vip) (entering s) + serving s" "vipStates (mgr s) x' = Some b" for b x x'
      using that fm_invD(4) [OF lookup.prems, of b x x'] fm_invD(11) [OF lookup.prems v, of x'] by auto
  qed (rule fm_invD [OF lookup.prems]; assumption?)+
  then show ?case by simp
next
  case (enter s a vip)
  with fm_inv_enter [OF enter.prems enter.hyps(2,1)] show ?case by simp
next
  case (leave a vip s)
  with fm_inv_leave [OF leave.prems leave.hyps] show ?case by simp
next
  case (fire s t due vip gen)
  with fm_inv_fire [OF fire.prems fire.hyps(1)] show ?case by simp
next
  case (expire vip gen s expired m' w')
  with fm_inv_expire [OF expire.prems expire.hyps] show ?case by simp
next
  case (shutdown_context ks s ctx u m' w')
  with fm_inv_shutdown_context [OF shutdown_context.prems shutdown_context.hyps(2)] show ?case by simp
next
  case (shutdown ks s m' w')
  with fm_inv_shutdown [OF shutdown.prems shutdown.hyps(2)] show ?case by simp
qed simp_all

lemma fm_sys_inv_init: "fm_init r idle s \<Longrightarrow> fm_sys_inv s"
  by (simp add: fm_init_def fm_sys_inv_def fm_inv_def NewForwardManager_def)

lemma fm_sys_inv_reachable: "reachable (fm_init r idle) (fm_step io rel ord) s \<Longrightarrow> fm_sys_inv s"
  by (erule reachable_invariant) (simp_all add: fm_sys_inv_init fm_sys_inv_step)

subsection \<open>Listeners are tracked\<close>

text \<open>
  What the code relies on without saying so: all the listeners on one VIP belong to one context,
  \<open>own\<close> of the VIP. \<open>own_step\<close> is a step of callers that keep to it.
\<close>

definition own_step ::
  "(string \<Rightarrow> string) \<Rightarrow> ('l, 'w) netio \<Rightarrow> (ip \<Rightarrow> 'v \<Rightarrow> goerr option \<times> 'v) \<Rightarrow> map_order \<Rightarrow>
   ('l, 'w, 'v) fm_sys \<Rightarrow> ('l, 'w, 'v) fm_sys \<Rightarrow> bool" where
  "own_step own io rel ord s s' \<longleftrightarrow> fm_step io rel ord s s' \<and>
     (\<forall>x \<in># starting s'. fk_contextName (fst x) = own (fk_vipAddr (fst x)))"

definition keys_ok :: "(string \<Rightarrow> string) \<Rightarrow> 'l forwardManager \<Rightarrow> bool" where
  "keys_ok own m \<longleftrightarrow> (\<forall>key. entries m key \<noteq> None \<longrightarrow> fk_contextName key = own (fk_vipAddr key) \<and>
     (0 < idleTimeout m \<and> vipReleaser m \<longrightarrow>
        (\<exists>a. vipStates m (fk_vipAddr key) = Some a \<and> key \<in> set (forwardKeys (state_at m a))))) \<and>
     (\<forall>v a key. vipStates m v = Some a \<longrightarrow> key \<in> set (forwardKeys (state_at m a)) \<longrightarrow> fk_vipAddr key = v)"

lemma keys_okI:
  assumes "\<And>key. entries m key \<noteq> None \<Longrightarrow> fk_contextName key = own (fk_vipAddr key)"
    and "\<And>key. entries m key \<noteq> None \<Longrightarrow> 0 < idleTimeout m \<Longrightarrow> vipReleaser m \<Longrightarrow>
      \<exists>a. vipStates m (fk_vipAddr key) = Some a \<and> key \<in> set (forwardKeys (state_at m a))"
    and "\<And>v a key. vipStates m v = Some a \<Longrightarrow> key \<in> set (forwardKeys (state_at m a)) \<Longrightarrow> fk_vipAddr key = v"
  shows "keys_ok own m"
  unfolding keys_ok_def using assms by blast

lemma keys_okD:
  assumes "keys_ok own m" "entries m key \<noteq> None"
  shows "fk_contextName key = own (fk_vipAddr key)"
    "0 < idleTimeout m \<Longrightarrow> vipReleaser m \<Longrightarrow>
      \<exists>a. vipStates m (fk_vipAddr key) = Some a \<and> key \<in> set (forwardKeys (state_at m a))"
  using assms unfolding keys_ok_def by blast+

lemma keys_ok_vip:
  "keys_ok own m \<Longrightarrow> vipStates m v = Some a \<Longrightarrow> key \<in> set (forwardKeys (state_at m a)) \<Longrightarrow> fk_vipAddr key = v"
  unfolding keys_ok_def by blast

lemma keys_ok_cong:
  assumes "keys_ok own m" "entries m' = entries m" "vipStates m' = vipStates m"
    "idleTimeout m' = idleTimeout m" "vipReleaser m' = vipReleaser m"
    "\<And>a. forwardKeys (state_at m' a) = forwardKeys (state_at m a)"
  shows "keys_ok own m'"
  using assms(1) unfolding keys_ok_def assms(2-6) .

lemma forwardKeys_rearm [simp]: "forwardKeys (state_at (rearm n v a m) b) = forwardKeys (state_at m b)"
  by (simp add: rearm_def Let_def)

lemma touch_simps [simp]:
  "entries (touchVIPLocked n v m) = entries m" "vipStates (touchVIPLocked n v m) = vipStates m"
  "idleTimeout (touchVIPLocked n v m) = idleTimeout m" "vipReleaser (touchVIPLocked n v m) = vipReleaser m"
  "forwardKeys (state_at (touchVIPLocked n v m) a) = forwardKeys (state_at m a)"
  "activeConns (state_at (touchVIPLocked n v m) a) = activeConns (state_at m a)"
  by (auto simp: touchVIPLocked_def Let_def rearm_def split: option.splits)

lemma keys_ok_commit:
  assumes ok: "keys_ok own m" and key: "fk_contextName key = own (fk_vipAddr key)"
    and inv: "fm_inv {} m E S F now" and run: "start_commit now key entry m = (raced, m')"
  shows "keys_ok own m'"
proof (cases "entries m key")
  case (Some x)
  with run ok show ?thesis by (auto simp: start_commit_def intro: keys_ok_cong)
next
  case None
  let ?v = "fk_vipAddr key" and ?m1 = "m\<lparr>entries := (entries m)(key \<mapsto> entry)\<rparr>"
  show ?thesis
  proof (cases "0 < idleTimeout m \<and> vipReleaser m")
    case False
    with run None have "m' = ?m1" by (auto simp: start_commit_def Let_def)
    with ok key False show ?thesis by (auto simp: keys_ok_def)
  next
    case True
    define m2 where "m2 = (case vipStates m ?v of
        Some a \<Rightarrow> put_state a ((state_at m a)\<lparr>forwardKeys := forwardKeys (state_at m a) @ [key]\<rparr>) ?m1
      | None \<Rightarrow> (put_state (valloc m) \<lparr>timer = None, generation = 0, activeConns = 0, forwardKeys = [key]\<rparr> ?m1)
          \<lparr>vipStates := (vipStates m)(?v \<mapsto> valloc m), valloc := valloc m + 1\<rparr>)"
    have m': "m' = touchVIPLocked now ?v m2"
      using run None True by (auto simp: start_commit_def Let_def m2_def split: option.splits)
    have sel: "entries m2 = (entries m)(key \<mapsto> entry)" "idleTimeout m2 = idleTimeout m" "vipReleaser m2 = vipReleaser m"
      by (simp_all add: m2_def split: option.splits)
    have "keys_ok own m2"
    proof (rule keys_okI)
      fix k assume k: "entries m2 k \<noteq> None"
      show "fk_contextName k = own (fk_vipAddr k)"
        using k key keys_okD(1) [OF ok, of k] by (cases "k = key") (simp_all add: sel)
      show "\<exists>a. vipStates m2 (fk_vipAddr k) = Some a \<and> k \<in> set (forwardKeys (state_at m2 a))"
      proof (cases "k = key")
        case True
        then show ?thesis by (auto simp: m2_def split: option.splits)
      next
        case False
        then obtain a where a: "vipStates m (fk_vipAddr k) = Some a" "k \<in> set (forwardKeys (state_at m a))"
          using k keys_okD(2) [OF ok, of k] True by (auto simp: sel)
        then show ?thesis using fm_invD(10) [OF inv a(1)] by (auto simp: m2_def split: option.splits)
      qed
    next
      fix v a k assume k: "vipStates m2 v = Some a" "k \<in> set (forwardKeys (state_at m2 a))"
      show "fk_vipAddr k = v"
      proof (cases "vipStates m ?v")
        case None
        with k fm_invD(10) [OF inv, of v a] keys_ok_vip [OF ok, of v a k] show ?thesis
          by (auto simp: m2_def split: if_splits)
      next
        case (Some b)
        with k fm_invD(11) [OF inv Some, of v] keys_ok_vip [OF ok, of v a k] show ?thesis
          by (auto simp: m2_def split: if_splits)
      qed
    qed
    then show ?thesis unfolding m' by (rule keys_ok_cong) simp_all
  qed
qed

lemma keys_ok_expire:
  assumes ok: "keys_ok own m" and inv: "fm_inv {} m E S F now"
    and run: "expire_locked io vip gen m w = (expired, m', w')"
  shows "keys_ok own m'"
  using expire_locked_cases [OF run]
proof (elim disjE conjE exE)
  fix a m1
  assume a: "vipStates m vip = Some a" and "expire_keys io (forwardKeys (state_at m a)) m w = (m1, w')"
    and m': "m' = m1\<lparr>vipStates := (vipStates m1)(vip := None)\<rparr>"
  then have m1: "m1 = fst (expire_keys io (forwardKeys (state_at m a)) m w)" by simp
  have st: "state_at m' = state_at m" by (simp add: state_at_def fun_eq_iff m' m1)
  show ?thesis
  proof (rule keys_okI)
    fix key assume "entries m' key \<noteq> None"
    then have key: "entries m key \<noteq> None" "key \<notin> set (forwardKeys (state_at m a))"
      by (auto simp: m' m1 expire_keys_entries split: if_splits)
    show "fk_contextName key = own (fk_vipAddr key)" by (rule keys_okD(1) [OF ok key(1)])
    have "0 < idleTimeout m" "vipReleaser m" using fm_invD(13) [OF inv a] by simp_all
    then obtain b where b: "vipStates m (fk_vipAddr key) = Some b" "key \<in> set (forwardKeys (state_at m b))"
      using keys_okD(2) [OF ok key(1)] by blast
    with a key(2) have "fk_vipAddr key \<noteq> vip" by auto
    with b st show "\<exists>a. vipStates m' (fk_vipAddr key) = Some a \<and> key \<in> set (forwardKeys (state_at m' a))"
      by (simp add: m' m1)
  next
    show "fk_vipAddr key = v" if "vipStates m' v = Some b" "key \<in> set (forwardKeys (state_at m' b))" for v b key
      using that keys_ok_vip [OF ok, of v b key] st by (auto simp: m' m1 split: if_splits)
  qed
qed (use ok in simp)

lemma drop_states_eq:
  "entries (foldl drop_state m vs) = entries m" "idleTimeout (foldl drop_state m vs) = idleTimeout m"
  "vipReleaser (foldl drop_state m vs) = vipReleaser m" "state_at (foldl drop_state m vs) = state_at m"
  "vipStates (foldl drop_state m vs) v = (if v \<in> set vs then None else vipStates m v)"
  by (induction vs arbitrary: m) (auto simp: drop_state_def split: option.splits)

lemma shutdown_context_cases:
  assumes "map_order ord" "range_of ks (entries m)"
    and "shutdown_context_locked io ord ks ctx m w = (u, m', w')"
  shows "entries m' key = (if fk_contextName key = ctx then None else entries m key)"
    "u v = (if \<exists>k. fk_contextName k = ctx \<and> fk_vipAddr k = v \<and> entries m k \<noteq> None then ParseIP v else None)"
    "vipStates m' v = (if v \<in> dom u then None else vipStates m v)"
    "idleTimeout m' = idleTimeout m" "vipReleaser m' = vipReleaser m" "state_at m' = state_at m"
proof -
  obtain m1 where c: "close_context io ctx ks Map.empty m w = (u, m1, w')"
    and m': "m' = foldl drop_state m1 (ord (dom u))"
    using assms(3) by (auto simp: shutdown_context_locked_def split: prod.splits)
  note same = close_context_simps [OF c] and ent = close_context_entries [OF c]
    and u = close_context_vips [OF c range_of_distinct [OF assms(2)]]
  have ks: "k \<in> set ks \<longleftrightarrow> entries m k \<noteq> None" for k using range_of_set [OF assms(2)] by auto
  have "dom u \<subseteq> fk_vipAddr ` set ks" by (auto simp: u split: if_splits)
  then have "finite (dom u)" by (rule finite_subset) simp
  then have "set (ord (dom u)) = dom u" by (rule map_order_set [OF assms(1)])
  then show "vipStates m' v = (if v \<in> dom u then None else vipStates m v)"
    by (simp add: m' drop_states_eq same)
  show "entries m' key = (if fk_contextName key = ctx then None else entries m key)"
    using ks [of key] by (auto simp: m' drop_states_eq ent)
  show "u v = (if \<exists>k. fk_contextName k = ctx \<and> fk_vipAddr k = v \<and> entries m k \<noteq> None then ParseIP v else None)"
    using ks by (auto simp: u)
  have "state_at m1 = state_at m" by (simp add: state_at_def fun_eq_iff same)
  then show "idleTimeout m' = idleTimeout m" "vipReleaser m' = vipReleaser m" "state_at m' = state_at m"
    by (simp_all add: m' drop_states_eq same)
qed

lemma shutdown_context_finite:
  assumes "range_of ks (entries m)" "shutdown_context_locked io ord ks ctx m w = (u, m', w')"
  shows "finite (dom u)"
proof -
  obtain m1 where "close_context io ctx ks Map.empty m w = (u, m1, w')"
    using assms(2) by (auto simp: shutdown_context_locked_def split: prod.splits)
  note close_context_vips [OF this range_of_distinct [OF assms(1)]]
  then have "dom u \<subseteq> fk_vipAddr ` set ks" by (auto split: if_splits)
  then show ?thesis by (rule finite_subset) simp
qed

lemma close_context_cancelled:
  assumes "close_context io ctx ks u m w = (u', m', w')"
  shows "cancelled m \<subseteq> cancelled m' \<and>
    (\<forall>key e. key \<in> set ks \<and> fk_contextName key = ctx \<and> entries m key = Some e \<longrightarrow> cancel e \<in> cancelled m')"
  using assms
proof (induction ks arbitrary: u m w)
  case (Cons k ks)
  show ?case
  proof (cases "entries m k \<noteq> None \<and> fk_contextName k = ctx")
    case False
    with Cons.prems have "close_context io ctx ks u m w = (u', m', w')" by (auto split: option.splits)
    from Cons.IH [OF this] False show ?thesis by auto
  next
    case True
    then obtain entry where e: "entries m k = Some entry" by auto
    let ?m = "m\<lparr>cancelled := insert (cancel entry) (cancelled m), entries := (entries m)(k := None)\<rparr>"
    obtain u1 w1 where run: "close_context io ctx ks u1 ?m w1 = (u', m', w')"
      using Cons.prems True e by (auto simp: cancel_entry_def Let_def)
    have "cancel e' \<in> cancelled m'" if "key \<in> set (k # ks)" "fk_contextName key = ctx" "entries m key = Some e'" for key e'
      using Cons.IH [OF run] that e by (cases "key = k") (simp_all, metis option.inject)
    with Cons.IH [OF run] show ?thesis by auto
  qed
qed simp

lemma shutdown_context_cancelled:
  assumes "range_of ks (entries m)" "shutdown_context_locked io ord ks ctx m w = (u, m', w')"
    and "entries m key = Some e" "fk_contextName key = ctx"
  shows "cancel e \<in> cancelled m'"
proof -
  obtain m1 where c: "close_context io ctx ks Map.empty m w = (u, m1, w')"
    and m': "m' = foldl drop_state m1 (ord (dom u))"
    using assms(2) by (auto simp: shutdown_context_locked_def split: prod.splits)
  have "cancelled (foldl drop_state m1 vs) = cancelled m1" for vs
    by (rule foldl_invariant [where P = "\<lambda>m. cancelled m = cancelled m1"])
      (auto simp: drop_state_def stopTimer_def split: option.splits)
  moreover have "key \<in> set ks" using range_of_set [OF assms(1)] assms(3) by auto
  ultimately show ?thesis using close_context_cancelled [OF c] assms(3,4) by (simp add: m')
qed

lemma keys_ok_shutdown_context:
  assumes ok: "keys_ok own m" and ord: "map_order ord" and ks: "range_of ks (entries m)"
    and run: "shutdown_context_locked io ord ks ctx m w = (u, m', w')"
  shows "keys_ok own m'"
proof (rule keys_okI)
  note eff = shutdown_context_cases [OF ord ks run]
  fix key assume "entries m' key \<noteq> None"
  then have key: "entries m key \<noteq> None" "fk_contextName key \<noteq> ctx" by (auto simp: eff(1) split: if_splits)
  show k: "fk_contextName key = own (fk_vipAddr key)" by (rule keys_okD(1) [OF ok key(1)])
  assume "0 < idleTimeout m'" "vipReleaser m'"
  then obtain a where a: "vipStates m (fk_vipAddr key) = Some a" "key \<in> set (forwardKeys (state_at m a))"
    using keys_okD(2) [OF ok key(1)] by (auto simp: eff(4,5))
  have "fk_contextName k' = own (fk_vipAddr k')" if "entries m k' \<noteq> None" for k'
    by (rule keys_okD(1) [OF ok that])
  then have "fk_vipAddr key \<notin> dom u" using key(2) k by (auto simp: eff(2) split: if_splits)
  with a show "\<exists>a. vipStates m' (fk_vipAddr key) = Some a \<and> key \<in> set (forwardKeys (state_at m' a))"
    by (simp add: eff(3,6))
next
  show "fk_vipAddr key = v" if "vipStates m' v = Some b" "key \<in> set (forwardKeys (state_at m' b))" for v b key
    using that keys_ok_vip [OF ok, of v b key] shutdown_context_cases(3,6) [OF ord ks run]
    by (auto split: if_splits)
qed

lemma conn_simps [simp]:
  "entries (conn_enter a m) = entries m" "vipStates (conn_enter a m) = vipStates m"
  "idleTimeout (conn_enter a m) = idleTimeout m" "vipReleaser (conn_enter a m) = vipReleaser m"
  "forwardKeys (state_at (conn_enter a m) b) = forwardKeys (state_at m b)"
  "entries (conn_leave n v a m) = entries m" "vipStates (conn_leave n v a m) = vipStates m"
  "idleTimeout (conn_leave n v a m) = idleTimeout m" "vipReleaser (conn_leave n v a m) = vipReleaser m"
  "forwardKeys (state_at (conn_leave n v a m) b) = forwardKeys (state_at m b)"
  by (auto simp: conn_enter_def conn_leave_def Let_def)

definition sys_keys_ok :: "(string \<Rightarrow> string) \<Rightarrow> ('l, 'w, 'v) fm_sys \<Rightarrow> bool" where
  "sys_keys_ok own s \<longleftrightarrow> fm_sys_inv s \<and> keys_ok own (mgr s) \<and>
     (\<forall>x \<in># starting s. fk_contextName (fst x) = own (fk_vipAddr (fst x)))"

lemma keys_ok_shutdown:
  assumes "range_of ks (entries m)" "shutdown_locked io ord ks m w = (m', w')"
  shows "entries m' = Map.empty" "vipStates m' = Map.empty"
proof -
  obtain m1 where c: "expire_keys io ks m w = (m1, w')"
    and m': "m' = (foldl (\<lambda>m vip. case vipStates m vip of None \<Rightarrow> m | Some a \<Rightarrow> stopTimer a m) m1
      (ord (dom (vipStates m1))))\<lparr>vipStates := Map.empty\<rparr>"
    using assms(2) by (auto simp: shutdown_locked_def Let_def split: prod.splits)
  have "entries m1 k = None" for k
    using expire_keys_entries [of io ks m w k] c range_of_set [OF assms(1)] by (auto simp: domIff split: if_splits)
  then have "entries m1 = Map.empty" by (rule ext)
  moreover have "entries (foldl (\<lambda>m vip. case vipStates m vip of None \<Rightarrow> m | Some a \<Rightarrow> stopTimer a m) m1 vs) = entries m1" for vs
    by (rule foldl_invariant [where P = "\<lambda>m. entries m = entries m1"]) (auto split: option.splits)
  ultimately show "entries m' = Map.empty" "vipStates m' = Map.empty" by (simp_all add: m')
qed

lemma foldl_stop_cancelled:
  "cancelled (foldl (\<lambda>m vip. case vipStates m vip of None \<Rightarrow> m | Some a \<Rightarrow> stopTimer a m) m vs) = cancelled m"
  by (rule foldl_invariant [where P = "\<lambda>m'. cancelled m' = cancelled m"])
    (auto simp: stopTimer_def split: option.splits)

lemma keys_ok_step:
  assumes "fm_step io rel ord s s'" "map_order ord" "sys_keys_ok own s"
  shows "keys_ok own (mgr s')"
  using assms(1,3) unfolding sys_keys_ok_def
proof (induction rule: fm_step.induct)
  case (start_hit s key m')
  then show ?case by (auto simp: start_check_def split: option.splits intro: keys_ok_cong)
next
  case (start_listen addr s ln w' c m' key)
  then have "m' = (mgr s)\<lparr>calloc := calloc (mgr s) + 1\<rparr>" by (auto simp: new_context_def)
  moreover have "keys_ok own (mgr s)" using start_listen.prems by simp
  ultimately show ?case by (auto intro: keys_ok_cong)
next
  case (commit key entry s m')
  then have key: "fk_contextName key = own (fk_vipAddr key)" by fastforce
  have k: "keys_ok own (mgr s)"
    and inv: "fm_inv {} (mgr s) (entering s) (serving s) (fired s) (clock s)"
    using commit.prems by (simp_all add: fm_sys_inv_def)
  show ?case using keys_ok_commit [OF k key inv commit.hyps(2)] by simp
next
  case (commit_raced key entry s m1 m' w')
  then have key: "fk_contextName key = own (fk_vipAddr key)" by fastforce
  have k: "keys_ok own (mgr s)"
    and inv: "fm_inv {} (mgr s) (entering s) (serving s) (fired s) (clock s)"
    using commit_raced.prems by (simp_all add: fm_sys_inv_def)
  have "keys_ok own m1" by (rule keys_ok_commit [OF k key inv commit_raced.hyps(2)])
  then have "keys_ok own m'"
    by (rule keys_ok_cong) (use commit_raced.hyps(3) in \<open>auto simp: cancel_entry_def\<close>)
  then show ?case by simp
next
  case (touch s vip)
  then show ?case by (auto simp: TouchVIP_def intro: keys_ok_cong)
next
  case (enter s a vip)
  then show ?case by (auto intro: keys_ok_cong)
next
  case (leave a vip s)
  then show ?case by (auto intro: keys_ok_cong)
next
  case (fire s t due vip gen)
  then show ?case by (auto intro: keys_ok_cong)
next
  case (expire vip gen s expired m' w')
  with keys_ok_expire [OF _ _ expire.hyps(2)] show ?case by (auto simp: fm_sys_inv_def)
next
  case (shutdown_context ks s ctx u m' w')
  with keys_ok_shutdown_context [OF _ assms(2) shutdown_context.hyps] show ?case by simp
next
  case (shutdown ks s m' w')
  with keys_ok_shutdown [OF shutdown.hyps] show ?case by (simp add: keys_ok_def)
qed simp_all

lemma sys_keys_ok_reachable:
  assumes "map_order ord" "reachable (fm_init r idle) (own_step own io rel ord) s"
  shows "sys_keys_ok own s"
proof (rule reachable_invariant [OF assms(2)])
  show "sys_keys_ok own s" if "fm_init r idle s" for s
    using that fm_sys_inv_init [OF that]
    by (simp add: sys_keys_ok_def fm_init_def keys_ok_def NewForwardManager_def)
next
  show "sys_keys_ok own s'" if "sys_keys_ok own s" "own_step own io rel ord s s'" for s s'
    using that keys_ok_step [OF _ assms(1) that(1)] fm_sys_inv_step
    by (auto simp: sys_keys_ok_def own_step_def)
qed

lemma touchVIPLocked_entries [simp]: "entries (touchVIPLocked now vip m) = entries m"
  by (simp add: touchVIPLocked_def Let_def split: option.splits)

lemma start_commit_entries:
  "entries (snd (start_commit now key e m)) = (if entries m key = None then (entries m)(key \<mapsto> e) else entries m)"
  by (simp add: start_commit_def Let_def split: option.splits)

lemma StartForward_entries:
  assumes "StartForward io now now' cm ctx vip port m w = (r, m', w')"
  shows "entries m k \<noteq> None \<Longrightarrow> entries m' k \<noteq> None"
    "r = None \<Longrightarrow> entries m' \<lparr>fk_contextName = (if ctx = '''' then CurrentContextName cm else ctx),
       fk_vipAddr = vip, fk_svcPort = port\<rparr> \<noteq> None"
proof -
  let ?key = "\<lparr>fk_contextName = (if ctx = '''' then CurrentContextName cm else ctx), fk_vipAddr = vip, fk_svcPort = port\<rparr>"
  have "entries m' = entries m \<and> (entries m ?key = None \<longrightarrow> r \<noteq> None) \<or> (\<exists>e. entries m' = (entries m)(?key \<mapsto> e))"
  proof (cases "entries m ?key")
    case None
    obtain res w1 where l: "Listen io (vip @ '':'' @ dec_int (sint port)) w = (res, w1)" by fastforce
    show ?thesis
    proof (cases res)
      case (Inl e)
      with None l assms have "m' = m" "r \<noteq> None" by (auto simp: StartForward_def start_check_def Let_def)
      then show ?thesis by blast
    next
      case (Inr ln)
      let ?c = "start_commit now' ?key \<lparr>listener = ln, cancel = calloc m\<rparr> (m\<lparr>calloc := calloc m + 1\<rparr>)"
      obtain raced m3 where c: "?c = (raced, m3)" by fastforce
      then have "entries m3 = (entries m)(?key \<mapsto> \<lparr>listener = ln, cancel = calloc m\<rparr>)"
        using start_commit_entries [of now' ?key "\<lparr>listener = ln, cancel = calloc m\<rparr>" "m\<lparr>calloc := calloc m + 1\<rparr>"] None
        by simp
      moreover have "entries m' = entries m3"
        using None l Inr c assms
        by (auto simp: StartForward_def start_check_def new_context_def cancel_entry_def Let_def split: if_splits)
      ultimately show ?thesis by auto
    qed
  next
    case (Some e)
    with assms show ?thesis by (auto simp: StartForward_def start_check_def Let_def)
  qed
  then show "entries m k \<noteq> None \<Longrightarrow> entries m' k \<noteq> None" "r = None \<Longrightarrow> entries m' ?key \<noteq> None" by fastforce+
qed

subsection \<open>A run\<close>

text \<open>
  One listener is bound and committed at time 0, with an idle timeout of 10: the states before,
  between the two critical sections of StartForward, and after.
\<close>

definition key_of :: "string \<Rightarrow> forwardKey" where
  "key_of c = \<lparr>fk_contextName = c, fk_vipAddr = ''10.0.0.2'', fk_svcPort = 80\<rparr>"

definition demo_io :: "(nat, nat list) netio" where
  "demo_io = \<lparr>Listen = (\<lambda>addr w. (Inr (length w), length w # w)), Listener_Close = (\<lambda>l w. removeAll l w)\<rparr>"

definition demo_entry :: "nat forwardEntry" where
  "demo_entry = \<lparr>listener = 0, cancel = 0\<rparr>"

definition demo_fm :: "nat forwardManager" where
  "demo_fm = \<lparr>vipReleaser = True, idleTimeout = 10, entries = [key_of ''east'' \<mapsto> demo_entry],
     vipStates = [''10.0.0.2'' \<mapsto> 0],
     vheap = [0 \<mapsto> \<lparr>timer = Some 0, generation = 1, activeConns = 0, forwardKeys = [key_of ''east'']\<rparr>],
     valloc = 1, armed = [0 \<mapsto> (10, ''10.0.0.2'', 1)], talloc = 1, cancelled = {}, calloc = 1\<rparr>"

definition fs0 :: "(nat, nat list, unit) fm_sys" where
  "fs0 = \<lparr>mgr = NewForwardManager True 10, fworld = [], vips = (), clock = 0, starting = {#},
     entering = {#}, serving = {#}, fired = {#}, releasing = {#}\<rparr>"

definition fs1 :: "(nat, nat list, unit) fm_sys" where
  "fs1 = fs0\<lparr>mgr := (NewForwardManager True 10)\<lparr>calloc := 1\<rparr>, fworld := [0],
     starting := {#(key_of ''east'', demo_entry)#}\<rparr>"

definition fs2 :: "(nat, nat list, unit) fm_sys" where
  "fs2 = fs0\<lparr>mgr := demo_fm, fworld := [0]\<rparr>"

definition no_rel :: "ip \<Rightarrow> unit \<Rightarrow> goerr option \<times> unit" where
  "no_rel a v = (None, v)"

lemma ParseIP_demo: "ParseIP ''10.0.0.2'' \<noteq> None"
proof -
  have "dotted [10, 0, 0, 2] = ''10.0.0.2''"
    by (simp add: dotted_def dec.simps digit_char_def char_of_def bit_0)
  with ParseIP_dotted [of "[10, 0, 0, 2]"] show ?thesis by simp
qed

lemma fs2_reachable_own: "reachable (fm_init True 10) (own_step (\<lambda>_. ''east'') demo_io no_rel by_name) fs2"
proof (rule reach_step [OF reach_step [OF reach_init]])
  show "fm_init True 10 fs0" by (simp add: fs0_def fm_init_def)
  show "own_step (\<lambda>_. ''east'') demo_io no_rel by_name fs0 fs1"
    using start_listen [of demo_io "''10.0.0.2:80''" fs0 0 "[0]" 0 "(NewForwardManager True 10)\<lparr>calloc := 1\<rparr>"
        no_rel by_name "key_of ''east''"]
    by (simp add: own_step_def fs0_def fs1_def demo_io_def new_context_def NewForwardManager_def demo_entry_def
        key_of_def)
  have "start_commit (clock fs1) (key_of ''east'') demo_entry (mgr fs1) = (False, demo_fm)"
    by (simp add: start_commit_def touchVIPLocked_def rearm_def stopTimer_def put_state_def state_at_def
        fs1_def fs0_def NewForwardManager_def demo_fm_def key_of_def)
  from commit [OF _ this, of demo_io no_rel by_name] show "own_step (\<lambda>_. ''east'') demo_io no_rel by_name fs1 fs2"
    by (simp add: own_step_def fs0_def fs1_def fs2_def)
qed

lemma fs2_reachable: "reachable (fm_init True 10) (fm_step demo_io no_rel by_name) fs2"
  by (rule reachable_mono [OF fs2_reachable_own]) (simp add: own_step_def)

lemma demo_expire:
  "expire_locked demo_io ''10.0.0.2'' 1 (mgr fs2) (fworld fs2) =
     (True, demo_fm\<lparr>entries := Map.empty, vipStates := Map.empty, cancelled := {0}\<rparr>, [])"
  by (simp add: expire_locked_def fs2_def fs0_def demo_fm_def state_at_def cancel_entry_def demo_entry_def
      demo_io_def)

subsection \<open>Properties\<close>

text \<open>
  C3: an idle timer never takes an address away under a connection. In every state that any
  interleaving can reach, when a timer callback goes on to expire a VIP, no connection handler
  that has entered this VIP's state is still serving.
\<close>

theorem expiry_spares_serving:
  assumes "reachable (fm_init r idle) (fm_step io rel ord) s"
    and "expire_locked io vip gen (mgr s) (fworld s) = (True, m', w')"
  shows "\<exists>a. vipStates (mgr s) vip = Some a \<and> (\<forall>v. (a, v) \<notin># serving s)"
proof -
  have inv: "fm_inv {} (mgr s) (entering s) (serving s) (fired s) (clock s)"
    using fm_sys_inv_reachable [OF assms(1)] by (simp add: fm_sys_inv_def)
  obtain a where a: "vipStates (mgr s) vip = Some a" "\<not> 0 < sint (activeConns (state_at (mgr s) a))"
    using expire_locked_cases [OF assms(2)] by blast
  then have "conns a (serving s) = 0" using active_pos [OF inv fm_invD(10) [OF inv a(1)]] by simp
  then show ?thesis using a(1) conns_0 [of a "serving s"] by auto
qed

theorem expiry_spares_serving_witness:
  "\<exists>a. vipStates (mgr fs2) ''10.0.0.2'' = Some a \<and> (\<forall>v. (a, v) \<notin># serving fs2)"
  by (rule expiry_spares_serving [OF fs2_reachable demo_expire])

text \<open>
  An idle VIP does not linger: from every reachable state in which a VIP is tracked and no
  connection is served on its state, its timer or a callback of it is under way, no later than an
  idle timeout from now, and the callback will expire it.
\<close>

lemma idle_ticking:
  assumes "reachable (fm_init r idle) (fm_step io rel ord) s"
    and "vipStates (mgr s) vip = Some a" "\<forall>v. (a, v) \<notin># serving s"
  shows "\<not> 0 < sint (activeConns (state_at (mgr s) a))"
    and "(vip, generation (state_at (mgr s) a)) \<in># fired s \<or>
      (\<exists>t due. armed (mgr s) t = Some (due, vip, generation (state_at (mgr s) a)) \<and>
         due \<le> clock s + idleTimeout (mgr s))"
    and "0 < idleTimeout (mgr s)"
proof -
  have inv: "fm_inv {} (mgr s) (entering s) (serving s) (fired s) (clock s)"
    using fm_sys_inv_reachable [OF assms(1)] by (simp add: fm_sys_inv_def)
  have zero: "conns a (serving s) = 0" using assms(3) conns_0 [of a "serving s"] by auto
  show "\<not> 0 < sint (activeConns (state_at (mgr s) a))"
    using active_pos [OF inv fm_invD(10) [OF inv assms(2)]] zero by simp
  show "0 < idleTimeout (mgr s)" using fm_invD(13) [OF inv assms(2)] by simp
  have "ticking (mgr s) (fired s) vip a" by (rule fm_invD(12) [OF inv assms(2) _ zero]) simp
  then show "(vip, generation (state_at (mgr s) a)) \<in># fired s \<or>
      (\<exists>t due. armed (mgr s) t = Some (due, vip, generation (state_at (mgr s) a)) \<and>
         due \<le> clock s + idleTimeout (mgr s))"
    using fm_invD(9) [OF inv] by (fastforce simp: ticking_def)
qed

text \<open>
  No listener survives the expiry of its VIP. When all listeners on a VIP belong to one
  context, a callback that expires the VIP leaves no listener on it in the manager, every one it
  removed has its accept loop cancelled, and the listeners of other VIPs stay.
\<close>

lemma expired_vip_has_no_listener:
  assumes "map_order ord" "reachable (fm_init r idle) (own_step own io rel ord) s"
    and "expire_locked io vip gen (mgr s) (fworld s) = (True, m', w')"
  shows "\<forall>key. entries m' key = (if fk_vipAddr key = vip then None else entries (mgr s) key) \<and>
    (\<forall>e. entries (mgr s) key = Some e \<and> fk_vipAddr key = vip \<longrightarrow> cancel e \<in> cancelled m')"
proof
  fix key
  note ok = sys_keys_ok_reachable [OF assms(1,2), unfolded sys_keys_ok_def fm_sys_inv_def]
  then have inv: "fm_inv {} (mgr s) (entering s) (serving s) (fired s) (clock s)"
    and keys: "keys_ok own (mgr s)" by simp_all
  obtain a m1 where a: "vipStates (mgr s) vip = Some a"
    and "expire_keys io (forwardKeys (state_at (mgr s) a)) (mgr s) (fworld s) = (m1, w')"
    and m': "m' = m1\<lparr>vipStates := (vipStates m1)(vip := None)\<rparr>"
    using expire_locked_cases [OF assms(3)] by blast
  then have m1: "m1 = fst (expire_keys io (forwardKeys (state_at (mgr s) a)) (mgr s) (fworld s))" by simp
  have mem: "key \<in> set (forwardKeys (state_at (mgr s) a)) \<longleftrightarrow> fk_vipAddr key = vip"
    if "entries (mgr s) key \<noteq> None"
    using keys_okD(2) [OF keys that] fm_invD(13) [OF inv a] a keys_ok_vip [OF keys a, of key] by auto
  have "entries m' key = (if fk_vipAddr key = vip then None else entries (mgr s) key)"
    using mem by (cases "entries (mgr s) key") (auto simp: m' m1 expire_keys_entries)
  moreover have "cancel e \<in> cancelled m'" if "entries (mgr s) key = Some e" "fk_vipAddr key = vip" for e
    using expire_keys_cancelled [of key _ "mgr s" e io] mem that by (simp add: m' m1)
  ultimately show "entries m' key = (if fk_vipAddr key = vip then None else entries (mgr s) key) \<and>
    (\<forall>e. entries (mgr s) key = Some e \<and> fk_vipAddr key = vip \<longrightarrow> cancel e \<in> cancelled m')" by blast
qed

text \<open>
  The context shutdown takes more than its own. The comment of ShutdownContext says that VIPs
  allocated exclusively for the context are released; the code releases every VIP on which the
  context has a listener. If another context listens on it too, that listener stays, but the VIP's
  idle state is gone and the VIP is among those to be released.
\<close>

lemma shutdown_context_orphans_shared_vip:
  assumes "map_order ord" "range_of ks (entries m)"
    and "entries m \<lparr>fk_contextName = c1, fk_vipAddr = vip, fk_svcPort = p1\<rparr> = Some e1"
    and "entries m \<lparr>fk_contextName = c2, fk_vipAddr = vip, fk_svcPort = p2\<rparr> = Some e2"
    and "c1 \<noteq> c2" "ParseIP vip \<noteq> None"
    and "shutdown_context_locked io ord ks c1 m w = (u, m', w')"
  shows "entries m' \<lparr>fk_contextName = c2, fk_vipAddr = vip, fk_svcPort = p2\<rparr> = Some e2 \<and>
    vipStates m' vip = None \<and> vip \<in> dom u"
proof -
  note eff = shutdown_context_cases [OF assms(1,2,7)]
  have "\<exists>k. fk_contextName k = c1 \<and> fk_vipAddr k = vip \<and> entries m k \<noteq> None"
    using assms(3) by (intro exI [of _ "\<lparr>fk_contextName = c1, fk_vipAddr = vip, fk_svcPort = p1\<rparr>"]) simp
  then have "vip \<in> dom u" using assms(6) by (simp add: domIff eff(2))
  then show ?thesis using assms(4,5) by (simp add: eff(1,3))
qed

lemma Shutdown_effect:
  assumes "range_of ks (entries m)" "range_of ps (spdyPool p)"
    and "Shutdown io sp ord ks ps m p w = (m', p', w')"
  shows "entries m' = Map.empty \<and> vipStates m' = Map.empty \<and> spdyPool p' = Map.empty \<and>
    (\<forall>e \<in> ran (entries m). cancel e \<in> cancelled m')"
proof -
  obtain w1 where s: "shutdown_locked io ord ks m w = (m', w1)"
    and c: "closePool sp (\<lambda>_. True) ps p w1 = (p', w')"
    using assms(3) by (auto simp: Shutdown_def Let_def split: prod.splits)
  note none = keys_ok_shutdown [OF assms(1) s]
  have "spdyPool p' = Map.empty" by (rule closePool_all [OF assms(2) c])
  moreover have "cancel e \<in> cancelled m'" if e: "e \<in> ran (entries m)" for e
  proof -
    obtain key where key: "entries m key = Some e" using e by (auto simp: ran_def)
    then have "key \<in> set ks" using range_of_set [OF assms(1)] by auto
    from expire_keys_cancelled [OF this key, of io w] s show ?thesis
      by (auto simp: shutdown_locked_def Let_def foldl_stop_cancelled split: prod.splits)
  qed
  ultimately show ?thesis using none by simp
qed

subsection \<open>Sockets that are closed\<close>

text \<open>
  \<open>live w\<close> is the set of sockets of the process that are not closed in the world \<open>w\<close>; \<open>lsock l\<close> is
  the socket of a listener, \<open>csock c\<close> that of a SPDY connection. Closing one takes it away and
  touches no other.
\<close>

definition listeners_of :: "(forwardKey \<rightharpoonup> 'l forwardEntry) \<Rightarrow> (string \<Rightarrow> bool) \<Rightarrow> 'l set" where
  "listeners_of es P = {listener e | key e. es key = Some e \<and> P (fk_contextName key)}"

definition conns_of :: "(spdyKey \<rightharpoonup> 'c) \<Rightarrow> (string \<Rightarrow> bool) \<Rightarrow> 'c set" where
  "conns_of cs P = {c | key c. cs key = Some c \<and> P (sk_contextName key)}"

definition pool_conn :: "'c pool \<Rightarrow> spdyKey \<Rightarrow> 'c option" where
  "pool_conn p key = map_option (\<lambda>a. conn (entry_at p a)) (spdyPool p key)"

text \<open>The values that a loop over the keys \<open>ks\<close> of a map meets where \<open>P\<close> holds.\<close>

definition picked :: "('k \<rightharpoonup> 'v) \<Rightarrow> ('k \<Rightarrow> bool) \<Rightarrow> 'k list \<Rightarrow> 'v set" where
  "picked m P ks = {y | x y. x \<in> set ks \<and> P x \<and> m x = Some y}"

lemma picked_Nil [simp]: "picked m P [] = {}"
  by (simp add: picked_def)

lemma picked_skip: "\<not> P k \<or> m k = None \<Longrightarrow> picked m P (k # ks) = picked m P ks"
  by (auto simp: picked_def)

lemma picked_take:
  assumes "m k = Some e" "P k"
  shows "picked m P (k # ks) = insert e (picked (m(k := None)) P ks)"
proof (intro equalityI subsetI)
  fix y assume "y \<in> picked m P (k # ks)"
  then obtain x where "x = k \<or> x \<in> set ks" "P x" "m x = Some y" by (auto simp: picked_def)
  with assms show "y \<in> insert e (picked (m(k := None)) P ks)" by (cases "x = k") (auto simp: picked_def)
qed (use assms in \<open>auto simp: picked_def split: if_splits\<close>)

lemma picked_all: "range_of ks m \<Longrightarrow> picked m P ks = {y | x y. m x = Some y \<and> P x}"
  using range_of_set [of ks m] by (auto simp: picked_def)

lemma closePool_conn:
  assumes "closePool sp sel ks p w = (p', w')"
  shows "entry_at p' = entry_at p" "pool_conn p' k = (if k \<in> set ks \<and> sel k then None else pool_conn p k)"
proof -
  define f where "f = (\<lambda>(p, w) key. case spdyPool p key of
         None \<Rightarrow> (p, w)
       | Some pe \<Rightarrow>
           if \<not> sel key then (p, w)
           else (p\<lparr>spdyPool := (spdyPool p)(key := None)\<rparr>, Conn_Close sp (conn (entry_at p pe)) w))"
  have step: "entry_at (fst (f pw key)) = entry_at (fst pw)" for pw key
    by (auto simp: f_def split: prod.splits option.splits)
  have "entry_at (fst (foldl f pw ks)) = entry_at (fst pw)" for pw
    by (induction ks arbitrary: pw) (simp_all add: step)
  from this [of "(p, w)"] assms show heap: "entry_at p' = entry_at p" by (simp add: closePool_def f_def)
  show "pool_conn p' k = (if k \<in> set ks \<and> sel k then None else pool_conn p k)"
    by (simp add: pool_conn_def heap closePool_keys [OF assms])
qed

lemma minus_minus: "A - {x} - X = A - insert x X"
  by auto

lemma range_of_pool_conn: "range_of ks (spdyPool p) \<Longrightarrow> range_of ks (pool_conn p)"
  by (simp add: range_of_def pool_conn_def dom_def)

lemma listeners_of_eq: "listeners_of es P = listener ` {e | key e. es key = Some e \<and> P (fk_contextName key)}"
  by (auto simp: listeners_of_def)

locale sockets =
  fixes io :: "('l, 'w) netio" and sp :: "('rc, 'tr, 'c, 'st, 'w) spdy" and live :: "'w \<Rightarrow> 'x set"
    and lsock :: "'l \<Rightarrow> 'x" and csock :: "'c \<Rightarrow> 'x"
  assumes listener_closes: "live (Listener_Close io l w) = live w - {lsock l}"
    and conn_closes: "live (Conn_Close sp c w) = live w - {csock c}"
begin

lemma expire_keys_live:
  "live (snd (expire_keys io ks m w)) = live w - lsock ` listener ` picked (entries m) (\<lambda>_. True) ks"
proof (induction ks arbitrary: m w)
  case (Cons k ks)
  show ?case
  proof (cases "entries m k")
    case None
    with Cons show ?thesis by (simp add: picked_skip)
  next
    case (Some e)
    let ?m = "m\<lparr>cancelled := insert (cancel e) (cancelled m), entries := (entries m)(k := None)\<rparr>"
    have eq: "picked (entries m) (\<lambda>_. True) (k # ks) = insert e (picked (entries ?m) (\<lambda>_. True) ks)"
      using picked_take [of "entries m" k e "\<lambda>_. True" ks] Some by simp
    have "snd (expire_keys io (k # ks) m w) = snd (expire_keys io ks ?m (Listener_Close io (listener e) w))"
      using Some by (simp add: cancel_entry_def)
    then show ?thesis by (simp only: eq Cons.IH listener_closes image_insert minus_minus)
  qed
qed simp

lemma close_context_live:
  assumes "close_context io ctx ks u m w = (u', m', w')"
  shows "live w' = live w - lsock ` listener ` picked (entries m) (\<lambda>k. fk_contextName k = ctx) ks"
  using assms
proof (induction ks arbitrary: u m w)
  case (Cons k ks)
  show ?case
  proof (cases "fk_contextName k = ctx \<and> entries m k \<noteq> None")
    case False
    then have "close_context io ctx ks u m w = (u', m', w')" using Cons.prems by (auto split: option.splits)
    with Cons.IH False show ?thesis by (auto simp: picked_skip)
  next
    case True
    then obtain e where e: "entries m k = Some e" "fk_contextName k = ctx" by auto
    let ?m = "m\<lparr>cancelled := insert (cancel e) (cancelled m), entries := (entries m)(k := None)\<rparr>"
    obtain u1 where "close_context io ctx ks u1 ?m (Listener_Close io (listener e) w) = (u', m', w')"
      using Cons.prems e by (auto simp: cancel_entry_def Let_def)
    note Cons.IH [OF this]
    moreover have "picked (entries m) (\<lambda>k. fk_contextName k = ctx) (k # ks) =
        insert e (picked (entries ?m) (\<lambda>k. fk_contextName k = ctx) ks)"
      using picked_take [of "entries m" k e "\<lambda>k. fk_contextName k = ctx" ks] e by simp
    ultimately show ?thesis by (simp only: listener_closes image_insert minus_minus)
  qed
qed simp

lemma closePool_live:
  assumes "closePool sp sel ks p w = (p', w')"
  shows "live w' = live w - csock ` picked (pool_conn p) sel ks"
proof -
  have step: "closePool sp sel (k # ks) p w = (case spdyPool p k of
         None \<Rightarrow> closePool sp sel ks p w
       | Some pe \<Rightarrow> if \<not> sel k then closePool sp sel ks p w
           else closePool sp sel ks (p\<lparr>spdyPool := (spdyPool p)(k := None)\<rparr>) (Conn_Close sp (conn (entry_at p pe)) w))"
    for k ks p w by (simp add: closePool_def split: option.splits)
  show ?thesis
    using assms
  proof (induction ks arbitrary: p w)
    case (Cons k ks)
    show ?case
    proof (cases "sel k \<and> spdyPool p k \<noteq> None")
      case False
      then have "closePool sp sel ks p w = (p', w')" using Cons.prems by (auto simp: step split: option.splits)
      with Cons.IH False show ?thesis by (auto simp: picked_skip pool_conn_def)
    next
      case True
      then obtain a where a: "spdyPool p k = Some a" "sel k" by auto
      let ?p = "p\<lparr>spdyPool := (spdyPool p)(k := None)\<rparr>" and ?c = "conn (entry_at p a)"
      have "pool_conn p k = Some ?c" "pool_conn ?p = (pool_conn p)(k := None)" using a by (auto simp: pool_conn_def)
      moreover have "closePool sp sel ks ?p (Conn_Close sp ?c w) = (p', w')" using Cons.prems a by (simp add: step)
      moreover note Cons.IH [OF this]
      moreover have "picked (pool_conn p) sel (k # ks) = insert ?c (picked ((pool_conn p)(k := None)) sel ks)"
        using picked_take [of "pool_conn p" k ?c sel ks] \<open>pool_conn p k = Some ?c\<close> a(2) by simp
      ultimately show ?thesis by (simp only: conn_closes image_insert minus_minus)
    qed
  qed (simp add: closePool_def)
qed

text \<open>What the two shutdowns close, in any order of their loops.\<close>

lemma ShutdownContext_live:
  assumes "range_of ks (entries m)" "range_of ps (spdyPool p)"
    and "ShutdownContext io sp rel ord ks ps ctx m p w v = (m', p', w', v')"
  shows "live w' = live w - lsock ` listeners_of (entries m) (\<lambda>c. c = ctx) - csock ` conns_of (pool_conn p) (\<lambda>c. c = ctx)"
proof -
  obtain u m1 w1 where c: "close_context io ctx ks Map.empty m w = (u, m1, w1)"
    and p: "closePool sp (\<lambda>k. sk_contextName k = ctx) ps p w1 = (p', w')"
    using assms(3) by (auto simp: ShutdownContext_def shutdown_context_locked_def Let_def split: prod.splits)
  show ?thesis
    using close_context_live [OF c] closePool_live [OF p] assms(1) range_of_pool_conn [OF assms(2)]
    by (simp add: picked_all listeners_of_eq conns_of_def)
qed

lemma Shutdown_live:
  assumes "range_of ks (entries m)" "range_of ps (spdyPool p)"
    and "Shutdown io sp ord ks ps m p w = (m', p', w')"
  shows "live w' = live w - lsock ` listeners_of (entries m) (\<lambda>_. True) - csock ` conns_of (pool_conn p) (\<lambda>_. True)"
proof -
  obtain m1 w1 where c: "expire_keys io ks m w = (m1, w1)" and p: "closePool sp (\<lambda>_. True) ps p w1 = (p', w')"
    using assms(3) by (auto simp: Shutdown_def shutdown_locked_def Let_def split: prod.splits)
  show ?thesis
    using expire_keys_live [of ks m w] c closePool_live [OF p] assms(1) range_of_pool_conn [OF assms(2)]
    by (simp add: picked_all listeners_of_eq conns_of_def)
qed

end

definition tw_io :: "(nat, tworld) netio" where
  "tw_io = \<lparr>Listen = (\<lambda>addr w. (Inr (tw_next w), w\<lparr>tw_next := tw_next w + 1\<rparr>)),
     Listener_Close = (\<lambda>l w. w\<lparr>tw_shut := (''forward'', l) # tw_shut w\<rparr>)\<rparr>"

definition tw_live :: "tworld \<Rightarrow> (string \<times> nat) set" where
  "tw_live w = - (set (tw_shut w) \<union> {''spdy''} \<times> set (tw_dead w))"

interpretation demo_socks: sockets tw_io demo_spdy tw_live "\<lambda>l. (''forward'', l)" "\<lambda>c. (''spdy'', c)"
  by unfold_locales (auto simp: tw_live_def tw_io_def demo_spdy_def)

text \<open>
  C26: Shutdown leaves nothing running. Afterwards the manager has no listener and no idle state,
  every accept loop it had is cancelled, no pooled connection is left, and whatever timer callback
  is still under way does nothing.
\<close>

theorem shutdown_quiesces:
  assumes "range_of ks (entries m)" "range_of ps (spdyPool p)"
    and "Shutdown io sp ord ks ps m p w = (m', p', w')"
  shows "entries m' = Map.empty \<and> vipStates m' = Map.empty \<and> spdyPool p' = Map.empty \<and>
    (\<forall>e \<in> ran (entries m). cancel e \<in> cancelled m') \<and>
    expire_locked io vip gen m' w'' = (False, m', w'')"
  using Shutdown_effect [OF assms] by (simp add: expire_locked_def)


theorem shutdown_quiesces_witness:
  "entries (fst (Shutdown tw_io demo_spdy by_name [key_of ''east''] [demo_key] demo_fm (sys_pool sys1) tw0)) =
     Map.empty"
proof -
  obtain m' p' w' where run: "Shutdown tw_io demo_spdy by_name [key_of ''east''] [demo_key] demo_fm
      (sys_pool sys1) tw0 = (m', p', w')"
    by (metis prod_cases3)
  have "range_of [key_of ''east''] (entries demo_fm)" "range_of [demo_key] (spdyPool (sys_pool sys1))"
    by (simp_all add: range_of_def demo_fm_def sys1_def pool1_def)
  from shutdown_quiesces [OF this run] run show ?thesis by simp
qed

text \<open>
  StartForward on every branch. If the listener is there already, the call returns nil, binds
  nothing and only touches the VIP; if binding fails, the error says which address and the manager
  is unchanged; else the new listener is the only change of the table, and when the idle expiry is
  on the VIP has a state that knows this listener and, without connections, a timer due one idle
  timeout later.
\<close>

lemma start_forward_branches:
  assumes "key = \<lparr>fk_contextName = (if ctx = '''' then CurrentContextName cm else ctx), fk_vipAddr = vip,
      fk_svcPort = port\<rparr>" "addr = vip @ '':'' @ dec_int (sint port)"
    and "StartForward io now now' cm ctx vip port m w = (r, m', w')"
  shows "(entries m key \<noteq> None \<longrightarrow> r = None \<and> m' = touchVIPLocked now vip m \<and> entries m' = entries m \<and> w' = w) \<and>
    (\<forall>err w1. entries m key = None \<and> Listen io addr w = (Inl err, w1) \<longrightarrow>
       r = Some (Wrapf (''listening on '' @ addr) err) \<and> m' = m \<and> w' = w1) \<and>
    (\<forall>ln w1. entries m key = None \<and> Listen io addr w = (Inr ln, w1) \<longrightarrow>
       r = None \<and> w' = w1 \<and> entries m' = (entries m)(key \<mapsto> \<lparr>listener = ln, cancel = calloc m\<rparr>) \<and>
       (0 < idleTimeout m \<and> vipReleaser m \<longrightarrow>
          (\<exists>a. vipStates m' vip = Some a \<and> key \<in> set (forwardKeys (state_at m' a)) \<and>
             (sint (activeConns (state_at m' a)) \<le> 0 \<longrightarrow> (\<exists>t. timer (state_at m' a) = Some t \<and>
                armed m' t = Some (now' + idleTimeout m, vip, generation (state_at m' a)))))))"
proof (intro conjI allI impI; (elim conjE)?)
  have touched: "entries (touchVIPLocked now vip m) = entries m"
    by (auto simp: touchVIPLocked_def Let_def split: option.splits)
  show "r = None" "m' = touchVIPLocked now vip m" "entries m' = entries m" "w' = w" if "entries m key \<noteq> None"
    using that assms(3) touched unfolding assms(1)
    by (auto simp: StartForward_def start_check_def split: option.splits)
  show "r = Some (Wrapf (''listening on '' @ addr) err)" "m' = m" "w' = w1"
    if "entries m key = None" "Listen io addr w = (Inl err, w1)" for err w1
    using that assms by (auto simp: StartForward_def start_check_def)
  fix ln w1 assume new: "entries m key = None" and ln: "Listen io addr w = (Inr ln, w1)"
  let ?m = "m\<lparr>calloc := calloc m + 1\<rparr>" and ?e = "\<lparr>listener = ln, cancel = calloc m\<rparr>"
  obtain m3 where m3: "start_commit now' key ?e ?m = (False, m3)"
    using new by (cases "start_commit now' key ?e ?m") (auto simp: start_commit_def Let_def split: if_splits)
  then have c: "start_commit now' key ?e ?m = (False, m')" and r: "r = None" "w' = w1"
    using new ln assms by (auto simp: StartForward_def start_check_def new_context_def)
  show "r = None" "w' = w1" by (fact r)+
  show "entries m' = (entries m)(key \<mapsto> ?e)"
    using c new by (auto simp: start_commit_def touchVIPLocked_def Let_def split: option.splits if_splits)
  assume "0 < idleTimeout m" "vipReleaser m"
  then show "\<exists>a. vipStates m' vip = Some a \<and> key \<in> set (forwardKeys (state_at m' a)) \<and>
             (sint (activeConns (state_at m' a)) \<le> 0 \<longrightarrow> (\<exists>t. timer (state_at m' a) = Some t \<and>
                armed m' t = Some (now' + idleTimeout m, vip, generation (state_at m' a))))"
    using c new assms(1)
    by (auto simp: start_commit_def touchVIPLocked_def rearm_def Let_def split: option.splits if_splits)
qed

lemma start_commit_fresh:
  assumes "entries m key = None" "vipStates m (fk_vipAddr key) = None" "0 < idleTimeout m" "vipReleaser m"
  shows "\<exists>m' a t. start_commit now key e m = (False, m') \<and> vipStates m' (fk_vipAddr key) = Some a \<and>
    timer (state_at m' a) = Some t \<and> armed m' t = Some (now + idleTimeout m, fk_vipAddr key, 1) \<and>
    generation (state_at m' a) = 1 \<and> activeConns (state_at m' a) = 0"
proof (intro exI conjI)
  let ?m = "snd (start_commit now key e m)"
  show "start_commit now key e m = (False, ?m)" using assms by (simp add: start_commit_def Let_def)
  show "vipStates ?m (fk_vipAddr key) = Some (valloc m)" "timer (state_at ?m (valloc m)) = Some (talloc m)"
    "armed ?m (talloc m) = Some (now + idleTimeout m, fk_vipAddr key, 1)"
    "generation (state_at ?m (valloc m)) = 1" "activeConns (state_at ?m (valloc m)) = 0"
    using assms by (simp_all add: start_commit_def touchVIPLocked_def rearm_def stopTimer_def Let_def)
qed

text \<open>
  C39: the generation numbers do not tell one life of a VIP from the next. They start again at 1
  with every new state, so the callback of a timer that went off before ShutdownContext removed
  the VIP expires the VIP's next life: there is a run to a state where the VIP was just bound
  again, its own timer is due a whole idle timeout later, and the old callback is about to take it
  away.
\<close>

theorem stale_callback_expires_new_life:
  "\<exists>s a t. reachable (fm_init True 10) (fm_step demo_io no_rel by_name) s \<and>
     vipStates (mgr s) ''10.0.0.2'' = Some a \<and> timer (state_at (mgr s) a) = Some t \<and>
     armed (mgr s) t = Some (clock s + 10, ''10.0.0.2'', 1) \<and> (''10.0.0.2'', 1) \<in># fired s \<and>
     fst (expire_locked demo_io ''10.0.0.2'' 1 (mgr s) (fworld s))"
proof -
  let ?step = "fm_step demo_io no_rel by_name" and ?vip = "''10.0.0.2''" and ?key = "key_of ''east''"
  let ?s3 = "fs2\<lparr>clock := 10, fworld := [0], vips := ()\<rparr>"
  let ?s4 = "?s3\<lparr>mgr := (mgr ?s3)\<lparr>armed := (armed (mgr ?s3))(0 := None)\<rparr>, fired := add_mset (?vip, 1) (fired ?s3)\<rparr>"
  have 3: "?step fs2 ?s3" by (rule tick) (simp add: fs2_def fs0_def)
  have 4: "?step ?s3 ?s4" by (rule fire [where due = 10]) (simp_all add: fs2_def demo_fm_def)
  obtain u m5 w5 where run: "shutdown_context_locked demo_io by_name [?key] ''east'' (mgr ?s4) (fworld ?s4) = (u, m5, w5)"
    by (metis prod_cases3)
  have ks: "range_of [?key] (entries (mgr ?s4))" by (simp add: range_of_def fs2_def demo_fm_def)
  let ?s5 = "?s4\<lparr>mgr := m5, fworld := w5,
      releasing := releasing ?s4 + (if vipReleaser m5 then mset (by_name (dom u)) else {#})\<rparr>"
  have 5: "?step ?s4 ?s5" by (rule fm_step.shutdown_context [OF ks run])
  note eff = shutdown_context_cases [OF map_order_by_name ks run]
  have "entries (mgr ?s4) ?key = Some demo_entry" by (simp add: fs2_def demo_fm_def)
  moreover have "fk_contextName ?key = ''east''" "fk_vipAddr ?key = ?vip" by (simp_all add: key_of_def)
  ultimately have u: "?vip \<in> dom u" using ParseIP_demo by (simp add: domIff eff(2)) (metis option.distinct(1))
  have m5: "entries m5 ?key = None" "vipStates m5 ?vip = None" "idleTimeout m5 = 10" "vipReleaser m5"
    using u by (simp_all add: eff fs2_def demo_fm_def key_of_def)
  let ?e = "\<lparr>listener = length w5, cancel = calloc m5\<rparr>"
  let ?s6 = "?s5\<lparr>mgr := m5\<lparr>calloc := calloc m5 + 1\<rparr>, fworld := length w5 # w5,
      starting := add_mset (?key, ?e) (starting ?s5)\<rparr>"
  have 6: "?step ?s5 ?s6"
    by (rule start_listen [where addr = "''10.0.0.2:80''"]) (simp_all add: demo_io_def new_context_def)
  have fresh: "entries (mgr ?s6) ?key = None" "vipStates (mgr ?s6) (fk_vipAddr ?key) = None" "0 < idleTimeout (mgr ?s6)"
    "vipReleaser (mgr ?s6)" using m5 by (simp_all add: key_of_def)
  from start_commit_fresh [OF this, of "clock ?s6" ?e] obtain m7 a t where
    c: "start_commit (clock ?s6) ?key ?e (mgr ?s6) = (False, m7)"
    and m7: "vipStates m7 (fk_vipAddr ?key) = Some a" "timer (state_at m7 a) = Some t"
      "armed m7 t = Some (clock ?s6 + idleTimeout (mgr ?s6), fk_vipAddr ?key, 1)"
      "generation (state_at m7 a) = 1" "activeConns (state_at m7 a) = 0" by blast
  let ?s7 = "?s6\<lparr>mgr := m7, starting := starting ?s6 - {#(?key, ?e)#}\<rparr>"
  have 7: "?step ?s6 ?s7" by (rule commit [OF _ c]) simp
  have "reachable (fm_init True 10) ?step ?s4" using fs2_reachable 3 4 by (blast intro: reach_step)
  then have "reachable (fm_init True 10) ?step ?s6" using 5 6 by (blast intro: reach_step)
  then have "reachable (fm_init True 10) ?step ?s7" using 7 by (blast intro: reach_step)
  moreover have "vipStates m7 ?vip = Some a" "armed m7 t = Some (20, ?vip, 1)"
    using m7(1,3) m5(3) by (simp_all add: key_of_def)
  ultimately show ?thesis using m7(2,4,5)
    by (intro exI [of _ ?s7] exI [of _ a] exI [of _ t]) (simp add: expire_locked_def split: prod.splits)
qed

end
