(* ===== verification/Kubeconfig_Handler.thy ===== *)
theory Kubeconfig_Handler
  imports Forward_Manager "HOL-Library.Product_Lexorder"
begin

text \<open>
  The \<^verbatim>\<open>/kubeconfig\<close> endpoint (\<^verbatim>\<open>internal/k8s/kubeconfig.go\<close>): it updates the client manager and
  closes the tunnels of the contexts whose configuration changed.

  client-go's \<^verbatim>\<open>clientcmd.Load\<close> and \<^verbatim>\<open>clientcmd.Write\<close> are the parameters \<open>load\<close> and \<open>write\<close>. A
  request that updates the config reads the kubeconfig files three times, before, during and after
  the update: the arguments \<open>f1\<close>, \<open>f2\<close> and \<open>f3\<close>. \<^verbatim>\<open>reflect.DeepEqual\<close> on the structs of a config is
  equality of their values.

  \<open>tunnels\<close> is what the endpoint relies on when it shuts a context down, and \<open>closing_tunnels\<close> adds
  that the sockets are closed; \<open>invalidated\<close> says whose tunnels an update has to close, by the two
  reads of the merged config, each of which may fail.
\<close>

record request =
  Method :: string
  Body :: "goerr + string"

record response =
  status :: nat
  header :: "(string \<times> string) list"
  content :: string

text \<open>What the program calls of the forward manager: its own state, the pool, the world and the VIPs.\<close>

type_synonym ('l, 'c, 'w, 'v) fmgr = "'l forwardManager \<times> 'c pool \<times> 'w \<times> 'v"

record ('l, 'c, 'w, 'v, 'rc, 'tr, 'st) fm_env =
  fe_io :: "('l, 'w) netio"
  fe_spdy :: "('rc, 'tr, 'c, 'st, 'w) spdy"
  fe_rel :: "ip \<Rightarrow> 'v \<Rightarrow> goerr option \<times> 'v"
  fe_keys :: "(forwardKey \<rightharpoonup> 'l forwardEntry) \<Rightarrow> forwardKey list"
  fe_pool :: "(spdyKey \<rightharpoonup> nat) \<Rightarrow> spdyKey list"

definition ShutdownContext_now ::
  "('l, 'c, 'w, 'v, 'rc, 'tr, 'st) fm_env \<Rightarrow> map_order \<Rightarrow> string \<Rightarrow> ('l, 'c, 'w, 'v) fmgr \<Rightarrow> ('l, 'c, 'w, 'v) fmgr" where
  "ShutdownContext_now fe ord name fm =
     (case fm of (m, p, w, v) \<Rightarrow>
        ShutdownContext (fe_io fe) (fe_spdy fe) (fe_rel fe) ord (fe_keys fe (entries m)) (fe_pool fe (spdyPool p))
          name m p w v)"

record ('cm, 'fm) kubeconfigHandler =
  h_clientManager :: "'cm option"
  h_forwardManager :: "'fm option"

definition AddToMux :: "('cm, 'fm) kubeconfigHandler" where
  "AddToMux = \<lparr>h_clientManager = None, h_forwardManager = None\<rparr>"

definition SetManagers :: "'cm \<Rightarrow> 'fm \<Rightarrow> ('cm, 'fm) kubeconfigHandler \<Rightarrow> ('cm, 'fm) kubeconfigHandler" where
  "SetManagers cm fm h = h\<lparr>h_clientManager := Some cm, h_forwardManager := Some fm\<rparr>"

definition parseAndValidate :: "(string \<Rightarrow> goerr + 'o kubecfg) \<Rightarrow> string \<Rightarrow> goerr + 'o kubecfg" where
  "parseAndValidate load raw =
     (if blank raw then Inl (Errorf ''empty kubeconfig'')
      else case load raw of
        Inl err \<Rightarrow> Inl (Wrapf ''invalid kubeconfig'' err)
      | Inr cfg \<Rightarrow> Inr cfg)"

definition affected :: "'o kubecfg \<Rightarrow> 'o kubecfg option \<Rightarrow> string \<Rightarrow> 'o kcontext \<Rightarrow> bool" where
  "affected oldCfg newCfg name oldCtx =
     (case newCfg of
        None \<Rightarrow> True
      | Some new \<Rightarrow>
          (case Contexts new name of
             None \<Rightarrow> True
           | Some newCtx \<Rightarrow>
               if oldCtx \<noteq> newCtx then True
               else if Clusters oldCfg (Cluster oldCtx) \<noteq> Clusters new (Cluster newCtx) then True
               else AuthInfos oldCfg (AuthInfo oldCtx) \<noteq> AuthInfos new (AuthInfo newCtx)))"

definition affectedContexts :: "map_order \<Rightarrow> 'o kubecfg option \<Rightarrow> 'o kubecfg option \<Rightarrow> string list" where
  "affectedContexts ord oldCfg newCfg =
     (case oldCfg of
        None \<Rightarrow> []
      | Some old \<Rightarrow>
          foldl (\<lambda>acc name. case Contexts old name of
              None \<Rightarrow> acc
            | Some oldCtx \<Rightarrow> if affected old newCfg name oldCtx then acc @ [name] else acc)
            [] (ord (dom (Contexts old))))"

definition shutdownTunnelsForContexts ::
  "('l, 'c, 'w, 'v, 'rc, 'tr, 'st) fm_env \<Rightarrow> map_order \<Rightarrow> string list \<Rightarrow>
   ('cm, ('l, 'c, 'w, 'v) fmgr) kubeconfigHandler \<Rightarrow> ('cm, ('l, 'c, 'w, 'v) fmgr) kubeconfigHandler" where
  "shutdownTunnelsForContexts fe ord names h =
     (if length names = 0 then h
      else case h_forwardManager h of
        None \<Rightarrow> h
      | Some fm \<Rightarrow> h\<lparr>h_forwardManager := Some (foldl (\<lambda>fm name. ShutdownContext_now fe ord name fm) fm names)\<rparr>)"

text \<open>\<^verbatim>\<open>http.Error\<close>\<close>

definition http_Error :: "string \<Rightarrow> nat \<Rightarrow> response" where
  "http_Error msg code = \<lparr>status = code,
     header = [(''Content-Type'', ''text/plain; charset=utf-8''), (''X-Content-Type-Options'', ''nosniff'')],
     content = msg @ [CHR 0x0A]\<rparr>"

definition noContent :: response where
  "noContent = \<lparr>status = 204, header = [], content = ''''\<rparr>"

definition cfg_or_nil :: "goerr + 'o kubecfg \<Rightarrow> 'o kubecfg option" where
  "cfg_or_nil r = (case r of Inl _ \<Rightarrow> None | Inr c \<Rightarrow> Some c)"

text \<open>
  The common shape of the four updates: what the update answers decides between an error response
  and closing the tunnels of the affected contexts. \<open>onErr\<close> is \<open>None\<close> where the code ignores the
  error.
\<close>

definition update_and_close ::
  "('l, 'c, 'w, 'v, 'rc', 'tr, 'st) fm_env \<Rightarrow> map_order \<Rightarrow> (goerr + 'o kubecfg) \<Rightarrow> (goerr + 'o kubecfg) \<Rightarrow>
   (('o, 'rc, 'cs) clientManager \<Rightarrow> goerr option \<times> ('o, 'rc, 'cs) clientManager) \<Rightarrow> (goerr \<Rightarrow> response option) \<Rightarrow>
   ('o, 'rc, 'cs) clientManager \<Rightarrow>
   (('o, 'rc, 'cs) clientManager, ('l, 'c, 'w, 'v) fmgr) kubeconfigHandler \<Rightarrow>
   response \<times> (('o, 'rc, 'cs) clientManager, ('l, 'c, 'w, 'v) fmgr) kubeconfigHandler" where
  "update_and_close fe ord f1 f3 upd onErr cm h =
     (let oldCfg = cfg_or_nil (MergedConfig ord f1 cm);
          (err, cm') = upd cm;
          h' = h\<lparr>h_clientManager := Some cm'\<rparr>
      in case Option.bind err onErr of
        Some resp \<Rightarrow> (resp, h')
      | None \<Rightarrow>
          (let newCfg = cfg_or_nil (MergedConfig ord f3 cm')
           in (noContent, shutdownTunnelsForContexts fe ord (affectedContexts ord oldCfg newCfg) h')))"

definition EmptyConfig :: "('o, 'rc, 'cs) clientgo \<Rightarrow> 'o kubecfg" where
  "EmptyConfig env = NewConfig env"

declare EmptyConfig_def [simp]

definition with_config ::
  "(string \<Rightarrow> goerr + 'o kubecfg) \<Rightarrow> request \<Rightarrow> ('o kubecfg \<Rightarrow> response \<times> 'h) \<Rightarrow> 'h \<Rightarrow> response \<times> 'h" where
  "with_config load r k h =
     (case Body r of
        Inl err \<Rightarrow> (http_Error (''reading request body: '' @ err_Error err) 400, h)
      | Inr raw \<Rightarrow>
          (case parseAndValidate load raw of
             Inl err \<Rightarrow> (http_Error (err_Error err) 400, h)
           | Inr parsed \<Rightarrow> k parsed))"

definition bad_request :: "goerr \<Rightarrow> response option" where
  "bad_request err = Some (http_Error (err_Error err) 400)"

definition conflict_or_bad :: "goerr \<Rightarrow> response option" where
  "conflict_or_bad err =
     (case errors_As_ConflictError err of
        Some _ \<Rightarrow> Some (http_Error (err_Error err) 409)
      | None \<Rightarrow> bad_request err)"

definition handleKubeconfig ::
  "('o, 'rc, 'cs) clientgo \<Rightarrow> (string \<Rightarrow> goerr + 'o kubecfg) \<Rightarrow> ('o kubecfg \<Rightarrow> goerr + string) \<Rightarrow>
   ('l, 'c, 'w, 'v, 'rc', 'tr, 'st) fm_env \<Rightarrow> map_order \<Rightarrow>
   (goerr + 'o kubecfg) \<Rightarrow> (goerr + 'o kubecfg) \<Rightarrow> (goerr + 'o kubecfg) \<Rightarrow> request \<Rightarrow>
   (('o, 'rc, 'cs) clientManager, ('l, 'c, 'w, 'v) fmgr) kubeconfigHandler \<Rightarrow>
   response \<times> (('o, 'rc, 'cs) clientManager, ('l, 'c, 'w, 'v) fmgr) kubeconfigHandler" where
  "handleKubeconfig env load write fe ord f1 f2 f3 r h =
     (case h_clientManager h of
        None \<Rightarrow> (http_Error (''kubeconfig management not configured'') 501, h)
      | Some cm \<Rightarrow>
          if Method r = ''GET'' then
            (let kubecfg = (case Kubeconfig cm of None \<Rightarrow> EmptyConfig env | Some c \<Rightarrow> c)
             in case write kubecfg of
               Inl err \<Rightarrow> (http_Error (err_Error err) 500, h)
             | Inr data \<Rightarrow> (\<lparr>status = 200, header = [(''Content-Type'', ''application/yaml'')], content = data\<rparr>, h))
          else if Method r = ''PUT'' then
            with_config load r (\<lambda>parsed. update_and_close fe ord f1 f3 (Reset env ord f2 (Some parsed)) bad_request cm h) h
          else if Method r = ''POST'' then
            with_config load r (\<lambda>parsed. update_and_close fe ord f1 f3 (Add env ord f2 parsed) conflict_or_bad cm h) h
          else if Method r = ''PATCH'' then
            with_config load r (\<lambda>parsed. update_and_close fe ord f1 f3 (MergeAndOverwrite env ord f2 parsed) bad_request cm h) h
          else if Method r = ''DELETE'' then
            update_and_close fe ord f1 f3 (Reset env ord f2 None) (\<lambda>_. None) cm h
          else
            (let e = http_Error (''method not allowed'') 405
             in (e\<lparr>header := (''Allow'', ''GET, PUT, POST, PATCH, DELETE'') # header e\<rparr>, h)))"

subsection \<open>The contexts that are affected\<close>

lemma affected_effective:
  "Contexts old n = Some ctx \<Longrightarrow>
     affected old new n ctx \<longleftrightarrow> (case new of None \<Rightarrow> True | Some c \<Rightarrow> effective c n \<noteq> effective old n)"
  by (auto simp: affected_def effective_def split: option.splits)

lemma affectedContexts_exact:
  assumes "map_order ord" "finite (dom (Contexts old))"
  shows "distinct (affectedContexts ord (Some old) new)"
    "set (affectedContexts ord (Some old) new) =
       {n \<in> dom (Contexts old). case new of None \<Rightarrow> True | Some c \<Rightarrow> effective c n \<noteq> effective old n}"
proof -
  let ?P = "\<lambda>n. case Contexts old n of None \<Rightarrow> False | Some ctx \<Rightarrow> affected old new n ctx"
  have "foldl (\<lambda>acc n. case Contexts old n of None \<Rightarrow> acc
            | Some ctx \<Rightarrow> if affected old new n ctx then acc @ [n] else acc) acc ks = acc @ filter ?P ks" for acc ks
    by (induction ks arbitrary: acc) (auto split: option.splits)
  then have eq: "affectedContexts ord (Some old) new = filter ?P (ord (dom (Contexts old)))"
    by (simp add: affectedContexts_def)
  show "distinct (affectedContexts ord (Some old) new)"
    unfolding eq using map_order_distinct [OF assms] by simp
  show "set (affectedContexts ord (Some old) new) =
       {n \<in> dom (Contexts old). case new of None \<Rightarrow> True | Some c \<Rightarrow> effective c n \<noteq> effective old n}"
    unfolding eq using map_order_set [OF assms] by (auto simp: affected_effective split: option.splits)
qed

definition changed :: "'o kubecfg \<Rightarrow> 'o kubecfg \<Rightarrow> string \<Rightarrow> bool" where
  "changed old new n \<longleftrightarrow> Contexts old n \<noteq> None \<and> effective new n \<noteq> effective old n"

lemma affectedContexts_changed:
  "map_order ord \<Longrightarrow> finite_cfg old \<Longrightarrow> n \<in> set (affectedContexts ord (Some old) (Some new)) \<longleftrightarrow> changed old new n"
  using affectedContexts_exact(2) [of ord old "Some new"] by (auto simp: changed_def finite_cfg_def)

subsection \<open>Closing the tunnels of a list of contexts\<close>

definition fe_orders :: "('l, 'c, 'w, 'v, 'rc, 'tr, 'st) fm_env \<Rightarrow> bool" where
  "fe_orders fe \<longleftrightarrow> (\<forall>m. finite (dom m) \<longrightarrow> range_of (fe_keys fe m) m) \<and>
     (\<forall>m. finite (dom m) \<longrightarrow> range_of (fe_pool fe m) m)"

definition fm_finite :: "('l, 'c, 'w, 'v) fmgr \<Rightarrow> bool" where
  "fm_finite fm \<longleftrightarrow> (case fm of (m, p, w, v) \<Rightarrow> finite (dom (entries m)) \<and> finite (dom (spdyPool p)))"

definition fm_entry :: "('l, 'c, 'w, 'v) fmgr \<Rightarrow> forwardKey \<Rightarrow> 'l forwardEntry option" where
  "fm_entry fm key = (case fm of (m, p, w, v) \<Rightarrow> entries m key)"

definition fm_conn :: "('l, 'c, 'w, 'v) fmgr \<Rightarrow> spdyKey \<Rightarrow> 'c option" where
  "fm_conn fm key = (case fm of (m, p, w, v) \<Rightarrow> pool_conn p key)"

definition fm_live :: "('w \<Rightarrow> 'x set) \<Rightarrow> ('l, 'c, 'w, 'v) fmgr \<Rightarrow> 'x set" where
  "fm_live live fm = (case fm of (m, p, w, v) \<Rightarrow> live w)"

lemma fm_finite_iff: "fm_finite fm \<longleftrightarrow> finite (dom (fm_entry fm)) \<and> finite (dom (fm_conn fm))"
  by (cases fm) (simp add: fm_finite_def fm_entry_def fm_conn_def pool_conn_def dom_def)

lemma ShutdownContext_now_effect:
  assumes "map_order ord" "fe_orders fe" "fm_finite fm"
  shows "fm_entry (ShutdownContext_now fe ord name fm) key = (if fk_contextName key = name then None else fm_entry fm key)"
    "fm_conn (ShutdownContext_now fe ord name fm) k = (if sk_contextName k = name then None else fm_conn fm k)"
proof -
  obtain m p w v where fm: "fm = (m, p, w, v)" by (cases fm)
  have ks: "range_of (fe_keys fe (entries m)) (entries m)" and ps: "range_of (fe_pool fe (spdyPool p)) (spdyPool p)"
    using assms(2,3) by (simp_all add: fe_orders_def fm_finite_def fm)
  obtain u m1 w1 where s: "shutdown_context_locked (fe_io fe) ord (fe_keys fe (entries m)) name m w = (u, m1, w1)"
    by (metis prod_cases3)
  obtain p2 w2 where c: "closePool (fe_spdy fe) (\<lambda>k. sk_contextName k = name) (fe_pool fe (spdyPool p)) p w1 = (p2, w2)"
    by fastforce
  show "fm_entry (ShutdownContext_now fe ord name fm) key = (if fk_contextName key = name then None else fm_entry fm key)"
    using s c shutdown_context_cases(1) [OF assms(1) ks s]
    by (simp add: ShutdownContext_now_def ShutdownContext_def fm fm_entry_def)
  show "fm_conn (ShutdownContext_now fe ord name fm) k = (if sk_contextName k = name then None else fm_conn fm k)"
    using s c closePool_conn(2) [OF c, of k] range_of_set [OF ps]
    by (auto simp: ShutdownContext_now_def ShutdownContext_def fm fm_conn_def pool_conn_def)
qed

lemma ShutdownContext_now_finite:
  assumes "map_order ord" "fe_orders fe" "fm_finite fm"
  shows "fm_finite (ShutdownContext_now fe ord name fm)"
proof -
  have "dom (fm_entry (ShutdownContext_now fe ord name fm)) \<subseteq> dom (fm_entry fm)"
    "dom (fm_conn (ShutdownContext_now fe ord name fm)) \<subseteq> dom (fm_conn fm)"
    using ShutdownContext_now_effect [OF assms] by (auto split: if_splits)
  with assms(3) show ?thesis unfolding fm_finite_iff by (meson finite_subset)
qed

text \<open>
  What the endpoint relies on, whatever keeps the tunnels: closing a context removes the listeners
  and connections of this context, and nothing else.
\<close>

locale tunnels =
  fixes ok :: "'f \<Rightarrow> bool" and lis :: "'f \<Rightarrow> forwardKey \<Rightarrow> 'e option" and con :: "'f \<Rightarrow> spdyKey \<Rightarrow> 'p option"
    and close :: "string \<Rightarrow> 'f \<Rightarrow> 'f"
  assumes close_ok: "ok f \<Longrightarrow> ok (close n f)"
    and close_lis: "ok f \<Longrightarrow> lis (close n f) key = (if fk_contextName key = n then None else lis f key)"
    and close_con: "ok f \<Longrightarrow> con (close n f) k = (if sk_contextName k = n then None else con f k)"
begin

lemma close_all:
  assumes "ok f"
  shows "lis (foldl (\<lambda>f n. close n f) f names) key = (if fk_contextName key \<in> set names then None else lis f key)"
    "con (foldl (\<lambda>f n. close n f) f names) k = (if sk_contextName k \<in> set names then None else con f k)"
  using assms by (induction names arbitrary: f) (auto simp: close_ok close_lis close_con)

lemma close_all_order:
  assumes "ok f" "set names = set names'"
  shows "lis (foldl (\<lambda>f n. close n f) f names) = lis (foldl (\<lambda>f n. close n f) f names')"
  by (rule ext) (simp add: close_all [OF assms(1)] assms(2))

end

text \<open>
  If the keeper closes the sockets of what it removes, closing a list of contexts closes the sockets
  of everything that goes, and no other socket.
\<close>

definition of_contexts :: "('k \<Rightarrow> string) \<Rightarrow> ('k \<Rightarrow> 'e option) \<Rightarrow> string set \<Rightarrow> 'e set" where
  "of_contexts ctx m N = {e | key e. m key = Some e \<and> ctx key \<in> N}"

lemma of_contexts_insert:
  assumes "\<And>key. m' key = (if ctx key = n then None else m key)"
  shows "of_contexts ctx m (insert n N) = of_contexts ctx m {n} \<union> of_contexts ctx m' N"
proof (intro equalityI subsetI)
  fix e assume "e \<in> of_contexts ctx m (insert n N)"
  then obtain key where "m key = Some e" "ctx key \<in> insert n N" by (auto simp: of_contexts_def)
  then show "e \<in> of_contexts ctx m {n} \<union> of_contexts ctx m' N"
    by (cases "ctx key = n") (auto simp: of_contexts_def assms)
qed (auto simp: of_contexts_def assms split: if_splits)

locale closing_tunnels = tunnels ok lis con close
  for ok :: "'f \<Rightarrow> bool" and lis :: "'f \<Rightarrow> forwardKey \<Rightarrow> 'e option" and con :: "'f \<Rightarrow> spdyKey \<Rightarrow> 'p option"
    and close :: "string \<Rightarrow> 'f \<Rightarrow> 'f" +
  fixes open_socks :: "'f \<Rightarrow> 'x set" and ls :: "'e \<Rightarrow> 'x" and cs :: "'p \<Rightarrow> 'x"
  assumes close_socks: "ok f \<Longrightarrow> open_socks (close n f) =
      open_socks f - ls ` of_contexts fk_contextName (lis f) {n} - cs ` of_contexts sk_contextName (con f) {n}"
begin

lemma close_all_socks:
  assumes "ok f"
  shows "open_socks (foldl (\<lambda>f n. close n f) f names) =
    open_socks f - ls ` of_contexts fk_contextName (lis f) (set names) - cs ` of_contexts sk_contextName (con f) (set names)"
  using assms
proof (induction names arbitrary: f)
  case Nil
  then show ?case by (simp add: of_contexts_def)
next
  case (Cons n names)
  have split: "X - (ls ` (A \<union> A')) - (cs ` (B \<union> B')) = X - ls ` A - cs ` B - ls ` A' - cs ` B'"
    for X A A' B B' by (simp add: image_Un) blast
  have "of_contexts fk_contextName (lis f) (insert n (set names)) =
      of_contexts fk_contextName (lis f) {n} \<union> of_contexts fk_contextName (lis (close n f)) (set names)"
    "of_contexts sk_contextName (con f) (insert n (set names)) =
      of_contexts sk_contextName (con f) {n} \<union> of_contexts sk_contextName (con (close n f)) (set names)"
    by (rule of_contexts_insert, simp add: close_lis close_con Cons.prems)+
  then show ?case
    by (simp only: foldl_Cons list.set Cons.IH [OF close_ok [OF Cons.prems]] close_socks [OF Cons.prems] split)
qed

end

lemma fm_is_tunnels:
  assumes "map_order ord" "fe_orders fe"
  shows "tunnels fm_finite fm_entry fm_conn (ShutdownContext_now fe ord)"
  by unfold_locales
    (simp_all add: ShutdownContext_now_finite [OF assms] ShutdownContext_now_effect [OF assms])

lemma ShutdownContext_now_live:
  assumes "fe_orders fe" "fm_finite fm" "sockets (fe_io fe) (fe_spdy fe) live lsock csock"
  shows "fm_live live (ShutdownContext_now fe ord n fm) = fm_live live fm -
    (lsock \<circ> listener) ` of_contexts fk_contextName (fm_entry fm) {n} -
    csock ` of_contexts sk_contextName (fm_conn fm) {n}"
proof -
  obtain m p w v where fm: "fm = (m, p, w, v)" by (cases fm)
  have ks: "range_of (fe_keys fe (entries m)) (entries m)" and ps: "range_of (fe_pool fe (spdyPool p)) (spdyPool p)"
    using assms(1,2) by (simp_all add: fe_orders_def fm_finite_def fm)
  obtain m' p' w' v' where run: "ShutdownContext (fe_io fe) (fe_spdy fe) (fe_rel fe) ord (fe_keys fe (entries m))
      (fe_pool fe (spdyPool p)) n m p w v = (m', p', w', v')" by (metis prod_cases4)
  have "listeners_of (entries m) (\<lambda>c. c = n) = listener ` of_contexts fk_contextName (fm_entry fm) {n}"
    "conns_of (pool_conn p) (\<lambda>c. c = n) = of_contexts sk_contextName (fm_conn fm) {n}"
    by (auto simp: listeners_of_def conns_of_def of_contexts_def fm fm_entry_def fm_conn_def)
  with sockets.ShutdownContext_live [OF assms(3) ks ps run] run show ?thesis
    by (simp add: ShutdownContext_now_def fm fm_live_def image_comp)
qed

lemma fm_is_closing_tunnels:
  assumes "map_order ord" "fe_orders fe" "sockets (fe_io fe) (fe_spdy fe) live lsock csock"
  shows "closing_tunnels fm_finite fm_entry fm_conn (ShutdownContext_now fe ord) (fm_live live) (lsock \<circ> listener) csock"
  by (intro closing_tunnels.intro closing_tunnels_axioms.intro fm_is_tunnels assms(1,2)
      ShutdownContext_now_live [OF assms(2) _ assms(3)])

text \<open>
  The forward manager is such a keeper, whatever the order of its loops; with the orders of the
  keys by their fields it is one for every environment.
\<close>

definition fk_enc :: "'a forwardKey_scheme \<Rightarrow> string \<times> string \<times> int32 \<times> 'a" where
  "fk_enc k = (fk_contextName k, fk_vipAddr k, fk_svcPort k, forwardKey.more k)"

definition sk_enc :: "'a spdyKey_scheme \<Rightarrow> string \<times> string \<times> string \<times> 'a" where
  "sk_enc k = (sk_contextName k, sk_namespace k, sk_podName k, spdyKey.more k)"

lemma fk_enc_inj [simp]: "fk_enc k = fk_enc k' \<longleftrightarrow> k = k'"
  by (cases k; cases k') (simp add: fk_enc_def)

lemma sk_enc_inj [simp]: "sk_enc k = sk_enc k' \<longleftrightarrow> k = k'"
  by (cases k; cases k') (simp add: sk_enc_def)

instantiation forwardKey_ext :: (linorder) linorder
begin

definition less_eq_forwardKey_ext :: "'a forwardKey_scheme \<Rightarrow> 'a forwardKey_scheme \<Rightarrow> bool" where
  "k \<le> k' \<longleftrightarrow> fk_enc k \<le> fk_enc k'"

definition less_forwardKey_ext :: "'a forwardKey_scheme \<Rightarrow> 'a forwardKey_scheme \<Rightarrow> bool" where
  "k < k' \<longleftrightarrow> fk_enc k < fk_enc k'"

instance
  by standard (auto simp: less_eq_forwardKey_ext_def less_forwardKey_ext_def le_less not_less_iff_gr_or_eq)

end

instantiation spdyKey_ext :: (linorder) linorder
begin

definition less_eq_spdyKey_ext :: "'a spdyKey_scheme \<Rightarrow> 'a spdyKey_scheme \<Rightarrow> bool" where
  "k \<le> k' \<longleftrightarrow> sk_enc k \<le> sk_enc k'"

definition less_spdyKey_ext :: "'a spdyKey_scheme \<Rightarrow> 'a spdyKey_scheme \<Rightarrow> bool" where
  "k < k' \<longleftrightarrow> sk_enc k < sk_enc k'"

instance
  by standard (auto simp: less_eq_spdyKey_ext_def less_spdyKey_ext_def le_less not_less_iff_gr_or_eq)

end

definition by_fields ::
  "('l, 'w) netio \<Rightarrow> ('rc, 'tr, 'c, 'st, 'w) spdy \<Rightarrow> (ip \<Rightarrow> 'v \<Rightarrow> goerr option \<times> 'v) \<Rightarrow>
   ('l, 'c, 'w, 'v, 'rc, 'tr, 'st) fm_env" where
  "by_fields io sp rel = \<lparr>fe_io = io, fe_spdy = sp, fe_rel = rel, fe_keys = (\<lambda>m. sorted_list_of_set (dom m)),
     fe_pool = (\<lambda>m. sorted_list_of_set (dom m))\<rparr>"

lemma fe_orders_by_fields [simp]: "fe_orders (by_fields io sp rel)"
  by (simp add: fe_orders_def by_fields_def range_of_def)

interpretation fmt: tunnels fm_finite fm_entry fm_conn "ShutdownContext_now (by_fields io sp rel) by_name"
  for io sp rel
  by (rule fm_is_tunnels) simp_all

text \<open>Where closing a socket takes just this socket away, it closes what it removes.\<close>

sublocale sockets \<subseteq> fms: closing_tunnels fm_finite fm_entry fm_conn "ShutdownContext_now (by_fields io sp rel) by_name"
    "fm_live live" "lsock \<circ> listener" csock for rel
  by (rule fm_is_closing_tunnels) (simp, simp, simp add: by_fields_def sockets_axioms)

subsection \<open>The updates\<close>

text \<open>A config that was loaded is made of Go maps, which are finite.\<close>

definition finite_load :: "(string \<Rightarrow> goerr + 'o kubecfg) \<Rightarrow> bool" where
  "finite_load load \<longleftrightarrow> (\<forall>raw. finite_file (load raw))"

lemma parsed_finite: "finite_load load \<Longrightarrow> parseAndValidate load raw = Inr p \<Longrightarrow> finite_cfg p"
  unfolding finite_load_def parseAndValidate_def
  by (metis (no_types, lifting) Inl_Inr_False finite_file_simps(2) old.sum.simps(5,6) sumE sum.inject(2))

lemma rebuild_result: "fst (rebuild env ord f cm) = (case f of Inl e \<Rightarrow> Some e | Inr _ \<Rightarrow> None)"
  by (simp add: rebuild_def mergedConfig_def split: sum.splits option.splits)

lemma cm_apply_op:
  "cm_apply env ord f (OpReset d) = Reset env ord f d" "cm_apply env ord f (OpAdd c) = Add env ord f c"
  "cm_apply env ord f (OpMerge c) = MergeAndOverwrite env ord f c"
  by (simp_all add: fun_eq_iff)

lemma handleKubeconfig_update:
  assumes "finite_load load" "h_clientManager h = Some cm"
    and "handleKubeconfig env load write fe ord f1 f2 f3 r h = (resp, h')" "status resp = 204"
  shows "\<exists>op onErr. finite_op op \<and> (\<forall>e x. onErr e = Some x \<longrightarrow> status x \<noteq> 204) \<and>
    update_and_close fe ord f1 f3 (cm_apply env ord f2 op) onErr cm h = (resp, h')"
proof -
  have bad: "\<forall>e x. bad_request e = Some x \<longrightarrow> status x \<noteq> 204" "\<forall>e x. conflict_or_bad e = Some x \<longrightarrow> status x \<noteq> 204"
    by (auto simp: bad_request_def conflict_or_bad_def http_Error_def split: option.splits)
  have wc: "\<exists>p. finite_cfg p \<and> k p = (resp, h')" if "with_config load r k h = (resp, h')" for k
    using that assms(4) parsed_finite [OF assms(1)]
    by (auto simp: with_config_def http_Error_def split: sum.splits)
  consider "Method r = ''PUT''" | "Method r = ''POST''" | "Method r = ''PATCH''" | "Method r = ''DELETE''"
    using assms by (fastforce simp: handleKubeconfig_def http_Error_def Let_def split: if_splits sum.splits)
  then show ?thesis
  proof cases
    case 1
    from wc [where k = "\<lambda>p. update_and_close fe ord f1 f3 (Reset env ord f2 (Some p)) bad_request cm h"] 1 assms(2,3)
    obtain p where "finite_cfg p" "update_and_close fe ord f1 f3 (Reset env ord f2 (Some p)) bad_request cm h = (resp, h')"
      by (auto simp: handleKubeconfig_def)
    with bad(1) show ?thesis by (intro exI [of _ "OpReset (Some p)"] exI [of _ bad_request]) (auto simp: cm_apply_op)
  next
    case 2
    from wc [where k = "\<lambda>p. update_and_close fe ord f1 f3 (Add env ord f2 p) conflict_or_bad cm h"] 2 assms(2,3)
    obtain p where "finite_cfg p" "update_and_close fe ord f1 f3 (Add env ord f2 p) conflict_or_bad cm h = (resp, h')"
      by (auto simp: handleKubeconfig_def)
    with bad(2) show ?thesis by (intro exI [of _ "OpAdd p"] exI [of _ conflict_or_bad]) (auto simp: cm_apply_op)
  next
    case 3
    from wc [where k = "\<lambda>p. update_and_close fe ord f1 f3 (MergeAndOverwrite env ord f2 p) bad_request cm h"] 3 assms(2,3)
    obtain p where "finite_cfg p" "update_and_close fe ord f1 f3 (MergeAndOverwrite env ord f2 p) bad_request cm h = (resp, h')"
      by (auto simp: handleKubeconfig_def)
    with bad(1) show ?thesis by (intro exI [of _ "OpMerge p"] exI [of _ bad_request]) (auto simp: cm_apply_op)
  next
    case 4
    with assms(2,3) have "update_and_close fe ord f1 f3 (Reset env ord f2 None) (\<lambda>_. None) cm h = (resp, h')"
      by (simp add: handleKubeconfig_def)
    then show ?thesis by (intro exI [of _ "OpReset None"] exI [of _ "\<lambda>_. None"]) (auto simp: cm_apply_op)
  qed
qed

lemma cm_apply_finite:
  assumes "map_order ord" "finite_op op" "finite_dyn (dynamicConfig cm)" "cm_apply env ord f op cm = (r, cm')"
    "finite_file f"
  shows "finite_dyn (dynamicConfig cm')"
  using cm_apply_cases [OF assms(1-3), of env f]
proof
  assume "\<exists>d. finite_dyn d \<and> cm_apply env ord f op cm = rebuild env ord f (cm\<lparr>dynamicConfig := d\<rparr>)"
  then obtain d where d: "finite_dyn (dynamicConfig (cm\<lparr>dynamicConfig := d\<rparr>))"
    "rebuild env ord f (cm\<lparr>dynamicConfig := d\<rparr>) = (r, cm')" using assms(4) by auto
  show ?thesis using rebuild_spec(1) [OF assms(1) d(1) assms(5) d(2)] d(1) by simp
qed (use assms(3,4) in auto)

text \<open>
  The contexts whose tunnels an update has to close, by the two reads of the merged config. What the
  first read does not find is not closed: if the kubeconfig files could not be read then, nothing
  is. If they cannot be read afterwards, every context that was there counts as changed.
\<close>

definition invalidated ::
  "goerr + 'o kubecfg \<Rightarrow> goerr + 'o kubecfg \<Rightarrow> 'o kubecfg option \<Rightarrow> 'o kubecfg option \<Rightarrow> string \<Rightarrow> bool" where
  "invalidated f1 f3 dyn dyn' n \<longleftrightarrow>
     (case f1 of
        Inl _ \<Rightarrow> False
      | Inr raw1 \<Rightarrow>
          (case f3 of
             Inl _ \<Rightarrow> Contexts (merged_spec raw1 dyn) n \<noteq> None
           | Inr raw3 \<Rightarrow> changed (merged_spec raw1 dyn) (merged_spec raw3 dyn') n))"

lemma invalidated_names:
  assumes "map_order ord" "finite_file f1" "finite_dyn (dynamicConfig cm)" "finite_dyn (dynamicConfig cm')"
  shows "set (affectedContexts ord (cfg_or_nil (MergedConfig ord f1 cm)) (cfg_or_nil (MergedConfig ord f3 cm'))) =
    {n. invalidated f1 f3 (dynamicConfig cm) (dynamicConfig cm') n}"
proof (cases f1)
  case (Inl e)
  then show ?thesis
    by (simp add: MergedConfig_def mergedConfig_eq [OF assms(1,3)] cfg_or_nil_def affectedContexts_def invalidated_def)
next
  case (Inr raw1)
  have old: "finite_cfg (merged_spec raw1 (dynamicConfig cm))"
    using assms(2) Inr by (intro finite_merged_spec [OF _ assms(3)]) simp
  then have "finite (dom (Contexts (merged_spec raw1 (dynamicConfig cm))))" by (simp add: finite_cfg_def)
  with affectedContexts_exact(2) [OF assms(1) this] show ?thesis
    by (cases f3) (auto simp: MergedConfig_def mergedConfig_eq [OF assms(1,3)] mergedConfig_eq [OF assms(1,4)]
        cfg_or_nil_def invalidated_def Inr changed_def)
qed

text \<open>An update that is answered with 204 closes the tunnels of these contexts one by one.\<close>

lemma update_and_close_closes:
  assumes "map_order ord" "finite_file f1" "finite_dyn (dynamicConfig cm)"
    and "h_forwardManager h = Some fm" "upd cm = (r, cm')" "finite_dyn (dynamicConfig cm')"
    and "\<forall>e x. onErr e = Some x \<longrightarrow> status x \<noteq> 204"
    and "update_and_close fe ord f1 f3 upd onErr cm h = (resp, h')" "status resp = 204"
  shows "\<exists>names. set names = {n. invalidated f1 f3 (dynamicConfig cm) (dynamicConfig cm') n} \<and>
    h_clientManager h' = Some cm' \<and>
    h_forwardManager h' = Some (foldl (\<lambda>fm name. ShutdownContext_now fe ord name fm) fm names)"
proof -
  let ?names = "affectedContexts ord (cfg_or_nil (MergedConfig ord f1 cm)) (cfg_or_nil (MergedConfig ord f3 cm'))"
  have "Option.bind r onErr = None"
    using assms(5,7,8,9) by (cases "Option.bind r onErr") (auto simp: update_and_close_def bind_eq_Some_conv)
  then have "h' = shutdownTunnelsForContexts fe ord ?names (h\<lparr>h_clientManager := Some cm'\<rparr>)"
    using assms(5,8) by (simp add: update_and_close_def)
  then have "h_clientManager h' = Some cm' \<and>
      h_forwardManager h' = Some (foldl (\<lambda>fm name. ShutdownContext_now fe ord name fm) fm ?names)"
    using assms(4) by (simp add: shutdownTunnelsForContexts_def)
  with invalidated_names [OF assms(1-3,6)] show ?thesis by blast
qed

lemma of_contexts_alt: "of_contexts ctx m {n. P n} = {e | key e. m key = Some e \<and> P (ctx key)}"
  by (auto simp: of_contexts_def)

lemma update_and_close_effect:
  assumes "map_order ord" "fe_orders fe" "fm_finite fm" "finite_file f1" "finite_dyn (dynamicConfig cm)"
    and "h_forwardManager h = Some fm" "upd cm = (r, cm')" "finite_dyn (dynamicConfig cm')"
    and "\<forall>e x. onErr e = Some x \<longrightarrow> status x \<noteq> 204"
    and "update_and_close fe ord f1 f3 upd onErr cm h = (resp, h')" "status resp = 204"
  obtains fm' where "h_clientManager h' = Some cm'" "h_forwardManager h' = Some fm'"
    "\<And>key. fm_entry fm' key =
       (if invalidated f1 f3 (dynamicConfig cm) (dynamicConfig cm') (fk_contextName key) then None else fm_entry fm key)"
    "\<And>key. fm_conn fm' key =
       (if invalidated f1 f3 (dynamicConfig cm) (dynamicConfig cm') (sk_contextName key) then None else fm_conn fm key)"
    "sockets (fe_io fe) (fe_spdy fe) live lsock csock \<longrightarrow>
       fm_live live fm' = fm_live live fm -
         lsock ` listeners_of (fm_entry fm) (invalidated f1 f3 (dynamicConfig cm) (dynamicConfig cm')) -
         csock ` conns_of (fm_conn fm) (invalidated f1 f3 (dynamicConfig cm) (dynamicConfig cm'))"
proof -
  let ?gone = "invalidated f1 f3 (dynamicConfig cm) (dynamicConfig cm')"
  obtain names where names: "set names = {n. ?gone n}" and cm: "h_clientManager h' = Some cm'"
    and fm: "h_forwardManager h' = Some (foldl (\<lambda>fm name. ShutdownContext_now fe ord name fm) fm names)"
    using update_and_close_closes [OF assms(1,4-11)] by blast
  let ?fm = "foldl (\<lambda>fm name. ShutdownContext_now fe ord name fm) fm names"
  have socks: "sockets (fe_io fe) (fe_spdy fe) live lsock csock \<longrightarrow> fm_live live ?fm =
      fm_live live fm - lsock ` listeners_of (fm_entry fm) ?gone - csock ` conns_of (fm_conn fm) ?gone"
    using closing_tunnels.close_all_socks [OF fm_is_closing_tunnels [OF assms(1,2)] assms(3), of live lsock csock names]
    by (simp add: names of_contexts_alt listeners_of_eq conns_of_def image_comp)
  show ?thesis
    using tunnels.close_all [OF fm_is_tunnels [OF assms(1,2)] assms(3), of names] names
    by (intro that [OF cm fm _ _ socks]) simp_all
qed

text \<open>
  By the contract of the config store, a PATCH or a POST changes a context only if the new config
  names the context, its cluster or its user: the tunnels of all other contexts stay.
\<close>

lemma untouched_unchanged:
  assumes "map_order ord" "finite_cfg raw" "finite_cfg p" "finite_dyn (dynamicConfig cm)"
    and "\<not> touches p (merged_spec raw (dynamicConfig cm)) n"
    and "MergeAndOverwrite env ord (Inr raw) p cm = (r, cm') \<or> Add env ord (Inr raw) p cm = (None, cm')"
  shows "\<not> changed (merged_spec raw (dynamicConfig cm)) (merged_spec raw (dynamicConfig cm')) n"
  using assms(6) config_store.patch_effective [OF cm_is_config_store [OF assms(1)] assms(2-4) _ assms(5)]
    config_store.add_effective [OF cm_is_config_store [OF assms(1)] assms(2-4) _ assms(5)]
  by (auto simp: changed_def)

subsection \<open>A handler\<close>

text \<open>A handler over the client manager and the forward manager of the earlier examples.\<close>

definition demo_fe :: "(nat, nat, tworld, unit, string, unit, nat) fm_env" where
  "demo_fe = by_fields tw_io demo_spdy no_rel"

definition moved_cfg :: "nat kubecfg" where
  "moved_cfg = (demo_cfg ''east'' 1)\<lparr>Contexts := [''east'' \<mapsto> \<lparr>Cluster = ''west'', AuthInfo = ''east'', ctx_rest = 0\<rparr>]\<rparr>"

definition demo_load :: "string \<Rightarrow> goerr + nat kubecfg" where
  "demo_load raw = (if raw = ''{'' then Inl (Errorf ''yaml'') else Inr moved_cfg)"

definition demo_write :: "nat kubecfg \<Rightarrow> goerr + string" where
  "demo_write c = Inr ''apiVersion: v1''"

definition demo_handler ::
  "((nat, string, string) clientManager, (nat, nat, tworld, unit) fmgr) kubeconfigHandler" where
  "demo_handler = SetManagers demo_cm (demo_fm, sys_pool sys1, tw0, ()) AddToMux"

definition demo_post :: request where
  "demo_post = \<lparr>Method = ''POST'', Body = Inr ''kind: Config''\<rparr>"

lemma demo_handler_ok:
  "fe_orders demo_fe" "fm_finite (demo_fm, sys_pool sys1, tw0, ())" "finite_load demo_load"
  "h_clientManager demo_handler = Some demo_cm" "h_forwardManager demo_handler = Some (demo_fm, sys_pool sys1, tw0, ())"
  "finite_dyn (dynamicConfig demo_cm)" "dynamicConfig demo_cm = None"
  "parseAndValidate demo_load ''kind: Config'' = Inr moved_cfg"
proof -
  show "fe_orders demo_fe" by (simp add: demo_fe_def)
  show "fm_finite (demo_fm, sys_pool sys1, tw0, ())" by (simp add: fm_finite_def demo_fm_def sys1_def pool1_def)
  show "finite_load demo_load" by (simp add: finite_load_def demo_load_def moved_cfg_def finite_cfg_def demo_cfg_def)
  show "parseAndValidate demo_load ''kind: Config'' = Inr moved_cfg"
    by (simp add: parseAndValidate_def demo_load_def ascii_space_def space2_def space3_def)
qed (simp_all add: demo_handler_def SetManagers_def AddToMux_def demo_cm_def)

subsection \<open>Properties\<close>

text \<open>
  C4: an update closes the tunnels it invalidates and no others. Take any request that the endpoint
  answers with 204, with any two reads of the merged config, before and after the update, each of
  which may have failed, and let closing a listener or a connection take just its socket away.
  Then a listener or pooled connection is gone if and only if its context is invalidated, and the
  sockets of these listeners and connections, and no other sockets of the process, have been
  closed. Invalidated are: no context if the first read failed (the error is ignored, so nothing is
  closed then); every context of the old merged config if the second read failed; otherwise the
  contexts of the old merged config whose entry, cluster or user is different in the new one.
\<close>

theorem update_closes_changed_tunnels:
  assumes "map_order ord" "fe_orders fe" "fm_finite fm" "finite_file f1" "finite_file f2"
    and "finite_load load"
    and "h_clientManager h = Some cm" "h_forwardManager h = Some fm" "finite_dyn (dynamicConfig cm)"
    and "handleKubeconfig env load write fe ord f1 f2 f3 r h = (resp, h')" "status resp = 204"
    and "sockets (fe_io fe) (fe_spdy fe) live lsock csock"
  shows "\<exists>cm' fm' gone. h_clientManager h' = Some cm' \<and> h_forwardManager h' = Some fm' \<and>
    gone = invalidated f1 f3 (dynamicConfig cm) (dynamicConfig cm') \<and>
    (\<forall>key. fm_entry fm' key = (if gone (fk_contextName key) then None else fm_entry fm key)) \<and>
    (\<forall>key. fm_conn fm' key = (if gone (sk_contextName key) then None else fm_conn fm key)) \<and>
    fm_live live fm' = fm_live live fm - lsock ` listeners_of (fm_entry fm) gone - csock ` conns_of (fm_conn fm) gone"
proof -
  obtain op onErr where op: "finite_op op" and onErr: "\<forall>e x. onErr e = Some x \<longrightarrow> status x \<noteq> 204"
    and run: "update_and_close fe ord f1 f3 (cm_apply env ord f2 op) onErr cm h = (resp, h')"
    using handleKubeconfig_update [OF assms(6,7,10,11)] by blast
  obtain res cm' where upd: "cm_apply env ord f2 op cm = (res, cm')" by fastforce
  have "finite_dyn (dynamicConfig cm')" by (rule cm_apply_finite [OF assms(1) op assms(9) upd assms(5)])
  from update_and_close_effect [OF assms(1-4,9,8) upd this onErr run assms(11)] assms(12)
  show ?thesis by metis
qed

theorem update_closes_changed_tunnels_witness:
  "\<exists>fm'. h_forwardManager (snd (handleKubeconfig demo_env demo_load demo_write demo_fe by_name
       (Inr (demo_cfg ''east'' 1)) (Inr (demo_cfg ''east'' 1)) (Inr (demo_cfg ''east'' 2))
       \<lparr>Method = ''DELETE'', Body = Inr ''''\<rparr> demo_handler)) = Some fm' \<and>
     fm_entry fm' (key_of ''east'') = None \<and> (''forward'', 0) \<notin> fm_live tw_live fm'"
proof -
  let ?r = "\<lparr>Method = ''DELETE'', Body = Inr ''''\<rparr>" and ?fm = "(demo_fm, sys_pool sys1, tw0, ())"
  obtain resp h' where run: "handleKubeconfig demo_env demo_load demo_write demo_fe by_name
       (Inr (demo_cfg ''east'' 1)) (Inr (demo_cfg ''east'' 1)) (Inr (demo_cfg ''east'' 2)) ?r demo_handler = (resp, h')"
    by fastforce
  have ok: "status resp = 204" "map_option dynamicConfig (h_clientManager h') = Some None"
    using run
    by (auto simp: handleKubeconfig_def demo_handler_ok update_and_close_def noContent_def Reset_def rebuild_def
        mergedConfig_def shutdownTunnelsForContexts_def Let_def split: prod.splits option.splits if_splits)
  have ff: "finite_file (Inr (demo_cfg x n))" for x n by simp
  have socks: "sockets (fe_io demo_fe) (fe_spdy demo_fe) tw_live (\<lambda>l. (''forward'', l)) (\<lambda>c. (''spdy'', c))"
    by (simp add: demo_fe_def by_fields_def demo_socks.sockets_axioms)
  obtain cm' fm' gone where h': "h_clientManager h' = Some cm'" "h_forwardManager h' = Some fm'"
    and gone: "gone = invalidated (Inr (demo_cfg ''east'' 1)) (Inr (demo_cfg ''east'' 2)) (dynamicConfig demo_cm)
      (dynamicConfig cm')"
    and eff: "\<forall>key. fm_entry fm' key = (if gone (fk_contextName key) then None else fm_entry ?fm key)"
      "\<forall>key. fm_conn fm' key = (if gone (sk_contextName key) then None else fm_conn ?fm key)"
      "fm_live tw_live fm' = fm_live tw_live ?fm - (\<lambda>l. (''forward'', l)) ` listeners_of (fm_entry ?fm) gone -
        (\<lambda>c. (''spdy'', c)) ` conns_of (fm_conn ?fm) gone"
    using update_closes_changed_tunnels [OF map_order_by_name demo_handler_ok(1,2) ff ff demo_handler_ok(3-6)
        run ok(1) socks] by (elim exE conjE) (rule that)
  have east: "gone ''east''"
    using ok(2) h'(1) by (simp add: gone invalidated_def demo_handler_ok(7) changed_def effective_def demo_cfg_def)
  then have "fm_entry fm' (key_of ''east'') = None" using eff(1) by (simp add: key_of_def)
  moreover have "listener demo_entry \<in> listeners_of (fm_entry ?fm) gone"
    using east by (auto simp: listeners_of_def fm_entry_def demo_fm_def key_of_def)
  then have "(''forward'', 0) \<notin> fm_live tw_live fm'" by (simp add: eff(3) demo_entry_def)
  ultimately show ?thesis using run h'(2) by simp
qed

text \<open>
  The ignored error. If the kubeconfig files cannot be read at the first of the three reads, an
  update can still be answered with 204, and whatever it changed it closes no tunnel.
\<close>

lemma unread_config_closes_nothing:
  assumes "h_clientManager h = Some cm" "Method r = ''PATCH''" "Body r = Inr txt" "parseAndValidate load txt = Inr p"
  shows "handleKubeconfig env load write fe ord (Inl e) (Inr raw) f3 r h =
    (noContent, h\<lparr>h_clientManager := Some (snd (MergeAndOverwrite env ord (Inr raw) p cm))\<rparr>)"
proof -
  have "fst (MergeAndOverwrite env ord (Inr raw) p cm) = None"
    by (simp add: MergeAndOverwrite_def rebuild_result Let_def)
  moreover have "cfg_or_nil (MergedConfig ord (Inl e) cm) = None"
    by (simp add: MergedConfig_def mergedConfig_def cfg_or_nil_def)
  moreover obtain r' cm' where "MergeAndOverwrite env ord (Inr raw) p cm = (r', cm')" by fastforce
  ultimately show ?thesis
    using assms by (simp add: handleKubeconfig_def with_config_def update_and_close_def affectedContexts_def
        shutdownTunnelsForContexts_def)
qed

text \<open>
  C28: the response on every branch. Without managers the endpoint answers 501; GET answers 200,
  or 500 if the config cannot be written; an unreadable or invalid body 400; POST of a name that
  the dynamic config already has 409; an update while the kubeconfig files cannot be read 400;
  every other update, and every DELETE, 204; any other method 405.
\<close>

theorem kubeconfig_status:
  assumes "map_order ord" "finite_load load" "\<And>e. f2 = Inl e \<Longrightarrow> errors_As_ConflictError e = None"
    and "\<And>cm. h_clientManager h = Some cm \<Longrightarrow> finite_dyn (dynamicConfig cm)"
  shows "status (fst (handleKubeconfig env load write fe ord f1 f2 f3 r h)) =
    (case h_clientManager h of None \<Rightarrow> 501
     | Some cm \<Rightarrow>
         if Method r = ''GET''
         then (if isl (write (case dynamicConfig cm of None \<Rightarrow> EmptyConfig env | Some c \<Rightarrow> c)) then 500 else 200)
         else if Method r \<in> {''PUT'', ''POST'', ''PATCH''}
         then (case Body r of Inl _ \<Rightarrow> 400
               | Inr raw \<Rightarrow>
                   (case parseAndValidate load raw of Inl _ \<Rightarrow> 400
                    | Inr p \<Rightarrow> if Method r = ''POST'' \<and> (\<exists>d. dynamicConfig cm = Some d \<and> share_names p d) then 409
                              else if isl f2 then 400 else 204))
         else if Method r = ''DELETE'' then 204 else 405)"
proof (cases "h_clientManager h")
  case None
  then show ?thesis by (simp add: handleKubeconfig_def http_Error_def)
next
  case (Some cm)
  have fin: "finite_dyn (dynamicConfig cm)" by (rule assms(4) [OF Some])
  have uac: "status (fst (update_and_close fe ord f1 f3 upd onErr cm h)) =
      (case Option.bind (fst (upd cm)) onErr of Some resp \<Rightarrow> status resp | None \<Rightarrow> 204)" for upd onErr
    by (simp add: update_and_close_def noContent_def Let_def split: prod.splits option.splits)
  have add: "status (fst (update_and_close fe ord f1 f3 (Add env ord f2 p) conflict_or_bad cm h)) =
      (if \<exists>d. dynamicConfig cm = Some d \<and> share_names p d then 409 else if isl f2 then 400 else 204)"
    if "finite_cfg p" for p
    using Add_cases [OF assms(1) that fin, of env f2] assms(3)
    by (auto simp: uac rebuild_result conflict_or_bad_def bad_request_def http_Error_def split: sum.splits)
  have upd: "status (fst (update_and_close fe ord f1 f3 (Reset env ord f2 d) bad_request cm h)) = (if isl f2 then 400 else 204)"
    "status (fst (update_and_close fe ord f1 f3 (MergeAndOverwrite env ord f2 p) bad_request cm h)) = (if isl f2 then 400 else 204)"
    for d p
    by (simp_all add: uac Reset_def MergeAndOverwrite_def rebuild_result bad_request_def http_Error_def Let_def split: sum.splits)
  have del: "status (fst (update_and_close fe ord f1 f3 (Reset env ord f2 None) (\<lambda>_. None) cm h)) = 204"
    by (simp add: uac split: option.splits)
  have wc: "status (fst (with_config load r k h)) = (case Body r of Inl _ \<Rightarrow> 400
      | Inr raw \<Rightarrow> (case parseAndValidate load raw of Inl _ \<Rightarrow> 400 | Inr p \<Rightarrow> status (fst (k p))))" for k
    by (simp add: with_config_def http_Error_def split: sum.splits)
  show ?thesis
    by (simp add: handleKubeconfig_def Some wc upd del Kubeconfig_def http_Error_def Let_def)
      (auto simp: add upd http_Error_def parsed_finite [OF assms(2)] split: sum.splits)
qed

theorem kubeconfig_status_witness:
  "status (fst (handleKubeconfig demo_env demo_load demo_write demo_fe by_name (Inr (demo_cfg ''east'' 1))
     (Inl (Errorf ''permission denied'')) (Inr (demo_cfg ''east'' 1)) demo_post demo_handler)) = 400"
proof -
  have "parseAndValidate demo_load ''kind: Config'' = Inr moved_cfg" by (rule demo_handler_ok)
  then show ?thesis
    by (subst kubeconfig_status) (auto simp: demo_handler_ok demo_post_def)
qed

text \<open>
  A failed PUT is not undone. While the kubeconfig files cannot be read, PUT of a valid
  config answers 400 and closes no tunnel, but the dynamic config has been replaced: the clients
  are still those of the old config and the next successful update merges the new one.
\<close>

lemma failed_put_keeps_config:
  assumes "h_clientManager h = Some cm" "Method r = ''PUT''" "Body r = Inr raw"
    and "parseAndValidate load raw = Inr p"
  shows "handleKubeconfig env load write fe ord f1 (Inl e) f3 r h =
    (http_Error (err_Error e) 400, h\<lparr>h_clientManager := Some (cm\<lparr>dynamicConfig := Some p\<rparr>)\<rparr>)"
  using assms
  by (simp add: handleKubeconfig_def with_config_def update_and_close_def Reset_def rebuild_def mergedConfig_def
      bad_request_def)

text \<open>
  POST does overwrite. Add compares names with the dynamic config only, so a POST that
  redefines a context of the kubeconfig files is accepted, and since the dynamic config wins in
  the merge, the context changes and its tunnels are closed, although the comments say that a POST
  never overwrites and that closing the tunnels is a no-op.
\<close>

lemma post_redefines_file_context:
  assumes "map_order ord" "fe_orders fe" "fm_finite fm" "finite_cfg raw" "finite_load load"
    and "h_clientManager h = Some cm" "h_forwardManager h = Some fm" "dynamicConfig cm = None"
    and "Method r = ''POST''" "Body r = Inr txt" "parseAndValidate load txt = Inr p"
    and "Contexts raw n = Some x" "Contexts p n = Some y" "x \<noteq> y"
  shows "\<exists>h' fm'. handleKubeconfig env load write fe ord (Inr raw) (Inr raw) (Inr raw) r h = (noContent, h') \<and>
    h_forwardManager h' = Some fm' \<and> (\<forall>key. fk_contextName key = n \<longrightarrow> fm_entry fm' key = None)"
proof -
  have p: "finite_cfg p" by (rule parsed_finite [OF assms(5,11)])
  obtain cm' where upd: "Add env ord (Inr raw) p cm = (None, cm')" and cm': "dynamicConfig cm' = Some p"
    using assms(8) by (simp add: Add_def rebuild_def mergedConfig_def)
  obtain resp h' where run: "update_and_close fe ord (Inr raw) (Inr raw) (Add env ord (Inr raw) p) conflict_or_bad cm h = (resp, h')"
    by fastforce
  then have resp: "resp = noContent" using upd by (simp add: update_and_close_def)
  have ne: "\<forall>e x. conflict_or_bad e = Some x \<longrightarrow> status x \<noteq> 204"
    by (auto simp: bad_request_def conflict_or_bad_def http_Error_def split: option.splits)
  have "status resp = 204" by (simp add: resp noContent_def)
  have ff: "finite_file (Inr raw)" and dyn: "finite_dyn (dynamicConfig cm)" "finite_dyn (dynamicConfig cm')"
    using assms(4,8) p cm' by simp_all
  obtain fm' where fm': "h_forwardManager h' = Some fm'"
    "\<And>key. fm_entry fm' key = (if invalidated (Inr raw) (Inr raw) (dynamicConfig cm) (dynamicConfig cm')
      (fk_contextName key) then None else fm_entry fm key)"
    by (rule update_and_close_effect [OF assms(1-3) ff dyn(1) assms(7) upd dyn(2) ne run \<open>status resp = 204\<close>]) (rule that)
  have "invalidated (Inr raw) (Inr raw) (dynamicConfig cm) (dynamicConfig cm') n"
    using assms(8,12-14) cm' by (simp add: invalidated_def changed_def effective_def merge_spec_def)
  moreover have "handleKubeconfig env load write fe ord (Inr raw) (Inr raw) (Inr raw) r h = (resp, h')"
    using assms(6,9-11) run by (simp add: handleKubeconfig_def with_config_def)
  ultimately show ?thesis using fm' resp by (intro exI [of _ h'] exI [of _ fm']) simp
qed


end
