(* ===== verification/Cluster_Host.thy ===== *)
theory Cluster_Host
  imports Go_Strings
begin

text \<open>
  Cluster host names (\<^verbatim>\<open>internal/proxy/cluster.go\<close>): the recogniser \<^verbatim>\<open>IsClusterHost\<close>, used by
  the SOCKS5 proxy to choose between tunnelling and direct dialling, and the parser
  \<^verbatim>\<open>ParseClusterHost\<close>, used by the DNS server and the SOCKS5 proxy. The five results of the
  parser are an option of the four names: \<open>None\<close> is \<^verbatim>\<open>ok == false\<close>, where all four are empty.

  The specification is the printer \<open>cluster_fqdn\<close>: the lemmas show that the parser inverts it,
  that whatever the parser accepts was printed by it (up to an empty pod label), and how the
  recogniser and the parser agree and where they do not.
\<close>

definition IsClusterHost :: "string \<Rightarrow> string \<Rightarrow> bool" where
  "IsClusterHost host clusterDomain =
     (let domain = ''.'' @ clusterDomain in
      if HasSuffix host domain \<or> HasSuffix host (domain @ ''.'') then True
      else (case Index host (domain @ ''.'') of
          Some idx \<Rightarrow>
            (let rest = drop (idx + length domain + 1) host
             in rest \<noteq> '''' \<and> \<not> Contains rest ''.'')
        | None \<Rightarrow> False))"

type_synonym cluster_name = "string \<times> string \<times> string \<times> string"

definition parse_labels :: "string \<Rightarrow> string \<Rightarrow> cluster_name option" where
  "parse_labels pre contextName =
     (case Split pre (CHR ''.'') of
        [svc, ns] \<Rightarrow> Some ('''', svc, ns, contextName)
      | [pod, svc, ns] \<Rightarrow> Some (pod, svc, ns, contextName)
      | _ \<Rightarrow> None)"

definition ParseClusterHost :: "string \<Rightarrow> string \<Rightarrow> cluster_name option" where
  "ParseClusterHost host clusterDomain =
     (let suf = ''.'' @ clusterDomain in
      case CutSuffix host suf of
        (before, True) \<Rightarrow> parse_labels before ''''
      | (_, False) \<Rightarrow>
          (case LastIndex host (suf @ ''.'') of
             None \<Rightarrow> None
           | Some idx \<Rightarrow>
               (let after = drop (idx + length suf + 1) host in
                if after = '''' \<or> Contains after ''.'' then None
                else parse_labels (take idx host) after)))"

subsection \<open>Specification: printing a cluster name\<close>

definition cluster_labels :: "string \<Rightarrow> string \<Rightarrow> string \<Rightarrow> string" where
  "cluster_labels pod svc ns =
     (if pod = '''' then Join [svc, ns] ''.'' else Join [pod, svc, ns] ''.'')"

definition ctx_suffix :: "string \<Rightarrow> string" where
  "ctx_suffix ctx = (if ctx = '''' then '''' else ''.'' @ ctx)"

definition cluster_fqdn :: "string \<Rightarrow> string \<Rightarrow> string \<Rightarrow> string \<Rightarrow> string \<Rightarrow> string" where
  "cluster_fqdn pod svc ns ctx D = cluster_labels pod svc ns @ ''.'' @ D @ ctx_suffix ctx"

definition label_ok :: "string \<Rightarrow> bool" where
  "label_ok l \<longleftrightarrow> CHR ''.'' \<notin> set l"

text \<open>
  Domains on which the recogniser and the parser agree: at least three labels, the first
  different from the second and the third, as in \<^verbatim>\<open>svc.cluster.local\<close>.
\<close>

definition plain_domain :: "string \<Rightarrow> bool" where
  "plain_domain D =
     (case Split D (CHR ''.'') of d1 # d2 # d3 # _ \<Rightarrow> d1 \<noteq> d2 \<and> d1 \<noteq> d3 | _ \<Rightarrow> False)"

subsection \<open>Lemmas\<close>

lemma plain_domain_default [simp]: "plain_domain ''svc.cluster.local''"
  by (simp add: plain_domain_def)

lemma label_ok_simps [simp]: "label_ok ''''" "label_ok (c # l) \<longleftrightarrow> c \<noteq> CHR ''.'' \<and> label_ok l"
  by (auto simp: label_ok_def)

lemma Contains_dot: "Contains s ''.'' \<longleftrightarrow> \<not> label_ok s"
  by (simp add: label_ok_def)

lemma Split_fqdn:
  "Split (p @ ''.'' @ D @ ''.'' @ q) (CHR ''.'') =
     Split p (CHR ''.'') @ Split D (CHR ''.'') @ Split q (CHR ''.'')"
  by (simp add: Split_append_sep)

lemma Split_label: "label_ok l \<Longrightarrow> Split l (CHR ''.'') = [l]"
  by (simp add: Split_no_sep label_ok_def)

lemma parse_labels_cluster_labels:
  "label_ok pod \<Longrightarrow> label_ok svc \<Longrightarrow> label_ok ns \<Longrightarrow>
     parse_labels (cluster_labels pod svc ns) ctx = Some (pod, svc, ns, ctx)"
  by (simp add: parse_labels_def cluster_labels_def Split_append_sep Split_label)

lemma parse_labels_Some:
  assumes "parse_labels pre c = Some (pod, svc, ns, ctx)"
  shows "ctx = c" "label_ok pod" "label_ok svc" "label_ok ns"
    "(pod = '''' \<and> pre = Join [svc, ns] ''.'') \<or> pre = Join [pod, svc, ns] ''.''"
proof -
  from assms have c: "ctx = c" and
    *: "(pod = '''' \<and> Split pre (CHR ''.'') = [svc, ns]) \<or> Split pre (CHR ''.'') = [pod, svc, ns]"
    by (auto simp: parse_labels_def split: list.splits)
  have ok: "label_ok l" if "l \<in> set (Split pre (CHR ''.''))" for l
    using that Split_pieces by (simp add: label_ok_def)
  show "ctx = c" by (rule c)
  show "label_ok pod" "label_ok svc" "label_ok ns" using * ok by auto
  from * show "(pod = '''' \<and> pre = Join [svc, ns] ''.'') \<or> pre = Join [pod, svc, ns] ''.''"
    using Join_Split [of pre "CHR ''.''"] by auto
qed

lemma ends_with_domain:
  assumes "label_ok ctx" and "HasSuffix (x @ ''.'' @ ctx) (''.'' @ D)"
  shows "ctx = last (Split D (CHR ''.''))"
proof -
  from assms(2) obtain q where "x @ ''.'' @ ctx = q @ ''.'' @ D" by (auto simp: HasSuffix_iff)
  then have "Split x (CHR ''.'') @ Split ctx (CHR ''.'') =
      Split q (CHR ''.'') @ Split D (CHR ''.'')"
    by (metis Split_append_sep append_Cons append_Nil)
  then have "Split x (CHR ''.'') @ [ctx] = Split q (CHR ''.'') @ Split D (CHR ''.'')"
    using assms(1) by (simp add: Split_label)
  then show ?thesis by (metis Split_nonempty last_appendR last_snoc)
qed

lemma last_domain_occurrence:
  assumes "label_ok ctx"
  shows "LastIndex (x @ (''.'' @ D @ ''.'') @ ctx) (''.'' @ D @ ''.'') = Some (length x)"
proof (rule LastIndex_eqI [OF refl])
  fix p q assume eq: "x @ (''.'' @ D @ ''.'') @ ctx = p @ (''.'' @ D @ ''.'') @ q"
  have "length ctx \<le> length q"
  proof (rule ccontr)
    assume "\<not> length ctx \<le> length q"
    then have "length (''.'' @ q) \<le> length ctx" by simp
    moreover have "suffix (''.'' @ q) (x @ (''.'' @ D @ ''.'') @ ctx)"
      unfolding eq suffix_def by (rule exI [of _ "p @ ''.'' @ D"]) simp
    moreover have "suffix ctx (x @ (''.'' @ D @ ''.'') @ ctx)"
      unfolding suffix_def by (rule exI [of _ "x @ ''.'' @ D @ ''.''"]) simp
    ultimately have "suffix (''.'' @ q) ctx" by (metis suffix_length_suffix)
    with assms show False by (auto simp: label_ok_def suffix_def)
  qed
  moreover have "length x + length ctx = length p + length q"
    using arg_cong [OF eq, of length] by simp
  ultimately show "length p \<le> length x" by simp
qed

subsection \<open>The parser\<close>

lemma ParseClusterHost_bare:
  "ParseClusterHost (pre @ ''.'' @ D) D = parse_labels pre ''''"
  using CutSuffix_append [of pre "''.'' @ D"]
  by (simp only: ParseClusterHost_def Let_def append_assoc) simp

lemma ParseClusterHost_ctx:
  assumes "label_ok ctx" "ctx \<noteq> ''''" "ctx \<noteq> last (Split D (CHR ''.''))"
  shows "ParseClusterHost (pre @ ''.'' @ D @ ''.'' @ ctx) D = parse_labels pre ctx"
proof -
  let ?h = "pre @ (''.'' @ D @ ''.'') @ ctx"
  have "\<not> HasSuffix ?h (''.'' @ D)"
    using ends_with_domain [OF assms(1), of "pre @ ''.'' @ D" D] assms(3) by auto
  moreover have "LastIndex ?h ((''.'' @ D) @ ''.'') = Some (length pre)"
    using last_domain_occurrence [OF assms(1), of pre D] by simp
  moreover have "drop (length pre + length (''.'' @ D) + 1) ?h = ctx" by simp
  moreover have "take (length pre) ?h = pre" by simp
  ultimately have "ParseClusterHost ?h D = parse_labels pre ctx"
    using assms by (simp add: ParseClusterHost_def Let_def label_ok_def)
  then show ?thesis by simp
qed

lemma ParseClusterHost_cases:
  assumes "ParseClusterHost host D = Some (pod, svc, ns, ctx)"
  obtains (bare) pre where "host = pre @ ''.'' @ D" "ctx = ''''"
      "parse_labels pre '''' = Some (pod, svc, ns, '''')"
  | (ctx) pre where "host = pre @ ''.'' @ D @ ''.'' @ ctx" "ctx \<noteq> ''''" "label_ok ctx"
      "parse_labels pre ctx = Some (pod, svc, ns, ctx)" "\<not> HasSuffix host (''.'' @ D)"
proof (cases "HasSuffix host (''.'' @ D)")
  case True
  then obtain pre where h: "host = pre @ ''.'' @ D" by (auto simp: HasSuffix_iff)
  with assms have "parse_labels pre '''' = Some (pod, svc, ns, ctx)"
    by (simp only: ParseClusterHost_bare)
  moreover from parse_labels_Some(1) [OF this] have "ctx = ''''" .
  ultimately show ?thesis using h bare by metis
next
  case False
  with assms obtain idx where idx: "LastIndex host ((''.'' @ D) @ ''.'') = Some idx"
    and after: "drop (idx + length (''.'' @ D) + 1) host \<noteq> ''''"
      "\<not> Contains (drop (idx + length (''.'' @ D) + 1) host) ''.''"
    and lab: "parse_labels (take idx host) (drop (idx + length (''.'' @ D) + 1) host) =
      Some (pod, svc, ns, ctx)"
    by (auto simp: ParseClusterHost_def Let_def split: option.splits if_splits)
  from LastIndex_Some [OF idx] obtain p q where
    h: "host = p @ ((''.'' @ D) @ ''.'') @ q" "length p = idx" by blast
  then have d: "drop (idx + length (''.'' @ D) + 1) host = q" and t: "take idx host = p"
    by auto
  note after [unfolded d] lab [unfolded d t] parse_labels_Some(1) [OF lab [unfolded d t]]
  then have "q \<noteq> ''''" "label_ok q" "ctx = q" "parse_labels p q = Some (pod, svc, ns, q)"
    by (simp_all add: label_ok_def)
  with h False show ?thesis by (intro ctx [of p]) simp_all
qed

subsection \<open>The recogniser\<close>

lemma domain_occurrence_unique:
  assumes "plain_domain D" "label_ok ctx" "length (Split pre (CHR ''.'')) \<le> 3"
    and eq: "p @ ''.'' @ D @ ''.'' @ q = pre @ ''.'' @ D @ ''.'' @ ctx"
  shows "p = pre \<and> q = ctx"
proof -
  let ?S = "\<lambda>s. Split s (CHR ''.'')"
  from assms(1) obtain d1 d2 d3 ds where D: "?S D = d1 # d2 # d3 # ds" "d1 \<noteq> d2" "d1 \<noteq> d3"
    by (auto simp: plain_domain_def split: list.splits)
  have split: "?S p @ ?S D @ ?S q = ?S pre @ ?S D @ [ctx]"
    using arg_cong [OF eq, of ?S] by (simp only: Split_fqdn Split_label [OF assms(2)])
  have len: "length (?S p) + length (?S q) = length (?S pre) + 1"
    using arg_cong [OF split, of length] by simp
  have "length (?S q) \<noteq> 0" "length (?S p) \<noteq> 0" by simp_all
  with len have le: "length (?S p) \<le> length (?S pre)" by arith
  then obtain X where X: "?S pre = ?S p @ X" "?S D @ ?S q = X @ ?S D @ [ctx]"
    using append_eq_longer [OF split] by blast
  have "length (?S p) + length X \<le> 3" using X(1) assms(3) by simp
  with \<open>length (?S p) \<noteq> 0\<close> have "length X \<le> 2" by arith
  then have "X = []"
  proof (cases X)
    case (Cons x X')
    with X(2) D \<open>length X \<le> 2\<close> show ?thesis by (cases X'; cases "tl X'") auto
  qed
  with X have "?S p = ?S pre" by simp
  then have "p = pre" by (rule Split_inj)
  with eq show ?thesis by simp
qed

lemma IsClusterHost_bare: "IsClusterHost (pre @ ''.'' @ D) D"
  using HasSuffix_append [of pre "''.'' @ D"] by (simp add: IsClusterHost_def Let_def)

lemma IsClusterHost_bare_dot: "IsClusterHost (pre @ ''.'' @ D @ ''.'') D"
  using HasSuffix_append [of pre "''.'' @ D @ ''.''"] by (simp add: IsClusterHost_def Let_def)

lemma IsClusterHost_ctx:
  assumes "plain_domain D" "label_ok ctx" "ctx \<noteq> ''''" "length (Split pre (CHR ''.'')) \<le> 3"
  shows "IsClusterHost (pre @ ''.'' @ D @ ''.'' @ ctx) D"
proof -
  let ?h = "pre @ ''.'' @ D @ ''.'' @ ctx" and ?d = "''.'' @ D"
  have "Index ?h (?d @ ''.'') \<noteq> None" unfolding Index_None by auto
  then obtain idx where idx: "Index ?h (?d @ ''.'') = Some idx" by blast
  then obtain p q where "?h = p @ (?d @ ''.'') @ q" "length p = idx"
    using Index_Some by metis
  then have "p = pre \<and> q = ctx"
    using domain_occurrence_unique [OF assms(1,2,4), of p q] by simp
  with \<open>length p = idx\<close> have "drop (idx + length ?d + 1) ?h = ctx" by simp
  with idx assms(2,3) show ?thesis by (simp add: IsClusterHost_def Let_def label_ok_def)
qed

lemma parse_labels_short: "parse_labels pre c \<noteq> None \<Longrightarrow> length (Split pre (CHR ''.'')) \<le> 3"
  by (auto simp: parse_labels_def split: list.splits)

subsection \<open>Properties\<close>

text \<open>
  Round trip of cluster host names. For every service or pod name printed as
  \<^verbatim>\<open>[pod.]service.namespace.domain[.context]\<close> from labels without a dot, ParseClusterHost
  returns exactly the four names, for every cluster domain. The one proviso on the context
  suffix is that it is not the last label of the domain itself.
\<close>

lemma ParseClusterHost_roundtrip:
  assumes "label_ok pod" "label_ok svc" "label_ok ns" "label_ok ctx"
    and "ctx = '''' \<or> ctx \<noteq> last (Split D (CHR ''.''))"
  shows "ParseClusterHost (cluster_fqdn pod svc ns ctx D) D = Some (pod, svc, ns, ctx)"
proof (cases "ctx = ''''")
  case True
  with assms ParseClusterHost_bare [of "cluster_labels pod svc ns" D] show ?thesis
    by (simp add: cluster_fqdn_def ctx_suffix_def parse_labels_cluster_labels)
next
  case False
  with assms ParseClusterHost_ctx [of ctx D "cluster_labels pod svc ns"] show ?thesis
    by (simp add: cluster_fqdn_def ctx_suffix_def parse_labels_cluster_labels)
qed

text \<open>
  Soundness of the parser. Whatever host ParseClusterHost accepts is the printed form of the
  names it returns, up to one spelling: a leading empty pod label, \<^verbatim>\<open>.service.namespace.domain\<close>,
  is read as the service itself. The returned names contain no dot.
\<close>

lemma ParseClusterHost_sound:
  assumes "ParseClusterHost host D = Some (pod, svc, ns, ctx)"
  shows "(host = cluster_fqdn pod svc ns ctx D \<or>
      pod = '''' \<and> host = ''.'' @ cluster_fqdn pod svc ns ctx D) \<and>
    label_ok pod \<and> label_ok svc \<and> label_ok ns \<and> label_ok ctx"
  using assms
proof (cases rule: ParseClusterHost_cases)
  case (bare pre)
  from parse_labels_Some [OF bare(3)] bare(1,2) show ?thesis
    by (auto simp: cluster_fqdn_def cluster_labels_def ctx_suffix_def)
next
  case (ctx pre)
  from parse_labels_Some [OF ctx(4)] ctx(1,2,3) show ?thesis
    by (auto simp: cluster_fqdn_def cluster_labels_def ctx_suffix_def)
qed

text \<open>
  C20: what ParseClusterHost accepts. With a context that is not the last label of the domain, a
  host is read as a pod, service, namespace and context exactly if the four are labels without a
  dot and the host is the name printed from them as
  \<^verbatim>\<open>[pod.]service.namespace.domain[.context]\<close>, or that name behind a dot when there is no pod.
\<close>

theorem ParseClusterHost_iff:
  assumes "ctx = '''' \<or> ctx \<noteq> last (Split D (CHR ''.''))"
  shows "ParseClusterHost host D = Some (pod, svc, ns, ctx) \<longleftrightarrow>
    label_ok pod \<and> label_ok svc \<and> label_ok ns \<and> label_ok ctx \<and>
    (host = cluster_fqdn pod svc ns ctx D \<or> pod = '''' \<and> host = ''.'' @ cluster_fqdn pod svc ns ctx D)"
    (is "?parsed \<longleftrightarrow> ?printed")
proof
  show ?printed if ?parsed using ParseClusterHost_sound [OF that] by blast
next
  assume printed: ?printed
  then have ok: "label_ok pod" "label_ok svc" "label_ok ns" "label_ok ctx" by simp_all
  show ?parsed
  proof (cases "host = cluster_fqdn pod svc ns ctx D")
    case True
    with ParseClusterHost_roundtrip [OF ok assms] show ?thesis by simp
  next
    case False
    with printed have host: "pod = ''''" "host = ''.'' @ cluster_fqdn '''' svc ns ctx D" by auto
    have dot: "parse_labels (''.'' @ cluster_labels '''' svc ns) ctx = Some ('''', svc, ns, ctx)"
      using ok Split_append_sep [of "''''" "CHR ''.''" "cluster_labels '''' svc ns"]
      by (simp add: parse_labels_def cluster_labels_def Split_append_sep Split_label)
    show ?thesis
    proof (cases "ctx = ''''")
      case True
      with host dot ParseClusterHost_bare [of "''.'' @ cluster_labels '''' svc ns" D] show ?thesis
        by (simp add: cluster_fqdn_def ctx_suffix_def)
    next
      case False
      with host dot assms ok(4) ParseClusterHost_ctx [of ctx D "''.'' @ cluster_labels '''' svc ns"] show ?thesis
        by (simp add: cluster_fqdn_def ctx_suffix_def)
    qed
  qed
qed

theorem ParseClusterHost_iff_witness:
  "ParseClusterHost (cluster_fqdn ''pod-0'' ''my-svc'' ''default'' ''staging'' ''svc.cluster.local'')
     ''svc.cluster.local'' = Some (''pod-0'', ''my-svc'', ''default'', ''staging'')"
  by (subst ParseClusterHost_iff) simp_all

text \<open>
  The SOCKS5 recogniser accepts every name the parser accepts. On a cluster domain such as
  \<^verbatim>\<open>svc.cluster.local\<close> (at least three labels, the first different from the next two) a host
  that ParseClusterHost accepts is never dialled directly.
\<close>

lemma parsed_is_cluster_host:
  assumes "plain_domain D" "ParseClusterHost host D \<noteq> None"
  shows "IsClusterHost host D"
proof -
  obtain pod svc ns ctx where "ParseClusterHost host D = Some (pod, svc, ns, ctx)"
    using assms(2) by auto
  then show ?thesis
  proof (cases rule: ParseClusterHost_cases)
    case (bare pre)
    then show ?thesis by (simp only: IsClusterHost_bare)
  next
    case (ctx pre)
    then have "length (Split pre (CHR ''.'')) \<le> 3" by (intro parse_labels_short) auto
    with ctx(2,3) assms(1) show ?thesis unfolding ctx(1) by (intro IsClusterHost_ctx)
  qed
qed

text \<open>
  Where the two disagree. A context-suffixed name written with the trailing dot of a fully
  qualified name is a cluster name for the parser once the dot is trimmed (as the DNS server
  and dialCluster trim it), yet IsClusterHost, which is given the untrimmed name, rejects it:
  the SOCKS5 proxy dials such a name directly.
\<close>

lemma ctx_name_with_dot_not_recognised:
  assumes "label_ok pod" "label_ok svc" "label_ok ns" "label_ok ctx" "ctx \<noteq> ''''"
    and "ctx \<noteq> last (Split D (CHR ''.''))" "D \<noteq> ''''" "last D \<noteq> CHR ''.''"
  shows "\<not> IsClusterHost (cluster_fqdn pod svc ns ctx D @ ''.'') D \<and>
    ParseClusterHost (TrimSuffix (cluster_fqdn pod svc ns ctx D @ ''.'') ''.'') D =
      Some (pod, svc, ns, ctx)"
proof
  let ?f = "cluster_fqdn pod svc ns ctx D"
  let ?h = "?f @ ''.''"
  have f: "?f = (cluster_labels pod svc ns @ ''.'' @ D) @ ''.'' @ ctx"
    using assms(5) by (simp add: cluster_fqdn_def ctx_suffix_def)
  have "last (''.'' @ D) \<noteq> CHR ''.''" using assms(7,8) by simp
  then have n1: "\<not> HasSuffix ?h (''.'' @ D)"
    by (metis HasSuffix_iff append_is_Nil_conv last_appendR last_snoc not_Cons_self2)
  have n2: "\<not> HasSuffix ?h ((''.'' @ D) @ ''.'')"
  proof
    assume "HasSuffix ?h ((''.'' @ D) @ ''.'')"
    then obtain q where "?h = (q @ ''.'' @ D) @ ''.''" by (auto simp: HasSuffix_iff)
    then have "HasSuffix ?f (''.'' @ D)" by (metis HasSuffix_append append_same_eq)
    with f have "ctx = last (Split D (CHR ''.''))"
      using ends_with_domain [OF assms(4)] by metis
    with assms(6) show False by simp
  qed
  have rest: "q = '''' \<or> CHR ''.'' \<in> set q" if "?h = p @ ((''.'' @ D) @ ''.'') @ q" for p q
    using that by (metis append_is_Nil_conv last_appendR last_in_set last_snoc)
  have "\<not> IsClusterHost ?h D"
  proof (cases "Index ?h ((''.'' @ D) @ ''.'')")
    case None
    with n1 n2 show ?thesis by (simp add: IsClusterHost_def Let_def)
  next
    case (Some idx)
    then obtain p q where pq: "?h = p @ ((''.'' @ D) @ ''.'') @ q" "length p = idx"
      using Index_Some by metis
    then have "drop (idx + length (''.'' @ D) + 1) ?h = q" by auto
    with n1 n2 Some rest [OF pq(1)] show ?thesis by (simp add: IsClusterHost_def Let_def)
  qed
  then show "\<not> IsClusterHost ?h D" .
  show "ParseClusterHost (TrimSuffix ?h ''.'') D = Some (pod, svc, ns, ctx)"
    unfolding TrimSuffix_append using ParseClusterHost_ctx [of ctx D "cluster_labels pod svc ns"]
    by (simp add: f assms parse_labels_cluster_labels)
qed


end
