(* ===== verification/Dns_Server.thy ===== *)
theory Dns_Server
  imports Cluster_Host Forward_Manager "HOL-Library.Monad_Syntax"
begin

text \<open>
  The DNS server (\<^verbatim>\<open>internal/dns/server.go\<close>): it answers questions about cluster names with
  virtual addresses, allocating them and starting their listeners on the way, and passes all other
  questions on.

  The server calls four other components; \<open>dns_state\<close> holds the state of those it changes, \<open>dns_env\<close>
  what it only uses. A reading of the clock is the value of \<open>time\<close> at the number of the reading,
  which the state counts. The type \<open>'h\<close> is the world of the address manager, \<open>'w\<close> that of the
  sockets. A call on a nil ForwardManager panics: an operation returns \<open>None\<close> then.

  A DNS message of the library miekg/dns is the record of what the code reads and writes of it:
  \<open>setReply\<close> stands for what SetReply copies from the request. The lookups of
  \<^verbatim>\<open>net.DefaultResolver\<close> are the record \<open>upstream\<close>; several of them return results besides an error.
\<close>

record server =
  listenAddr :: string
  clusterDomain :: string

record ('l, 'h) dns_state =
  ds_vips :: "'h allocator \<times> 'h"
  ds_resolver :: resolver
  ds_fm :: "'l forwardManager option"
  ds_ticks :: nat

record ('l, 'w, 'o, 'rc, 'cs) dns_env =
  de_api :: "'cs kubeapi"
  de_cm :: "('o, 'rc, 'cs) clientManager"
  de_io :: "('l, 'w) netio"
  de_ord :: map_order
  de_time :: "nat \<Rightarrow> int"

record contextVIP =
  cv_contextName :: string
  cv_ip :: ip
  cv_ports :: "servicePort list"

definition NewServer :: "string \<Rightarrow> string \<Rightarrow> server" where
  "NewServer addr domain = \<lparr>listenAddr = addr, clusterDomain = domain\<rparr>"

subsection \<open>Resolving a name\<close>

definition resolve_now ::
  "('l, 'w, 'o, 'rc, 'cs) dns_env \<Rightarrow> string \<Rightarrow> string \<Rightarrow> string \<Rightarrow> string \<Rightarrow> ('l, 'h) dns_state \<Rightarrow>
   (goerr + resolvedService) \<times> ('l, 'h) dns_state" where
  "resolve_now env ctx namespace svcName podName s =
     (let (res, r) = Resolve (de_api env) (de_time env (ds_ticks s)) (de_time env (ds_ticks s + 1)) (Some (de_cm env))
            (ds_resolver s) ctx namespace svcName podName
      in (res, s\<lparr>ds_resolver := r, ds_ticks := ds_ticks s + 2\<rparr>))"

definition vip_key :: "string \<Rightarrow> string \<Rightarrow> string \<Rightarrow> string \<Rightarrow> string" where
  "vip_key contextName namespace svcName podName =
     (let key = contextName @ ''/'' @ namespace @ ''/'' @ svcName
      in if podName \<noteq> '''' then key @ ''/'' @ podName else key)"

definition ports_or_nil :: "goerr + resolvedService \<Rightarrow> servicePort list" where
  "ports_or_nil res = (case res of Inl _ \<Rightarrow> [] | Inr resolved \<Rightarrow> Ports resolved)"

text \<open>
  The loop that starts the listeners: \<open>Some True\<close> when every call succeeded, \<open>Some False\<close> when one
  failed, \<open>None\<close> for a panic.
\<close>

fun start_ports ::
  "('l, 'w, 'o, 'rc, 'cs) dns_env \<Rightarrow> string \<Rightarrow> string \<Rightarrow> servicePort list \<Rightarrow> ('l, 'h) dns_state \<Rightarrow> 'w \<Rightarrow>
   (bool \<times> ('l, 'h) dns_state \<times> 'w) option" where
  "start_ports env contextName vipAddr [] s w = Some (True, s, w)"
| "start_ports env contextName vipAddr (port # ports) s w =
     (case ds_fm s of
        None \<Rightarrow> None
      | Some m \<Rightarrow>
          (let (err, m', w') = StartForward (de_io env) (de_time env (ds_ticks s)) (de_time env (ds_ticks s + 1))
                 (de_cm env) contextName vipAddr (Port port) m w;
               s' = s\<lparr>ds_fm := Some m', ds_ticks := ds_ticks s + 2\<rparr>
           in case err of
             Some e \<Rightarrow> Some (False, s', w')
           | None \<Rightarrow> start_ports env contextName vipAddr ports s' w'))"

definition touch_vip ::
  "('l, 'w, 'o, 'rc, 'cs) dns_env \<Rightarrow> string \<Rightarrow> ('l, 'h) dns_state \<Rightarrow> ('l, 'h) dns_state" where
  "touch_vip env vipAddr s =
     (case ds_fm s of
        None \<Rightarrow> s
      | Some m \<Rightarrow> s\<lparr>ds_fm := Some (TouchVIP (de_time env (ds_ticks s)) vipAddr m), ds_ticks := ds_ticks s + 1\<rparr>)"

definition resolveForContext ::
  "('l, 'w, 'o, 'rc, 'cs) dns_env \<Rightarrow> string \<Rightarrow> string \<Rightarrow> string \<Rightarrow> string \<Rightarrow> ('l, 'h) dns_state \<Rightarrow> 'w \<Rightarrow>
   (contextVIP option \<times> ('l, 'h) dns_state \<times> 'w) option" where
  "resolveForContext env contextName namespace svcName podName s w =
     (let key = vip_key contextName namespace svcName podName in
      case pool_lookup (ds_vips s) key of
        Some a \<Rightarrow>
          (let s1 = touch_vip env (IP_String a) s;
               (res, s2) = resolve_now env contextName namespace svcName podName s1
           in Some (Some \<lparr>cv_contextName = contextName, cv_ip = a, cv_ports = ports_or_nil res\<rparr>, s2, w))
      | None \<Rightarrow>
          (case resolve_now env contextName namespace svcName podName s of
             (Inl err, s1) \<Rightarrow> Some (None, s1, w)
           | (Inr resolved, s1) \<Rightarrow>
               (case pool_alloc key (ds_vips s1) of
                  (Inl err, v) \<Rightarrow> Some (None, s1\<lparr>ds_vips := v\<rparr>, w)
                | (Inr vipAddr, v) \<Rightarrow>
                    do {
                      (started, s2, w2) \<leftarrow> start_ports env contextName (IP_String vipAddr) (Ports resolved)
                         (s1\<lparr>ds_vips := v\<rparr>) w;
                      Some (if started
                            then Some \<lparr>cv_contextName = contextName, cv_ip = vipAddr, cv_ports = Ports resolved\<rparr>
                            else None, s2, w2)
                    })))"

fun resolve_contexts ::
  "('l, 'w, 'o, 'rc, 'cs) dns_env \<Rightarrow> string list \<Rightarrow> string \<Rightarrow> string \<Rightarrow> string \<Rightarrow> ('l, 'h) dns_state \<Rightarrow> 'w \<Rightarrow>
   (contextVIP list \<times> ('l, 'h) dns_state \<times> 'w) option" where
  "resolve_contexts env [] namespace svcName podName s w = Some ([], s, w)"
| "resolve_contexts env (ctxName # ctxs) namespace svcName podName s w =
     do {
       (r, s1, w1) \<leftarrow> resolveForContext env ctxName namespace svcName podName s w;
       (rs, s2, w2) \<leftarrow> resolve_contexts env ctxs namespace svcName podName s1 w1;
       Some (case r of None \<Rightarrow> rs | Some x \<Rightarrow> x # rs, s2, w2)
     }"

definition resolveA ::
  "server \<Rightarrow> ('l, 'w, 'o, 'rc, 'cs) dns_env \<Rightarrow> string \<Rightarrow> ('l, 'h) dns_state \<Rightarrow> 'w \<Rightarrow>
   (contextVIP list \<times> ('l, 'h) dns_state \<times> 'w) option" where
  "resolveA srv env qname s w =
     (case ParseClusterHost (TrimSuffix qname ''.'') (clusterDomain srv) of
        None \<Rightarrow> Some ([], s, w)
      | Some (podName, svcName, namespace, contextName) \<Rightarrow>
          if contextName \<noteq> ''''
          then
            do {
              (r, s1, w1) \<leftarrow> resolveForContext env contextName namespace svcName podName s w;
              Some (case r of None \<Rightarrow> [] | Some x \<Rightarrow> [x], s1, w1)
            }
          else resolve_contexts env (AllContextNames (de_ord env) (de_cm env) (ds_resolver s)) namespace svcName
            podName s w)"

definition contextFQDN :: "server \<Rightarrow> string \<Rightarrow> string \<Rightarrow> string" where
  "contextFQDN srv qname contextName =
     (let base = TrimSuffix qname ''.'';
          base' = (case ParseClusterHost base (clusterDomain srv) of
             Some (_, _, _, existingCtx) \<Rightarrow>
               if existingCtx \<noteq> '''' then take (length base - length existingCtx - 1) base else base
           | None \<Rightarrow> base)
      in base' @ ''.'' @ contextName @ ''.'')"

text \<open>The second pass of lookupTXT and lookupSRV: whether some context resolves the service.\<close>

fun exists_in ::
  "('l, 'w, 'o, 'rc, 'cs) dns_env \<Rightarrow> string list \<Rightarrow> string \<Rightarrow> string \<Rightarrow> string \<Rightarrow> ('l, 'h) dns_state \<Rightarrow>
   bool \<times> ('l, 'h) dns_state" where
  "exists_in env [] namespace svcName podName s = (False, s)"
| "exists_in env (ctxName # ctxs) namespace svcName podName s =
     (case resolve_now env ctxName namespace svcName podName s of
        (Inr _, s1) \<Rightarrow> (True, s1)
      | (Inl _, s1) \<Rightarrow> exists_in env ctxs namespace svcName podName s1)"

definition relevant_contexts ::
  "('l, 'w, 'o, 'rc, 'cs) dns_env \<Rightarrow> string \<Rightarrow> ('l, 'h) dns_state \<Rightarrow> string list" where
  "relevant_contexts env contextName s =
     (if contextName \<noteq> '''' then [contextName] else AllContextNames (de_ord env) (de_cm env) (ds_resolver s))"

definition txt_vips ::
  "string list \<Rightarrow> string \<Rightarrow> string \<Rightarrow> string \<Rightarrow> ('l, 'h) dns_state \<Rightarrow> contextVIP list" where
  "txt_vips ctxs namespace svcName podName s =
     foldl (\<lambda>vips ctxName. case pool_lookup (ds_vips s) (vip_key ctxName namespace svcName podName) of
         None \<Rightarrow> vips
       | Some a \<Rightarrow> vips @ [\<lparr>cv_contextName = ctxName, cv_ip = a, cv_ports = []\<rparr>]) [] ctxs"

definition lookupTXT ::
  "server \<Rightarrow> ('l, 'w, 'o, 'rc, 'cs) dns_env \<Rightarrow> string \<Rightarrow> ('l, 'h) dns_state \<Rightarrow>
   (contextVIP list \<times> bool) \<times> ('l, 'h) dns_state" where
  "lookupTXT srv env qname s =
     (case ParseClusterHost (TrimSuffix qname ''.'') (clusterDomain srv) of
        None \<Rightarrow> (([], False), s)
      | Some (podName, svcName, namespace, contextName) \<Rightarrow>
          (let contexts = relevant_contexts env contextName s;
               vips = txt_vips contexts namespace svcName podName s
           in if 0 < length vips then ((vips, True), s)
              else (let (ex, s1) = exists_in env contexts namespace svcName podName s in (([], ex), s1))))"

fun srv_vips ::
  "('l, 'w, 'o, 'rc, 'cs) dns_env \<Rightarrow> string list \<Rightarrow> string \<Rightarrow> string \<Rightarrow> string \<Rightarrow> ('l, 'h) dns_state \<Rightarrow>
   contextVIP list \<times> ('l, 'h) dns_state" where
  "srv_vips env [] namespace svcName podName s = ([], s)"
| "srv_vips env (ctxName # ctxs) namespace svcName podName s =
     (case pool_lookup (ds_vips s) (vip_key ctxName namespace svcName podName) of
        None \<Rightarrow> srv_vips env ctxs namespace svcName podName s
      | Some a \<Rightarrow>
          (let (res, s1) = resolve_now env ctxName namespace svcName podName s;
               (vips, s2) = srv_vips env ctxs namespace svcName podName s1
           in (\<lparr>cv_contextName = ctxName, cv_ip = a, cv_ports = ports_or_nil res\<rparr> # vips, s2)))"

definition lookupSRV ::
  "server \<Rightarrow> ('l, 'w, 'o, 'rc, 'cs) dns_env \<Rightarrow> string \<Rightarrow> ('l, 'h) dns_state \<Rightarrow>
   (contextVIP list \<times> bool) \<times> ('l, 'h) dns_state" where
  "lookupSRV srv env qname s =
     (case ParseClusterHost (TrimSuffix qname ''.'') (clusterDomain srv) of
        None \<Rightarrow> (([], False), s)
      | Some (podName, svcName, namespace, contextName) \<Rightarrow>
          (let contexts = relevant_contexts env contextName s;
               (vips, s1) = srv_vips env contexts namespace svcName podName s
           in if 0 < length vips then ((vips, True), s1)
              else (let (ex, s2) = exists_in env contexts namespace svcName podName s1 in (([], ex), s2))))"

subsection \<open>Messages\<close>

definition TypeA :: uint16 where "TypeA = 1"
definition TypeNS :: uint16 where "TypeNS = 2"
definition TypeCNAME :: uint16 where "TypeCNAME = 5"
definition TypePTR :: uint16 where "TypePTR = 12"
definition TypeMX :: uint16 where "TypeMX = 15"
definition TypeTXT :: uint16 where "TypeTXT = 16"
definition TypeAAAA :: uint16 where "TypeAAAA = 28"
definition TypeSRV :: uint16 where "TypeSRV = 33"

lemmas type_defs = TypeA_def TypeNS_def TypeCNAME_def TypePTR_def TypeMX_def TypeTXT_def TypeAAAA_def TypeSRV_def

definition RcodeNameError :: nat where "RcodeNameError = 3"

record question =
  qName :: string
  qType :: uint16

datatype rdata = RD_A ip | RD_AAAA ip | RD_TXT "string list" | RD_SRV uint16 uint16 uint16 string
  | RD_CNAME string | RD_MX uint16 string | RD_NS string | RD_PTR string

record rr =
  rrName :: string
  rrType :: uint16
  rrClass :: uint16
  rrTtl :: uint32
  rrData :: rdata

record 'b dns_msg =
  replyTo :: 'b
  Authoritative :: bool
  RecursionAvailable :: bool
  Rcode :: nat
  Answer :: "rr list"
  Extra :: "rr list"

definition newReply :: "'b \<Rightarrow> 'b dns_msg" where
  "newReply b = \<lparr>replyTo = b, Authoritative = False, RecursionAvailable = False, Rcode = 0, Answer = [], Extra = []\<rparr>"

definition new_rr :: "string \<Rightarrow> uint16 \<Rightarrow> uint32 \<Rightarrow> rdata \<Rightarrow> rr" where
  "new_rr n t ttl d = \<lparr>rrName = n, rrType = t, rrClass = 1, rrTtl = ttl, rrData = d\<rparr>"

definition txt_rr :: "string \<Rightarrow> contextVIP \<Rightarrow> rr" where
  "txt_rr n result = new_rr n TypeTXT 5
     (RD_TXT [''ip='' @ IP_String (cv_ip result) @ '' context='' @ cv_contextName result])"

definition srv_rrs :: "server \<Rightarrow> string \<Rightarrow> contextVIP \<Rightarrow> rr list" where
  "srv_rrs srv n result =
     (let srvTarget = contextFQDN srv n (cv_contextName result)
      in concat (map (\<lambda>port. if Port port = 0 then []
           else [new_rr n TypeSRV 5 (RD_SRV 0 0 (ucast (Port port)) srvTarget)]) (cv_ports result)))"

text \<open>One question of handleCluster; the two numbers are hadTypeA and aAnswerCount.\<close>

definition cluster_question ::
  "server \<Rightarrow> ('l, 'w, 'o, 'rc, 'cs) dns_env \<Rightarrow> question \<Rightarrow>
   'b dns_msg \<Rightarrow> bool \<Rightarrow> nat \<Rightarrow> ('l, 'h) dns_state \<Rightarrow> 'w \<Rightarrow>
   ('b dns_msg \<times> bool \<times> nat \<times> ('l, 'h) dns_state \<times> 'w) option" where
  "cluster_question srv env q msg had cnt s w =
     (if qType q = TypeA then
        do {
          (results, s1, w1) \<leftarrow> resolveA srv env (qName q) s w;
          Some (msg\<lparr>Answer := Answer msg @ map (\<lambda>r. new_rr (qName q) TypeA 5 (RD_A (cv_ip r))) results,
              Extra := Extra msg @ concat (map (\<lambda>r. txt_rr (qName q) r # srv_rrs srv (qName q) r) results)\<rparr>,
            True, cnt + length results, s1, w1)
        }
      else if qType q = TypeTXT then
        (let ((vips, serviceExists), s1) = lookupTXT srv env (qName q) s
         in Some (if \<not> serviceExists then msg\<lparr>Rcode := RcodeNameError\<rparr>
                  else msg\<lparr>Answer := Answer msg @ map (txt_rr (qName q)) vips\<rparr>, had, cnt, s1, w))
      else if qType q = TypeSRV then
        (let ((vips, serviceExists), s1) = lookupSRV srv env (qName q) s
         in Some (if \<not> serviceExists then msg\<lparr>Rcode := RcodeNameError\<rparr>
                  else msg\<lparr>Answer := Answer msg @ concat (map (srv_rrs srv (qName q)) vips)\<rparr>, had, cnt, s1, w))
      else Some (msg, had, cnt, s, w))"

fun cluster_questions ::
  "server \<Rightarrow> ('l, 'w, 'o, 'rc, 'cs) dns_env \<Rightarrow> question list \<Rightarrow>
   'b dns_msg \<Rightarrow> bool \<Rightarrow> nat \<Rightarrow> ('l, 'h) dns_state \<Rightarrow> 'w \<Rightarrow>
   ('b dns_msg \<times> bool \<times> nat \<times> ('l, 'h) dns_state \<times> 'w) option" where
  "cluster_questions srv env [] msg had cnt s w = Some (msg, had, cnt, s, w)"
| "cluster_questions srv env (q # qs) msg had cnt s w =
     do {
       (msg1, had1, cnt1, s1, w1) \<leftarrow> cluster_question srv env q msg had cnt s w;
       cluster_questions srv env qs msg1 had1 cnt1 s1 w1
     }"

definition handleCluster ::
  "server \<Rightarrow> ('l, 'w, 'o, 'rc, 'cs) dns_env \<Rightarrow> 'b \<Rightarrow> question list \<Rightarrow> ('l, 'h) dns_state \<Rightarrow> 'w \<Rightarrow>
   ('b dns_msg \<times> ('l, 'h) dns_state \<times> 'w) option" where
  "handleCluster srv env setReply questions s w =
     do {
       (msg, hadTypeA, aAnswerCount, s1, w1) \<leftarrow>
         cluster_questions srv env questions ((newReply setReply)\<lparr>Authoritative := True\<rparr>) False 0 s w;
       Some (if hadTypeA \<and> aAnswerCount = 0 then msg\<lparr>Rcode := RcodeNameError\<rparr> else msg, s1, w1)
     }"

subsection \<open>Upstream\<close>

record upstream =
  LookupIPAddr :: "string \<Rightarrow> goerr option \<times> ip list"
  LookupCNAME :: "string \<Rightarrow> goerr + string"
  LookupMX :: "string \<Rightarrow> goerr option \<times> (uint16 \<times> string) list"
  LookupTXT :: "string \<Rightarrow> goerr + string list"
  LookupNS :: "string \<Rightarrow> goerr option \<times> string list"
  LookupAddr :: "string \<Rightarrow> goerr option \<times> string list"

definition upstream_answer :: "upstream \<Rightarrow> question \<Rightarrow> rr list" where
  "upstream_answer up q =
     (let n = TrimSuffix (qName q) ''.''; t = qType q; mk = new_rr (qName q) t 60 in
      if t = TypeA then
        concat (map (\<lambda>addr. if To4 addr \<noteq> [] then [mk (RD_A (To4 addr))] else []) (snd (LookupIPAddr up n)))
      else if t = TypeAAAA then
        concat (map (\<lambda>addr. if To4 addr = [] then [mk (RD_AAAA addr)] else []) (snd (LookupIPAddr up n)))
      else if t = TypeCNAME then
        (case LookupCNAME up n of Inl _ \<Rightarrow> [] | Inr cname \<Rightarrow> [mk (RD_CNAME cname)])
      else if t = TypeMX then map (\<lambda>(pref, host). mk (RD_MX pref host)) (snd (LookupMX up n))
      else if t = TypeTXT then
        (case LookupTXT up n of Inl _ \<Rightarrow> [] | Inr txts \<Rightarrow> [mk (RD_TXT txts)])
      else if t = TypeNS then map (\<lambda>host. mk (RD_NS host)) (snd (LookupNS up n))
      else if t = TypePTR then map (\<lambda>ptr. mk (RD_PTR ptr)) (snd (LookupAddr up n))
      else [])"

definition forwardToUpstream :: "upstream \<Rightarrow> 'b \<Rightarrow> question list \<Rightarrow> 'b dns_msg" where
  "forwardToUpstream up setReply questions =
     foldl (\<lambda>msg q. msg\<lparr>Answer := Answer msg @ upstream_answer up q\<rparr>)
       ((newReply setReply)\<lparr>RecursionAvailable := True\<rparr>) questions"

definition names_context :: "server \<Rightarrow> question \<Rightarrow> bool" where
  "names_context srv q =
     (if qType q = TypeA \<or> qType q = TypeTXT \<or> qType q = TypeSRV
      then (case ParseClusterHost (TrimSuffix (qName q) ''.'') (clusterDomain srv) of
              Some (_, _, _, ctxName) \<Rightarrow> ctxName \<noteq> ''''
            | None \<Rightarrow> False)
      else False)"

definition handleDefault ::
  "server \<Rightarrow> ('l, 'w, 'o, 'rc, 'cs) dns_env \<Rightarrow> upstream \<Rightarrow> 'b \<Rightarrow> question list \<Rightarrow> ('l, 'h) dns_state \<Rightarrow> 'w \<Rightarrow>
   ('b dns_msg \<times> ('l, 'h) dns_state \<times> 'w) option" where
  "handleDefault srv env up setReply questions s w =
     (if list_ex (names_context srv) questions then handleCluster srv env setReply questions s w
      else Some (forwardToUpstream up setReply questions, s, w))"

text \<open>
  The two handlers Start registers: the multiplexer picks the one for the cluster domain when the
  first question lies in that zone, which is the library's \<open>inZone\<close>. A message without a question,
  given to the default handler here, is refused by the library and reaches neither of them.
\<close>

definition serveDNS ::
  "(string \<Rightarrow> string \<Rightarrow> bool) \<Rightarrow> server \<Rightarrow> ('l, 'w, 'o, 'rc, 'cs) dns_env \<Rightarrow> upstream \<Rightarrow> 'b \<Rightarrow> question list \<Rightarrow>
   ('l, 'h) dns_state \<Rightarrow> 'w \<Rightarrow> ('b dns_msg \<times> ('l, 'h) dns_state \<times> 'w) option" where
  "serveDNS inZone srv env up setReply questions s w =
     (if questions \<noteq> [] \<and> inZone (clusterDomain srv @ ''.'') (qName (hd questions))
      then handleCluster srv env setReply questions s w
      else handleDefault srv env up setReply questions s w)"

subsection \<open>Starting and stopping\<close>

text \<open>
  The sockets and the serving goroutines: \<open>early\<close> is what one of them sends on the error channel
  within the 100 milliseconds that Start waits, if anything.
\<close>

record ('u, 't) dns_socks =
  udpConn :: "'u option"
  tcpListener :: "'t option"

record ('u, 't, 'w) dns_net =
  ListenPacket :: "string \<Rightarrow> 'w \<Rightarrow> (goerr + 'u) \<times> 'w"
  ListenTCP :: "string \<Rightarrow> 'w \<Rightarrow> (goerr + 't) \<times> 'w"
  PacketConn_Close :: "'u \<Rightarrow> 'w \<Rightarrow> 'w"
  LocalAddr :: "'u \<Rightarrow> string"
  Server_Shutdown_udp :: "'u \<Rightarrow> 'w \<Rightarrow> 'w"
  Server_Shutdown_tcp :: "'t \<Rightarrow> 'w \<Rightarrow> 'w"

definition dns_Start ::
  "('u, 't, 'w) dns_net \<Rightarrow> server \<Rightarrow> goerr option \<Rightarrow> ('u, 't) dns_socks \<Rightarrow> 'w \<Rightarrow>
   goerr option \<times> ('u, 't) dns_socks \<times> 'w" where
  "dns_Start net srv early s w =
     (case ListenPacket net (listenAddr srv) w of
        (Inl err, w1) \<Rightarrow> (Some (Wrapf (''DNS UDP listen on '' @ listenAddr srv) err), s, w1)
      | (Inr u, w1) \<Rightarrow>
          (let s1 = s\<lparr>udpConn := Some u\<rparr> in
           case ListenTCP net (listenAddr srv) w1 of
             (Inl err, w2) \<Rightarrow>
               (Some (Wrapf (''DNS TCP listen on '' @ listenAddr srv) err), s1, PacketConn_Close net u w2)
           | (Inr t, w2) \<Rightarrow> (early, s1\<lparr>tcpListener := Some t\<rparr>, w2)))"

definition dns_Addr :: "('u, 't, 'w) dns_net \<Rightarrow> ('u, 't) dns_socks \<Rightarrow> string" where
  "dns_Addr net s = (case udpConn s of None \<Rightarrow> '''' | Some u \<Rightarrow> LocalAddr net u)"

definition dns_Shutdown :: "('u, 't, 'w) dns_net \<Rightarrow> ('u, 't) dns_socks \<Rightarrow> 'w \<Rightarrow> 'w" where
  "dns_Shutdown net s w =
     (case (udpConn s, tcpListener s) of
        (Some u, Some t) \<Rightarrow> Server_Shutdown_tcp net t (Server_Shutdown_udp net u w)
      | _ \<Rightarrow> w)"

subsection \<open>Lemmas\<close>

lemma resolve_now_keeps:
  assumes "resolve_now env ctx ns svc pod s = (r, s')"
  shows "ds_vips s' = ds_vips s" "ds_fm s' = ds_fm s"
  using assms by (auto simp: resolve_now_def split: prod.splits)

lemma touch_vip_keeps [simp]: "ds_vips (touch_vip env a s) = ds_vips s"
  by (simp add: touch_vip_def split: option.splits)

lemma start_ports_keeps: "start_ports env ctx a ps s w = Some (b, s', w') \<Longrightarrow> ds_vips s' = ds_vips s"
  by (induction ps arbitrary: s w) (auto simp: Let_def split: option.splits prod.splits)

lemma exists_in_keeps:
  "exists_in env ctxs ns svc pod s = (b, s') \<Longrightarrow> ds_vips s' = ds_vips s \<and> ds_fm s' = ds_fm s"
  by (induction ctxs arbitrary: s) (auto split: prod.splits sum.splits dest: resolve_now_keeps)

lemma srv_vips_keeps:
  "srv_vips env ctxs ns svc pod s = (vs, s') \<Longrightarrow> ds_vips s' = ds_vips s \<and> ds_fm s' = ds_fm s"
  by (induction ctxs arbitrary: s vs) (fastforce split: prod.splits option.splits dest: resolve_now_keeps)+

lemma lookups_keep:
  "lookupTXT srv env n s = (r, s') \<Longrightarrow> ds_vips s' = ds_vips s \<and> ds_fm s' = ds_fm s"
  "lookupSRV srv env n s = (r, s') \<Longrightarrow> ds_vips s' = ds_vips s \<and> ds_fm s' = ds_fm s"
  by (auto simp: lookupTXT_def lookupSRV_def Let_def split: option.splits prod.splits if_splits
      dest!: exists_in_keeps srv_vips_keeps)

text \<open>What resolving in one context does to the VIPs: at most its own key is added.\<close>

lemma resolveForContext_vips:
  assumes "pool_inv (ds_vips s)" "resolveForContext env ctx ns svc pod s w = Some (r, s', w')"
  shows "pool_inv (ds_vips s')"
    "pool_lookup (ds_vips s) k = Some v \<Longrightarrow> pool_lookup (ds_vips s') k = Some v"
    "r = Some x \<Longrightarrow> cv_contextName x = ctx \<and> pool_lookup (ds_vips s') (vip_key ctx ns svc pod) = Some (cv_ip x)"
proof -
  let ?key = "vip_key ctx ns svc pod"
  have "pool_inv (ds_vips s') \<and> (pool_lookup (ds_vips s) k = Some v \<longrightarrow> pool_lookup (ds_vips s') k = Some v) \<and>
    (r = Some x \<longrightarrow> cv_contextName x = ctx \<and> pool_lookup (ds_vips s') ?key = Some (cv_ip x))"
  proof (cases "pool_lookup (ds_vips s) ?key")
    case (Some a)
    obtain res s2 where "resolve_now env ctx ns svc pod (touch_vip env (IP_String a) s) = (res, s2)" by fastforce
    with Some assms resolve_now_keeps(1) [OF this] show ?thesis by (auto simp: resolveForContext_def)
  next
    case None
    obtain res s1 where res: "resolve_now env ctx ns svc pod s = (res, s1)" by fastforce
    note s1 = resolve_now_keeps(1) [OF res]
    show ?thesis
    proof (cases res)
      case (Inl e)
      with None assms res s1 show ?thesis by (auto simp: resolveForContext_def)
    next
      case (Inr svcs)
      obtain al v' where al: "pool_alloc ?key (ds_vips s1) = (al, v')" by (metis surj_pair)
      show ?thesis
      proof (cases al)
        case (Inl e)
        with None assms res Inr al s1 pool.alloc_err [of "ds_vips s" ?key e v'] show ?thesis
          by (auto simp: resolveForContext_def)
      next
        case (Inr vip)
        obtain b where st: "start_ports env ctx (IP_String vip) (Ports svcs) (s1\<lparr>ds_vips := v'\<rparr>) w = Some (b, s', w')"
          and r: "r = (if b then Some \<lparr>cv_contextName = ctx, cv_ip = vip, cv_ports = Ports svcs\<rparr> else None)"
          using None assms(2) res \<open>res = Inr svcs\<close> al Inr
          by (auto simp: resolveForContext_def split: bind_splits)
        have "pool_inv v' \<and> pool_lookup v' = (pool_lookup (ds_vips s))(?key \<mapsto> vip)"
          using pool.alloc_ok [OF assms(1)] al Inr s1 by simp
        with None r start_ports_keeps [OF st] show ?thesis by (auto split: if_splits)
      qed
    qed
  qed
  then show "pool_inv (ds_vips s')" "pool_lookup (ds_vips s) k = Some v \<Longrightarrow> pool_lookup (ds_vips s') k = Some v"
    "r = Some x \<Longrightarrow> cv_contextName x = ctx \<and> pool_lookup (ds_vips s') ?key = Some (cv_ip x)" by blast+
qed

lemma resolve_contexts_vips:
  assumes "pool_inv (ds_vips s)" "resolve_contexts env ctxs ns svc pod s w = Some (rs, s', w')"
  shows "pool_inv (ds_vips s') \<and> pool_lookup (ds_vips s) \<subseteq>\<^sub>m pool_lookup (ds_vips s') \<and>
    (\<forall>x \<in> set rs. cv_contextName x \<in> set ctxs \<and>
       pool_lookup (ds_vips s') (vip_key (cv_contextName x) ns svc pod) = Some (cv_ip x))"
  using assms
proof (induction ctxs arbitrary: s w rs)
  case (Cons c ctxs)
  then obtain r s1 w1 rs1 where one: "resolveForContext env c ns svc pod s w = Some (r, s1, w1)"
    and rest: "resolve_contexts env ctxs ns svc pod s1 w1 = Some (rs1, s', w')"
    and rs: "rs = (case r of None \<Rightarrow> rs1 | Some x \<Rightarrow> x # rs1)" by (auto split: bind_splits)
  note eff = resolveForContext_vips [OF Cons.prems(1) one]
  note IH = Cons.IH [OF eff(1) rest]
  have le: "pool_lookup (ds_vips s) \<subseteq>\<^sub>m pool_lookup (ds_vips s1)" using eff(2) by (auto simp: map_le_def)
  have le': "pool_lookup (ds_vips s1) k = Some v \<Longrightarrow> pool_lookup (ds_vips s') k = Some v" for k v
    using IH by (metis domI map_le_def)
  have "cv_contextName x \<in> set (c # ctxs) \<and>
      pool_lookup (ds_vips s') (vip_key (cv_contextName x) ns svc pod) = Some (cv_ip x)" if "x \<in> set rs" for x
  proof (cases "x \<in> set rs1")
    case True
    with IH show ?thesis by simp
  next
    case False
    with that have "r = Some x" by (auto simp: rs split: option.splits)
    with eff(3) le' show ?thesis by simp
  qed
  with IH map_le_trans [OF le] show ?case by blast
qed simp

lemma start_ports_listeners:
  assumes "start_ports env ctx vip ps s w = Some (True, s', w')"
    and "fk_contextName key = (if ctx = '''' then CurrentContextName (de_cm env) else ctx)" "fk_vipAddr key = vip"
    and "fk_svcPort key \<in> Port ` set ps \<or> (\<exists>m. ds_fm s = Some m \<and> entries m key \<noteq> None)"
  shows "\<exists>m'. ds_fm s' = Some m' \<and> entries m' key \<noteq> None"
  using assms(1,4)
proof (induction ps arbitrary: s w)
  case (Cons p ps)
  then obtain m where m: "ds_fm s = Some m" by (auto split: option.splits)
  obtain r m1 w1 where st: "StartForward (de_io env) (de_time env (ds_ticks s)) (de_time env (ds_ticks s + 1))
      (de_cm env) ctx vip (Port p) m w = (r, m1, w1)" by (metis prod_cases3)
  let ?s = "s\<lparr>ds_fm := Some m1, ds_ticks := ds_ticks s + 2\<rparr>"
  have r: "r = None" and rest: "start_ports env ctx vip ps ?s w1 = Some (True, s', w')"
    using Cons.prems(1) m st by (auto simp: Let_def split: option.splits)
  have "entries m1 key \<noteq> None" if "fk_svcPort key = Port p"
  proof -
    have "key = \<lparr>fk_contextName = (if ctx = '''' then CurrentContextName (de_cm env) else ctx),
       fk_vipAddr = vip, fk_svcPort = Port p\<rparr>" using assms(2,3) that by (cases key) simp
    then show ?thesis using StartForward_entries(2) [OF st r] by simp
  qed
  then have "fk_svcPort key \<in> Port ` set ps \<or> (\<exists>m. ds_fm ?s = Some m \<and> entries m key \<noteq> None)"
    using Cons.prems(2) m StartForward_entries(1) [OF st, of key] by auto
  from Cons.IH [OF rest this] show ?case .
qed auto

lemma parse_labels_ctx: "parse_labels pre c = Some (pod, svc, ns, c') \<Longrightarrow> parse_labels pre d = Some (pod, svc, ns, d)"
  by (auto simp: parse_labels_def split: list.splits)

lemma slash_split:
  "CHR ''/'' \<notin> set a \<Longrightarrow> Split (a @ ''/'' @ s) (CHR ''/'') = a # Split s (CHR ''/'')"
  using Split_append_sep [of a "CHR ''/''" s] by (simp add: Split_no_sep)

lemma Split_vip_key:
  assumes "CHR ''/'' \<notin> set ctx" "CHR ''/'' \<notin> set ns" "CHR ''/'' \<notin> set svc" "CHR ''/'' \<notin> set pod"
  shows "Split (vip_key ctx ns svc pod) (CHR ''/'') = [ctx, ns, svc] @ (if pod = '''' then [] else [pod])"
  using assms slash_split [OF assms(1), of "ns @ ''/'' @ svc"] slash_split [OF assms(1), of "ns @ ''/'' @ svc @ ''/'' @ pod"]
    slash_split [OF assms(2), of "svc"] slash_split [OF assms(2), of "svc @ ''/'' @ pod"] slash_split [OF assms(3), of "pod"]
  by (simp add: vip_key_def Split_no_sep)

subsection \<open>Well-formed records\<close>

text \<open>
  The library packs a record as its header says, so the type in the header must be that of the
  data, the class IN, and an A record must hold an IPv4 address of four bytes.
\<close>

fun data_of_type :: "uint16 \<Rightarrow> rdata \<Rightarrow> bool" where
  "data_of_type t (RD_A a) \<longleftrightarrow> t = TypeA \<and> length a = 4"
| "data_of_type t (RD_AAAA a) \<longleftrightarrow> t = TypeAAAA \<and> To4 a = []"
| "data_of_type t (RD_TXT txts) \<longleftrightarrow> t = TypeTXT"
| "data_of_type t (RD_SRV prio weight port target) \<longleftrightarrow> t = TypeSRV"
| "data_of_type t (RD_CNAME c) \<longleftrightarrow> t = TypeCNAME"
| "data_of_type t (RD_MX pref host) \<longleftrightarrow> t = TypeMX"
| "data_of_type t (RD_NS host) \<longleftrightarrow> t = TypeNS"
| "data_of_type t (RD_PTR ptr) \<longleftrightarrow> t = TypePTR"

definition well_typed :: "rr \<Rightarrow> bool" where
  "well_typed r \<longleftrightarrow> rrClass r = 1 \<and> data_of_type (rrType r) (rrData r)"

text \<open>An answer to the questions \<open>qs\<close>; a record in the additional section.\<close>

definition answer_ok :: "question list \<Rightarrow> rr \<Rightarrow> bool" where
  "answer_ok qs r \<longleftrightarrow> well_typed r \<and> (\<exists>q \<in> set qs. rrName r = qName q \<and> rrType r = qType q)"

definition extra_ok :: "question list \<Rightarrow> rr \<Rightarrow> bool" where
  "extra_ok qs r \<longleftrightarrow> well_typed r \<and> rrType r \<in> {TypeTXT, TypeSRV} \<and>
     (\<exists>q \<in> set qs. rrName r = qName q \<and> qType q = TypeA)"

definition msg_ok :: "question list \<Rightarrow> 'b dns_msg \<Rightarrow> bool" where
  "msg_ok qs msg \<longleftrightarrow> (\<forall>r \<in> set (Answer msg). answer_ok qs r) \<and> (\<forall>r \<in> set (Extra msg). extra_ok qs r)"

lemma txt_rr_ok: "well_typed (txt_rr n x)" "rrType (txt_rr n x) = TypeTXT" "rrName (txt_rr n x) = n"
  by (simp_all add: txt_rr_def new_rr_def well_typed_def)

lemma srv_rrs_ok: "r \<in> set (srv_rrs srv n x) \<Longrightarrow> well_typed r \<and> rrType r = TypeSRV \<and> rrName r = n"
  by (auto simp: srv_rrs_def new_rr_def well_typed_def Let_def split: if_splits)

lemma To4_length: "To4 a \<noteq> [] \<Longrightarrow> length (To4 a) = 4"
  by (auto simp: To4_def split: if_splits)

lemma upstream_answer_ok: "r \<in> set (upstream_answer up q) \<Longrightarrow> answer_ok [q] r"
  by (auto simp: upstream_answer_def answer_ok_def well_typed_def new_rr_def To4_length Let_def
      split: if_splits sum.splits)

lemma resolveA_vips:
  assumes "pool_inv (ds_vips s)" "resolveA srv env qname s w = Some (rs, s', w')"
  shows "pool_inv (ds_vips s')" "x \<in> set rs \<Longrightarrow> length (cv_ip x) = 4"
proof -
  have "pool_inv (ds_vips s') \<and> (\<forall>x \<in> set rs. length (cv_ip x) = 4)"
  proof (cases "ParseClusterHost (TrimSuffix qname ''.'') (clusterDomain srv)")
    case None
    with assms show ?thesis by (simp add: resolveA_def)
  next
    case (Some p)
    then obtain pod svc ns ctx where p: "ParseClusterHost (TrimSuffix qname ''.'') (clusterDomain srv) = Some (pod, svc, ns, ctx)"
      by (cases p) auto
    then have "resolve_contexts env (relevant_contexts env ctx s) ns svc pod s w = Some (rs, s', w')"
      using assms(2) by (auto simp: resolveA_def relevant_contexts_def split: bind_splits option.splits if_splits)
    from resolve_contexts_vips [OF assms(1) this] show ?thesis using pool.vip_length by blast
  qed
  then show "pool_inv (ds_vips s')" "x \<in> set rs \<Longrightarrow> length (cv_ip x) = 4" by blast+
qed

lemma cluster_question_ok:
  assumes "pool_inv (ds_vips s)" "cluster_question srv env q msg had cnt s w = Some (msg', had', cnt', s', w')"
    and "q \<in> set qs" "msg_ok qs msg"
  shows "pool_inv (ds_vips s') \<and> msg_ok qs msg'"
proof -
  consider (A) "qType q = TypeA" | (TXT) "qType q = TypeTXT" | (SRV) "qType q = TypeSRV"
    | (none) "qType q \<notin> {TypeA, TypeTXT, TypeSRV}" by blast
  then show ?thesis
  proof cases
    case A
    then obtain rs where rs: "resolveA srv env (qName q) s w = Some (rs, s', w')"
      and ans: "Answer msg' = Answer msg @ map (\<lambda>r. new_rr (qName q) TypeA 5 (RD_A (cv_ip r))) rs"
      and ext: "Extra msg' = Extra msg @ concat (map (\<lambda>r. txt_rr (qName q) r # srv_rrs srv (qName q) r) rs)"
      using assms(2) by (auto simp: cluster_question_def split: bind_splits)
    have "answer_ok qs (new_rr (qName q) TypeA 5 (RD_A (cv_ip x)))" if "x \<in> set rs" for x
      using resolveA_vips(2) [OF assms(1) rs that] A assms(3)
      by (auto simp: answer_ok_def well_typed_def new_rr_def)
    moreover have "extra_ok qs r" if "x \<in> set rs" "r \<in> set (txt_rr (qName q) x # srv_rrs srv (qName q) x)" for x r
      using that(2) A assms(3) txt_rr_ok [of "qName q" x] srv_rrs_ok [of r srv "qName q" x]
      by (auto simp: extra_ok_def)
    ultimately show ?thesis
      using resolveA_vips(1) [OF assms(1) rs] assms(4) by (auto simp: msg_ok_def ans ext)
  next
    case TXT
    obtain vips ex s1 where l: "lookupTXT srv env (qName q) s = ((vips, ex), s1)" by (metis surj_pair)
    have "answer_ok qs (txt_rr (qName q) x)" for x
      using TXT assms(3) txt_rr_ok [of "qName q" x] by (auto simp: answer_ok_def)
    moreover have "TypeTXT \<noteq> TypeA" by (simp add: type_defs)
    ultimately show ?thesis
      using assms(1,2,4) TXT l lookups_keep(1) [OF l]
      by (auto simp: cluster_question_def msg_ok_def split: if_splits)
  next
    case SRV
    obtain vips ex s1 where l: "lookupSRV srv env (qName q) s = ((vips, ex), s1)" by (metis surj_pair)
    have "answer_ok qs r" if "r \<in> set (srv_rrs srv (qName q) x)" for x r
      using SRV assms(3) srv_rrs_ok [OF that] by (auto simp: answer_ok_def)
    moreover have "TypeSRV \<noteq> TypeA" "TypeSRV \<noteq> TypeTXT" by (simp_all add: type_defs)
    ultimately show ?thesis
      using assms(1,2,4) SRV l lookups_keep(2) [OF l]
      by (auto simp: cluster_question_def msg_ok_def split: if_splits)
  next
    case none
    with assms show ?thesis by (simp add: cluster_question_def)
  qed
qed

lemma cluster_questions_ok:
  assumes "pool_inv (ds_vips s)" "cluster_questions srv env qs' msg had cnt s w = Some (msg', had', cnt', s', w')"
    and "set qs' \<subseteq> set qs" "msg_ok qs msg"
  shows "msg_ok qs msg'"
  using assms
proof (induction qs' arbitrary: msg had cnt s w)
  case (Cons q qs')
  then obtain msg1 had1 cnt1 s1 w1 where one: "cluster_question srv env q msg had cnt s w = Some (msg1, had1, cnt1, s1, w1)"
    and rest: "cluster_questions srv env qs' msg1 had1 cnt1 s1 w1 = Some (msg', had', cnt', s', w')"
    by (auto split: bind_splits)
  from cluster_question_ok [OF Cons.prems(1) one _ Cons.prems(4)] Cons.prems(3)
  have "pool_inv (ds_vips s1)" "msg_ok qs msg1" by simp_all
  with Cons.IH [OF _ rest] Cons.prems(3) show ?case by simp
qed simp

lemma handleCluster_ok:
  assumes "pool_inv (ds_vips s)" "handleCluster srv env b qs s w = Some (msg, s', w')"
  shows "msg_ok qs msg"
proof -
  obtain msg1 had cnt where run: "cluster_questions srv env qs ((newReply b)\<lparr>Authoritative := True\<rparr>) False 0 s w =
      Some (msg1, had, cnt, s', w')" and msg: "msg = (if had \<and> cnt = 0 then msg1\<lparr>Rcode := RcodeNameError\<rparr> else msg1)"
    using assms(2) by (auto simp: handleCluster_def split: bind_splits)
  have "msg_ok qs msg1" by (rule cluster_questions_ok [OF assms(1) run]) (simp_all add: msg_ok_def newReply_def)
  then show ?thesis by (simp add: msg msg_ok_def)
qed

lemma forwardToUpstream_ok: "msg_ok qs (forwardToUpstream up b qs)"
proof -
  have "answer_ok qs r" if "q \<in> set qs" "r \<in> set (upstream_answer up q)" for q r
    using upstream_answer_ok [OF that(2)] that(1) by (auto simp: answer_ok_def)
  then show ?thesis
    unfolding forwardToUpstream_def
    by (intro foldl_invariant [where P = "msg_ok qs"]) (auto simp: msg_ok_def newReply_def)
qed

subsection \<open>A server\<close>

definition srv0 :: server where
  "srv0 = NewServer ''127.0.0.1:53'' ''svc.cluster.local''"

definition env0 :: "(nat, nat list, nat, string, string) dns_env" where
  "env0 = \<lparr>de_api = demo_api, de_cm = demo_mgr, de_io = demo_io, de_ord = by_name, de_time = (\<lambda>n. 5 * int n)\<rparr>"

definition ds0 :: "(nat, host) dns_state" where
  "ds0 = \<lparr>ds_vips = (alloc0, host0), ds_resolver = NewResolver 30, ds_fm = Some (NewForwardManager True 10), ds_ticks = 0\<rparr>"

definition web_east :: string where
  "web_east = ''web.prod.svc.cluster.local.east.''"

lemma parse_web_east: "ParseClusterHost (TrimSuffix web_east ''.'') (clusterDomain srv0) = Some ('''', ''web'', ''prod'', ''east'')"
proof -
  have "TrimSuffix (''web.prod.svc.cluster.local.east'' @ ''.'') ''.'' = ''web.prod.svc.cluster.local.east''"
    by (rule TrimSuffix_append)
  then show ?thesis
    using ParseClusterHost_ctx [of "''east''" "''svc.cluster.local''" "''web.prod''"]
    by (simp add: web_east_def srv0_def NewServer_def parse_labels_def)
qed

lemma pool_inv_ds0: "pool_inv (ds_vips ds0)"
  using NewAllocator_inv [OF alloc0(1)] by (simp add: ds0_def Vip_Allocator.pool_inv_def)

lemma web_key: "vip_key ''east'' ''prod'' ''web'' '''' = ''east/prod/web''"
  by (simp add: vip_key_def)

lemma ds0_lookup: "pool_lookup (ds_vips ds0) k = None"
  by (simp add: ds0_def pool_lookup_eq alloc0)

lemma ds0_resolve:
  "\<exists>s1. resolve_now env0 ''east'' ''prod'' ''web'' '''' ds0 = (Inr (demo_svc 5), s1)"
  "\<exists>s1. resolve_now (env0\<lparr>de_io := io\<rparr>) ''east'' ''prod'' ''web'' '''' ds0 = (Inr (demo_svc 5), s1)"
  by (simp_all add: resolve_now_def env0_def ds0_def demo_resolve_east)

lemma ds0_alloc: "\<exists>v. pool_alloc k (ds_vips ds0) = (Inr [10, 0, 0, 2], v)"
  by (simp add: pool_alloc_def ds0_def alloc0_run)

lemma vip2_text: "IP_String [10, 0, 0, 2] = ''10.0.0.2''"
  by (simp add: IP_String_def dotted_def dec.simps digit_char_def char_of_def bit_0 To4_def)

lemma ds0_answer:
  "\<exists>s'. resolveForContext env0 ''east'' ''prod'' ''web'' '''' ds0 [] =
     Some (Some \<lparr>cv_contextName = ''east'', cv_ip = [10, 0, 0, 2], cv_ports = Ports (demo_svc 5)\<rparr>, s', [0])"
proof -
  obtain s1 where s1: "resolve_now env0 ''east'' ''prod'' ''web'' '''' ds0 = (Inr (demo_svc 5), s1)"
    using ds0_resolve(1) by blast
  obtain v where v: "pool_alloc ''east/prod/web'' (ds_vips s1) = (Inr [10, 0, 0, 2], v)"
    using ds0_alloc [of "''east/prod/web''"] resolve_now_keeps(1) [OF s1] by auto
  have "\<exists>s'. start_ports env0 ''east'' ''10.0.0.2'' (Ports (demo_svc 5)) (s1\<lparr>ds_vips := v\<rparr>) [] = Some (True, s', [0])"
    using resolve_now_keeps(2) [OF s1]
    by (simp add: demo_svc_def ds0_def env0_def StartForward_def start_check_def start_commit_def new_context_def
        NewForwardManager_def demo_io_def Let_def)
  then show ?thesis using s1 v ds0_lookup by (auto simp: resolveForContext_def web_key vip2_text)
qed

subsection \<open>Properties\<close>

text \<open>
  C8: the addresses in an answer are the allocated ones. Whatever the state, an A question
  leaves the allocator sound, takes no VIP away from any key, and every address it is answered
  with is the VIP of the service named in the question, in a context it named or, if it named
  none, in one of the known contexts; answers for different contexts have different addresses.
\<close>

theorem answers_are_allocated:
  assumes "pool_inv (ds_vips s)" "resolveA srv env qname s w = Some (rs, s', w')"
  shows "pool_inv (ds_vips s') \<and> pool_lookup (ds_vips s) \<subseteq>\<^sub>m pool_lookup (ds_vips s') \<and>
    (\<forall>x \<in> set rs. \<exists>pod svc ns ctx.
       ParseClusterHost (TrimSuffix qname ''.'') (clusterDomain srv) = Some (pod, svc, ns, ctx) \<and>
       cv_contextName x \<in> set (relevant_contexts env ctx s) \<and>
       pool_lookup (ds_vips s') (vip_key (cv_contextName x) ns svc pod) = Some (cv_ip x)) \<and>
    (\<forall>x \<in> set rs. \<forall>y \<in> set rs. cv_ip x = cv_ip y \<longrightarrow> cv_contextName x = cv_contextName y)"
proof (cases "ParseClusterHost (TrimSuffix qname ''.'') (clusterDomain srv)")
  case None
  with assms show ?thesis by (simp add: resolveA_def)
next
  case (Some p)
  obtain pod svc ns ctx where p: "p = (pod, svc, ns, ctx)" by (cases p)
  have "resolve_contexts env (relevant_contexts env ctx s) ns svc pod s w = Some (rs, s', w')"
    using assms(2) Some p
    by (auto simp: resolveA_def relevant_contexts_def split: bind_splits option.splits if_splits)
  note eff = resolve_contexts_vips [OF assms(1) this]
  have "cv_contextName x = cv_contextName y" if "x \<in> set rs" "y \<in> set rs" "cv_ip x = cv_ip y" for x y
  proof -
    have "vip_key (cv_contextName x) ns svc pod = vip_key (cv_contextName y) ns svc pod"
      by (rule pool.vips_distinct [of "ds_vips s'" _ "cv_ip x"]) (use eff that in auto)
    then show ?thesis by (simp add: vip_key_def Let_def split: if_splits)
  qed
  moreover have "\<forall>x \<in> set rs. \<exists>pod svc ns ctx.
       ParseClusterHost (TrimSuffix qname ''.'') (clusterDomain srv) = Some (pod, svc, ns, ctx) \<and>
       cv_contextName x \<in> set (relevant_contexts env ctx s) \<and>
       pool_lookup (ds_vips s') (vip_key (cv_contextName x) ns svc pod) = Some (cv_ip x)"
    using eff unfolding Some p by blast
  ultimately show ?thesis using eff by blast
qed

theorem answers_are_allocated_witness:
  "\<exists>x s' w'. resolveA srv0 env0 web_east ds0 [] = Some ([x], s', w') \<and>
     pool_lookup (ds_vips s') ''east/prod/web'' = Some (cv_ip x)"
proof -
  obtain x s' w' where run: "resolveA srv0 env0 web_east ds0 [] = Some ([x], s', w')"
    using ds0_answer by (auto simp: resolveA_def parse_web_east)
  obtain pod svc ns ctx where x: "ParseClusterHost (TrimSuffix web_east ''.'') (clusterDomain srv0) = Some (pod, svc, ns, ctx)"
    "cv_contextName x \<in> set (relevant_contexts env0 ctx ds0)"
    "pool_lookup (ds_vips s') (vip_key (cv_contextName x) ns svc pod) = Some (cv_ip x)"
    using answers_are_allocated [OF pool_inv_ds0 run] by (meson list.set_intros(1))
  have "pod = ''''" "svc = ''web''" "ns = ''prod''" "ctx = ''east''" using x(1) parse_web_east by simp_all
  then show ?thesis using run x(2,3) web_key by (auto simp: relevant_contexts_def)
qed

text \<open>
  C16: an address that is handed out for the first time works. When resolving a service in a
  context allocates a VIP and returns it, every port the answer lists has its listener in the
  forward manager.
\<close>

theorem fresh_answer_has_listeners:
  assumes "pool_lookup (ds_vips s) (vip_key ctx ns svc pod) = None"
    and "resolveForContext env ctx ns svc pod s w = Some (Some x, s', w')" "port \<in> set (cv_ports x)"
  shows "\<exists>m'. ds_fm s' = Some m' \<and>
    entries m' \<lparr>fk_contextName = (if ctx = '''' then CurrentContextName (de_cm env) else ctx),
      fk_vipAddr = IP_String (cv_ip x), fk_svcPort = Port port\<rparr> \<noteq> None"
proof -
  obtain ps t vip where x: "x = \<lparr>cv_contextName = ctx, cv_ip = vip, cv_ports = ps\<rparr>"
    and st: "start_ports env ctx (IP_String vip) ps t w = Some (True, s', w')"
    using assms(1,2) by (auto simp: resolveForContext_def split: prod.splits sum.splits bind_splits if_splits)
  show ?thesis by (rule start_ports_listeners [OF st]) (use assms(3) in \<open>auto simp: x\<close>)
qed

theorem fresh_answer_has_listeners_witness:
  "\<exists>x s' m'. resolveForContext env0 ''east'' ''prod'' ''web'' '''' ds0 [] = Some (Some x, s', [0]) \<and>
     ds_fm s' = Some m' \<and> entries m' (key_of ''east'') \<noteq> None"
proof -
  obtain s' where run: "resolveForContext env0 ''east'' ''prod'' ''web'' '''' ds0 [] =
     Some (Some \<lparr>cv_contextName = ''east'', cv_ip = [10, 0, 0, 2], cv_ports = Ports (demo_svc 5)\<rparr>, s', [0])"
    using ds0_answer by blast
  from fresh_answer_has_listeners [OF ds0_lookup run, of "hd (Ports (demo_svc 5))"] run show ?thesis
    by (auto simp: demo_svc_def vip2_text key_of_def)
qed

text \<open>
  An address that did not work is handed out the second time. When binding the first
  listener of a new VIP fails, the name does not resolve; but the VIP stays allocated, and the
  next question for the same service is answered with it although no listener was started.
\<close>

lemma failed_listen_answered_later:
  assumes "pool_inv (ds_vips s)" "pool_lookup (ds_vips s) (vip_key ctx ns svc pod) = None" "ds_fm s = Some m"
    and "resolve_now env ctx ns svc pod s = (Inr res, s1)" "Ports res = p # ps"
    and "pool_alloc (vip_key ctx ns svc pod) (ds_vips s) = (Inr vip, v)"
    and "entries m \<lparr>fk_contextName = (if ctx = '''' then CurrentContextName (de_cm env) else ctx),
      fk_vipAddr = IP_String vip, fk_svcPort = Port p\<rparr> = None"
    and "Listen (de_io env) (IP_String vip @ '':'' @ dec_int (sint (Port p))) w = (Inl err, w1)"
  shows "\<exists>s' x s''. resolveForContext env ctx ns svc pod s w = Some (None, s', w1) \<and>
    resolveForContext env ctx ns svc pod s' w1 = Some (Some x, s'', w1) \<and> cv_ip x = vip \<and>
    map_option entries (ds_fm s'') = Some (entries m)"
proof -
  note s1 = resolve_now_keeps [OF assms(4)]
  obtain s2 where st: "start_ports env ctx (IP_String vip) (Ports res) (s1\<lparr>ds_vips := v\<rparr>) w = Some (False, s2, w1)"
    and s2: "ds_vips s2 = v" "ds_fm s2 = Some m"
    using assms(3,5,7,8) s1 by (simp add: StartForward_def start_check_def Let_def)
  have "pool_lookup v = (pool_lookup (ds_vips s))(vip_key ctx ns svc pod \<mapsto> vip)"
    using pool.alloc_ok [OF assms(1,6)] by simp
  then have look: "pool_lookup (ds_vips s2) (vip_key ctx ns svc pod) = Some vip" by (simp add: s2)
  obtain r3 s3 where r3: "resolve_now env ctx ns svc pod (touch_vip env (IP_String vip) s2) = (r3, s3)" by fastforce
  have "resolveForContext env ctx ns svc pod s w = Some (None, s2, w1)"
    using assms(2,4,6) s1 st by (simp add: resolveForContext_def)
  moreover have "resolveForContext env ctx ns svc pod s2 w1 =
      Some (Some \<lparr>cv_contextName = ctx, cv_ip = vip, cv_ports = ports_or_nil r3\<rparr>, s3, w1)"
    using look r3 by (simp add: resolveForContext_def)
  moreover have "map_option entries (ds_fm s3) = Some (entries m)"
    using resolve_now_keeps(2) [OF r3] s2 by (simp add: touch_vip_def TouchVIP_def)
  ultimately show ?thesis by fastforce
qed

text \<open>
  C27: only A questions change anything. A message without an A question never panics and leaves
  the allocator and the forward manager as they are, whatever names it asks for: TXT and SRV
  lookups are for information only.
\<close>

theorem informative_questions_allocate_nothing:
  fixes b :: 'b
  assumes "\<And>q. q \<in> set qs \<Longrightarrow> qType q \<noteq> TypeA"
  shows "\<exists>msg s'. handleCluster srv env b qs s w = Some (msg, s', w) \<and> ds_vips s' = ds_vips s \<and> ds_fm s' = ds_fm s"
proof -
  have one: "\<exists>msg' s'. cluster_question srv env q msg False 0 s w = Some (msg', False, 0, s', w) \<and>
      ds_vips s' = ds_vips s \<and> ds_fm s' = ds_fm s" if "qType q \<noteq> TypeA" for q s and msg :: "'b dns_msg"
  proof -
    obtain v1 e1 s1 where 1: "lookupTXT srv env (qName q) s = ((v1, e1), s1)" by (metis surj_pair)
    obtain v2 e2 s2 where 2: "lookupSRV srv env (qName q) s = ((v2, e2), s2)" by (metis surj_pair)
    show ?thesis using that lookups_keep(1) [OF 1] lookups_keep(2) [OF 2] by (simp add: cluster_question_def 1 2)
  qed
  have "\<exists>msg' s'. cluster_questions srv env qs msg False 0 s w = Some (msg', False, 0, s', w) \<and>
      ds_vips s' = ds_vips s \<and> ds_fm s' = ds_fm s" for msg :: "'b dns_msg"
    using assms
  proof (induction qs arbitrary: msg s)
    case (Cons q qs)
    obtain msg1 s1 where q: "cluster_question srv env q msg False 0 s w = Some (msg1, False, 0, s1, w)"
      "ds_vips s1 = ds_vips s" "ds_fm s1 = ds_fm s" using one [of q] Cons.prems by force
    moreover obtain msg2 s2 where "cluster_questions srv env qs msg1 False 0 s1 w = Some (msg2, False, 0, s2, w)"
      "ds_vips s2 = ds_vips s1" "ds_fm s2 = ds_fm s1" using Cons.IH Cons.prems by force
    ultimately show ?case by simp
  qed simp
  from this [of "(newReply b)\<lparr>Authoritative := True\<rparr>"] show ?thesis by (auto simp: handleCluster_def)
qed

theorem informative_questions_allocate_nothing_witness:
  "\<exists>msg s'. handleCluster srv0 env0 () [\<lparr>qName = web_east, qType = TypeTXT\<rparr>] ds0 [] = Some (msg, s', []) \<and>
     ds_vips s' = ds_vips ds0 \<and> ds_fm s' = ds_fm ds0"
  by (rule informative_questions_allocate_nothing) (simp add: type_defs)

text \<open>
  C18: when a name does not exist. The response to an A question says NXDOMAIN if and only if it
  has no answer, and its answers carry exactly the resolved addresses; a TXT or SRV question for a
  service that has a VIP in one of the contexts is never answered with NXDOMAIN; any other question
  gets an empty answer without an error, so that the client still asks for A.
\<close>

theorem cluster_response_code:
  assumes "handleCluster srv env b [q] s w = Some (msg, s', w')"
  shows "(qType q = TypeA \<longrightarrow> (Rcode msg = RcodeNameError \<longleftrightarrow> Answer msg = []) \<and>
      (\<exists>rs. resolveA srv env (qName q) s w = Some (rs, s', w') \<and> map rrData (Answer msg) = map (RD_A \<circ> cv_ip) rs)) \<and>
    (qType q \<in> {TypeTXT, TypeSRV} \<and>
       ParseClusterHost (TrimSuffix (qName q) ''.'') (clusterDomain srv) = Some (pod, svc, ns, ctx) \<and>
       c \<in> set (relevant_contexts env ctx s) \<and> pool_lookup (ds_vips s) (vip_key c ns svc pod) \<noteq> None \<longrightarrow> Rcode msg = 0) \<and>
    (qType q \<notin> {TypeA, TypeTXT, TypeSRV} \<longrightarrow> Rcode msg = 0 \<and> Answer msg = [] \<and> s' = s)"
proof (intro conjI impI; (elim conjE)?)
  assume A: "qType q = TypeA"
  show "Rcode msg = RcodeNameError \<longleftrightarrow> Answer msg = []"
    "\<exists>rs. resolveA srv env (qName q) s w = Some (rs, s', w') \<and> map rrData (Answer msg) = map (RD_A \<circ> cv_ip) rs"
    using assms A
    by (auto simp: handleCluster_def cluster_question_def newReply_def RcodeNameError_def new_rr_def
        split: bind_splits if_splits)
next
  assume t: "qType q \<in> {TypeTXT, TypeSRV}" and c: "c \<in> set (relevant_contexts env ctx s)"
    and host: "ParseClusterHost (TrimSuffix (qName q) ''.'') (clusterDomain srv) = Some (pod, svc, ns, ctx)"
    and vip: "pool_lookup (ds_vips s) (vip_key c ns svc pod) \<noteq> None"
  have ne: "TypeTXT \<noteq> TypeA" "TypeSRV \<noteq> TypeA" "TypeSRV \<noteq> TypeTXT" by (simp_all add: type_defs)
  have txts: "txt_vips cs ns svc pod s \<noteq> []" if "c \<in> set cs" for cs
    using that vip
  proof (induction cs rule: rev_induct)
    case (snoc c' cs)
    then show ?case by (auto simp: txt_vips_def split: option.splits)
  qed simp
  have srvs: "fst (srv_vips env cs ns svc pod t) \<noteq> []" if "c \<in> set cs" "ds_vips t = ds_vips s" for cs t
    using that vip by (induction cs arbitrary: t) (auto split: option.splits prod.splits)
  have "snd (fst (lookupTXT srv env (qName q) s))" "snd (fst (lookupSRV srv env (qName q) s))"
    using host txts [OF c] srvs [OF c refl]
    by (auto simp: lookupTXT_def lookupSRV_def Let_def split: prod.splits)
  then show "Rcode msg = 0"
    using assms t ne
    by (auto simp: handleCluster_def cluster_question_def newReply_def split: prod.splits)
next
  assume "qType q \<notin> {TypeA, TypeTXT, TypeSRV}"
  then show "Rcode msg = 0" "Answer msg = []" "s' = s"
    using assms by (auto simp: handleCluster_def cluster_question_def newReply_def)
qed

theorem cluster_response_code_witness:
  "\<exists>msg s' w'. handleCluster srv0 env0 () [\<lparr>qName = web_east, qType = TypeA\<rparr>] ds0 [] = Some (msg, s', w') \<and>
     map rrData (Answer msg) = [RD_A [10, 0, 0, 2]]"
proof -
  obtain s' where a: "resolveA srv0 env0 web_east ds0 [] =
      Some ([\<lparr>cv_contextName = ''east'', cv_ip = [10, 0, 0, 2], cv_ports = Ports (demo_svc 5)\<rparr>], s', [0])"
    using ds0_answer by (auto simp: resolveA_def parse_web_east)
  then obtain msg where run: "handleCluster srv0 env0 () [\<lparr>qName = web_east, qType = TypeA\<rparr>] ds0 [] = Some (msg, s', [0])"
    by (simp add: handleCluster_def cluster_question_def)
  from cluster_response_code [OF run] a run show ?thesis by simp
qed

text \<open>
  C31: SRV targets lead back exactly if the context has no dot in its name. Take a question whose
  name the server reads as a pod, service and namespace, in the same context, another one or none,
  and a context whose name is neither empty nor the last label of the cluster domain. The target
  that the answer's SRV records name for this context is read by the server as the same pod, service
  and namespace in this context if the name of the context has no dot, and is not if it has one.
\<close>

theorem contextFQDN_roundtrip:
  assumes "ParseClusterHost (TrimSuffix qname ''.'') (clusterDomain srv) = Some (pod, svc, ns, ctx0)"
    and "ctx \<noteq> ''''" "ctx \<noteq> last (Split (clusterDomain srv) (CHR ''.''))"
  shows "ParseClusterHost (TrimSuffix (contextFQDN srv qname ctx) ''.'') (clusterDomain srv) = Some (pod, svc, ns, ctx) \<longleftrightarrow>
    CHR ''.'' \<notin> set ctx"
proof
  assume "ParseClusterHost (TrimSuffix (contextFQDN srv qname ctx) ''.'') (clusterDomain srv) = Some (pod, svc, ns, ctx)"
  from ParseClusterHost_sound [OF this] show "CHR ''.'' \<notin> set ctx" by (simp add: label_ok_def)
next
  assume "CHR ''.'' \<notin> set ctx"
  then have ok: "label_ok ctx" by (simp add: label_ok_def)
  let ?D = "clusterDomain srv"
  have fin: "ParseClusterHost (TrimSuffix ((pre @ ''.'' @ ?D) @ ''.'' @ ctx @ ''.'') ''.'') ?D = Some (pod, svc, ns, ctx)"
    if "parse_labels pre c = Some (pod, svc, ns, c)" for pre c
  proof -
    have "TrimSuffix ((pre @ ''.'' @ ?D @ ''.'' @ ctx) @ ''.'') ''.'' = pre @ ''.'' @ ?D @ ''.'' @ ctx"
      by (rule TrimSuffix_append)
    with ParseClusterHost_ctx [OF ok assms(2,3), of pre] parse_labels_ctx [OF that, of ctx] show ?thesis by simp
  qed
  from assms(1)
  show "ParseClusterHost (TrimSuffix (contextFQDN srv qname ctx) ''.'') (clusterDomain srv) = Some (pod, svc, ns, ctx)"
  proof (cases rule: ParseClusterHost_cases)
    case (bare pre)
    with assms(1) have "contextFQDN srv qname ctx = (pre @ ''.'' @ ?D) @ ''.'' @ ctx @ ''.''"
      by (simp add: contextFQDN_def)
    with fin [OF bare(3)] show ?thesis by simp
  next
    case (ctx pre)
    have "take (length (pre @ ''.'' @ ?D @ ''.'' @ ctx0) - length ctx0 - 1) (pre @ ''.'' @ ?D @ ''.'' @ ctx0) = pre @ ''.'' @ ?D"
      by simp
    with ctx(1,2) assms(1) have "contextFQDN srv qname c = (pre @ ''.'' @ ?D) @ ''.'' @ c @ ''.''" for c
      by (simp add: contextFQDN_def)
    with fin [OF ctx(4)] show ?thesis by simp
  qed
qed

theorem contextFQDN_roundtrip_witness:
  "ParseClusterHost (TrimSuffix (contextFQDN srv0 web_east ''west'') ''.'') (clusterDomain srv0) =
     Some ('''', ''web'', ''prod'', ''west'') \<and>
   ParseClusterHost (TrimSuffix (contextFQDN srv0 web_east ''eu.west'') ''.'') (clusterDomain srv0) \<noteq>
     Some ('''', ''web'', ''prod'', ''eu.west'')"
  by (subst (1 2) contextFQDN_roundtrip [OF parse_web_east]) (simp_all add: srv0_def NewServer_def)

text \<open>
  The keys of the VIPs. For names without a slash the key of a service or pod in a context
  belongs to nothing else, so two services never share a VIP. A context name with a slash, which
  kubeconfig allows, breaks this: a service in one context and a pod in another have the same key.
\<close>

lemma vip_key_unique:
  assumes "\<forall>x \<in> {ctx, ns, svc, pod, ctx', ns', svc', pod'}. CHR ''/'' \<notin> set x"
  shows "(vip_key ctx ns svc pod = vip_key ctx' ns' svc' pod' \<longrightarrow> (ctx, ns, svc, pod) = (ctx', ns', svc', pod')) \<and>
    (pod \<noteq> '''' \<longrightarrow> vip_key (ctx @ ''/'' @ ns) svc pod '''' = vip_key ctx ns svc pod)"
proof
  show "vip_key ctx ns svc pod = vip_key ctx' ns' svc' pod' \<longrightarrow> (ctx, ns, svc, pod) = (ctx', ns', svc', pod')"
  proof
    assume "vip_key ctx ns svc pod = vip_key ctx' ns' svc' pod'"
    moreover have "Split (vip_key ctx ns svc pod) (CHR ''/'') = [ctx, ns, svc] @ (if pod = '''' then [] else [pod])"
      "Split (vip_key ctx' ns' svc' pod') (CHR ''/'') = [ctx', ns', svc'] @ (if pod' = '''' then [] else [pod'])"
      by (rule Split_vip_key; use assms in blast)+
    ultimately have "[ctx, ns, svc] @ (if pod = '''' then [] else [pod]) = [ctx', ns', svc'] @ (if pod' = '''' then [] else [pod'])"
      by simp
    then show "(ctx, ns, svc, pod) = (ctx', ns', svc', pod')" by (simp split: if_splits)
  qed
  show "pod \<noteq> '''' \<longrightarrow> vip_key (ctx @ ''/'' @ ns) svc pod '''' = vip_key ctx ns svc pod" by (simp add: vip_key_def)
qed


text \<open>
  C17: responses are well typed. Whichever handler a message is given to and however it ends, each
  record of the answer section has the name and the type of one of its questions, each record of the
  additional section is a TXT or SRV record that belongs to an A question, and the data of every
  record is what its header says: in particular A records hold addresses of four bytes.
\<close>

theorem responses_well_typed:
  assumes "pool_inv (ds_vips s)" "serveDNS inZone srv env up b qs s w = Some (msg, s', w')"
  shows "(\<forall>r \<in> set (Answer msg). rrClass r = 1 \<and> data_of_type (rrType r) (rrData r) \<and>
      (\<exists>q \<in> set qs. rrName r = qName q \<and> rrType r = qType q)) \<and>
    (\<forall>r \<in> set (Extra msg). rrClass r = 1 \<and> data_of_type (rrType r) (rrData r) \<and>
      rrType r \<in> {TypeTXT, TypeSRV} \<and> (\<exists>q \<in> set qs. rrName r = qName q \<and> qType q = TypeA))"
proof -
  have "msg_ok qs msg"
    using assms(2) handleCluster_ok [OF assms(1)] forwardToUpstream_ok
    by (auto simp: serveDNS_def handleDefault_def split: if_splits)
  then show ?thesis by (simp add: msg_ok_def answer_ok_def extra_ok_def well_typed_def)
qed

theorem responses_well_typed_witness:
  "\<forall>up. \<exists>msg s' w'. serveDNS (\<lambda>zone name. True) srv0 env0 up () [\<lparr>qName = web_east, qType = TypeA\<rparr>] ds0 [] = Some (msg, s', w') \<and>
     Answer msg \<noteq> [] \<and> (\<forall>r \<in> set (Answer msg). rrName r = web_east \<and> rrType r = TypeA)"
  (is "\<forall>up. ?P up")
proof
  fix up
  obtain s' where a: "resolveA srv0 env0 web_east ds0 [] =
      Some ([\<lparr>cv_contextName = ''east'', cv_ip = [10, 0, 0, 2], cv_ports = Ports (demo_svc 5)\<rparr>], s', [0])"
    using ds0_answer by (auto simp: resolveA_def parse_web_east)
  obtain msg where run: "serveDNS (\<lambda>zone name. True) srv0 env0 up () [\<lparr>qName = web_east, qType = TypeA\<rparr>] ds0 [] =
      Some (msg, s', [0])" and ne: "Answer msg \<noteq> []"
    using a by (auto simp: serveDNS_def handleCluster_def cluster_question_def newReply_def)
  from responses_well_typed [OF pool_inv_ds0 run] ne run show "?P up" by auto
qed

end
