(* ===== verification/Socks5.thy ===== *)
theory Socks5
  imports Cluster_Host Go_Net Spdy_Pool
begin

text \<open>
  The SOCKS5 proxy (\<^verbatim>\<open>internal/proxy/socks5.go\<close>): the two callbacks it gives to the library
  go-socks5. \<open>dial\<close> tunnels a connection to a cluster name through DialPortForward and dials
  everything else; \<open>clusterAwareResolver_Resolve\<close> keeps cluster names from being resolved by the
  system. The library itself, the direct dial and the system resolver are parameters.

  \<open>Sscanf_d\<close> is \<^verbatim>\<open>fmt.Sscanf(s, "%d", &x)\<close> for an int32: leading white space but no line break, an
  optional sign, decimal digits, whatever follows; \<open>None\<close> is an error.
\<close>

record socks5Proxy =
  sx_listenAddr :: string
  sx_clusterDomain :: string

datatype ('conn, 'st) socksConn = Tunnel "'st streamConn" | Direct 'conn

fun skip_space :: "string \<Rightarrow> string option" where
  "skip_space [] = Some []"
| "skip_space (a # s) =
     (if of_char a = (10 :: nat) then None
      else if ascii_space (of_char a) then skip_space s
      else case s of
        b # c # r \<Rightarrow>
          if space2 (of_char a) (of_char b) then skip_space (c # r)
          else if space3 (of_char a) (of_char b) (of_char c) then skip_space r
          else Some (a # s)
      | [b] \<Rightarrow> if space2 (of_char a) (of_char b) then Some [] else Some (a # s)
      | [] \<Rightarrow> Some (a # s))"

definition Sscanf_d :: "string \<Rightarrow> int32 option" where
  "Sscanf_d s =
     (case skip_space s of
        None \<Rightarrow> None
      | Some t \<Rightarrow>
          (let neg = (t \<noteq> [] \<and> hd t = CHR ''-'');
               u = (if t \<noteq> [] \<and> (hd t = CHR ''+'' \<or> hd t = CHR ''-'') then tl t else t);
               tok = takeWhile is_digit u;
               v = (if neg then - int (undec tok) else int (undec tok))
           in if tok = [] then None
              else if v < - (2 ^ 31) \<or> 2 ^ 31 \<le> v then None
              else Some (word_of_int v)))"

definition dialCluster ::
  "('rc, 'tr, 'c, 'st, 'w) spdy \<Rightarrow> 'cs kubeapi \<Rightarrow> (nat \<Rightarrow> nat) \<Rightarrow> int \<Rightarrow> int \<Rightarrow>
   ('o, 'rc, 'cs) clientManager \<Rightarrow> goerr \<Rightarrow> socks5Proxy \<Rightarrow> string \<Rightarrow> string \<Rightarrow>
   resolver \<Rightarrow> 'c pool \<Rightarrow> 'w \<Rightarrow> (goerr + 'st streamConn) option \<times> resolver \<times> 'c pool \<times> 'w" where
  "dialCluster sp api intn t0 t1 cm scanErr p fqdn portStr r pl w =
     (let host = TrimSuffix fqdn ''.'' in
      case ParseClusterHost host (sx_clusterDomain p) of
        None \<Rightarrow> (Some (Inl (Errorf (''invalid cluster service name: '' @ host))), r, pl, w)
      | Some (podName, svcName, namespace, contextName) \<Rightarrow>
          (case Sscanf_d portStr of
             None \<Rightarrow> (Some (Inl (Wrapf (''invalid port \"'' @ portStr @ ''\"'') scanErr)), r, pl, w)
           | Some svcPort \<Rightarrow>
               DialPortForward sp api intn t0 t1 cm contextName namespace svcName podName svcPort r pl w))"

definition dial ::
  "('rc, 'tr, 'c, 'st, 'w) spdy \<Rightarrow> 'cs kubeapi \<Rightarrow> (nat \<Rightarrow> nat) \<Rightarrow> int \<Rightarrow> int \<Rightarrow>
   ('o, 'rc, 'cs) clientManager \<Rightarrow> goerr \<Rightarrow> (string \<Rightarrow> string \<Rightarrow> 'w \<Rightarrow> (goerr + 'conn) \<times> 'w) \<Rightarrow>
   socks5Proxy \<Rightarrow> string \<Rightarrow> string \<Rightarrow> resolver \<Rightarrow> 'c pool \<Rightarrow> 'w \<Rightarrow>
   (goerr + ('conn, 'st) socksConn) option \<times> resolver \<times> 'c pool \<times> 'w" where
  "dial sp api intn t0 t1 cm scanErr dialTimeout p network addr r pl w =
     (case SplitHostPort addr of
        Inl err \<Rightarrow> (Some (Inl (Wrapf (''parsing address \"'' @ addr @ ''\"'') err)), r, pl, w)
      | Inr (host, portStr) \<Rightarrow>
          if IsClusterHost host (sx_clusterDomain p)
          then (case dialCluster sp api intn t0 t1 cm scanErr p host portStr r pl w of
                  (res, r', pl', w') \<Rightarrow> (map_option (map_sum id Tunnel) res, r', pl', w'))
          else (let (res, w') = dialTimeout network addr w
                in (Some (map_sum id Direct res), r, pl, w')))"

text \<open>\<open>None\<close> is the panic of indexing an empty list of addresses.\<close>

definition clusterAwareResolver_Resolve ::
  "(string \<Rightarrow> goerr + string list) \<Rightarrow> string \<Rightarrow> string \<Rightarrow> (goerr + ip option) option" where
  "clusterAwareResolver_Resolve lookupHost clusterDomain name =
     (if IsClusterHost name clusterDomain then Some (Inr None)
      else case lookupHost name of
        Inl err \<Rightarrow> Some (Inl err)
      | Inr [] \<Rightarrow> None
      | Inr (a # _) \<Rightarrow> Some (Inr (ParseIP a)))"

subsection \<open>Starting and stopping\<close>

record ('l, 'w) socks_net =
  sn_Listen :: "string \<Rightarrow> 'w \<Rightarrow> (goerr + 'l) \<times> 'w"
  sn_Addr :: "'l \<Rightarrow> string"
  sn_Close :: "'l \<Rightarrow> 'w \<Rightarrow> 'w"

definition NewSOCKS5Proxy :: "goerr option \<Rightarrow> string \<Rightarrow> string \<Rightarrow> goerr + socks5Proxy" where
  "NewSOCKS5Proxy socks5New addr domain =
     (case socks5New of
        Some err \<Rightarrow> Inl (Wrapf ''creating SOCKS5 server'' err)
      | None \<Rightarrow> Inr \<lparr>sx_listenAddr = addr, sx_clusterDomain = domain\<rparr>)"

definition socks_Start ::
  "('l, 'w) socks_net \<Rightarrow> socks5Proxy \<Rightarrow> 'l option \<Rightarrow> 'w \<Rightarrow> goerr option \<times> 'l option \<times> 'w" where
  "socks_Start net p ln w =
     (case sn_Listen net (sx_listenAddr p) w of
        (Inl err, w') \<Rightarrow> (Some (Wrapf (''SOCKS5 listen on '' @ sx_listenAddr p) err), ln, w')
      | (Inr l, w') \<Rightarrow> (None, Some l, w'))"

definition socks_Addr :: "('l, 'w) socks_net \<Rightarrow> 'l option \<Rightarrow> string" where
  "socks_Addr net ln = (case ln of None \<Rightarrow> '''' | Some l \<Rightarrow> sn_Addr net l)"

definition socks_Shutdown :: "('l, 'w) socks_net \<Rightarrow> 'l option \<Rightarrow> 'w \<Rightarrow> 'l option \<times> 'w" where
  "socks_Shutdown net ln w = (case ln of None \<Rightarrow> (None, w) | Some l \<Rightarrow> (None, sn_Close net l w))"

subsection \<open>Lemmas\<close>

definition plain :: "string \<Rightarrow> bool" where
  "plain s \<longleftrightarrow> CHR '':'' \<notin> set s \<and> CHR ''['' \<notin> set s \<and> CHR '']'' \<notin> set s"

lemma SplitHostPort_plain:
  assumes "plain host" "plain port"
  shows "SplitHostPort (host @ '':'' @ port) = Inr (host, port)"
proof -
  have "LastIndex (host @ '':'' @ port) '':'' = Some (length host)"
  proof (rule LastIndex_eqI [OF refl])
    fix p' q' assume eq: "host @ '':'' @ port = p' @ '':'' @ q'"
    show "length p' \<le> length host"
      using assms eq by (auto simp: plain_def append_eq_append_conv2 Cons_eq_append_conv)
  qed
  moreover have "hd (host @ '':'' @ port) \<noteq> CHR ''[''"
    using assms(1) by (cases host) (auto simp: plain_def)
  ultimately show ?thesis using assms by (simp add: SplitHostPort_def plain_def)
qed

lemma digit_not_punct: "is_digit c \<Longrightarrow> c \<noteq> CHR '':'' \<and> c \<noteq> CHR ''['' \<and> c \<noteq> CHR '']'' \<and> c \<noteq> CHR ''+'' \<and> c \<noteq> CHR ''-''"
  by (auto simp: is_digit_def)

lemma plain_dec: "plain (dec n)"
  using dec_digits [of _ n] digit_not_punct by (auto simp: plain_def)

lemma digit_no_space: "is_digit c \<Longrightarrow> skip_space (c # s) = Some (c # s)"
  by (auto simp: is_digit_def ascii_space_def space2_def space3_def split: list.splits)

lemma Sscanf_dec: "Sscanf_d (dec n) = (if n < 2 ^ 31 then Some (of_nat n) else None)"
proof -
  obtain c s where c: "dec n = c # s" by (cases "dec n") auto
  have d: "is_digit c" using dec_digits [of c n] c by simp
  have "takeWhile is_digit (dec n) = dec n" using dec_digits by (auto simp: takeWhile_eq_all_conv)
  moreover have "int n < 2 ^ 31 \<longleftrightarrow> n < 2 ^ 31" by simp
  ultimately show ?thesis
    using digit_no_space [OF d, of s] digit_not_punct [OF d] undec_dec [of n]
    by (simp add: Sscanf_d_def c Let_def)
qed

subsection \<open>Properties\<close>

text \<open>
  C21: cluster names are tunnelled. For a host that IsClusterHost recognises and that, without a
  trailing dot, names a pod or service, the resolver callback returns no address, so that the
  library passes the name on, and dialling the name with a decimal port opens a port-forward
  stream to exactly the service, namespace, context and port named. A port that does not fit an
  int32 is refused, not truncated, and nothing changes.
\<close>

theorem cluster_names_are_tunnelled:
  assumes "IsClusterHost host (sx_clusterDomain p)" "plain host"
    and "ParseClusterHost (TrimSuffix host ''.'') (sx_clusterDomain p) = Some (pod, svc, ns, ctx)"
  shows "clusterAwareResolver_Resolve lookupHost (sx_clusterDomain p) host = Some (Inr None) \<and>
    dial sp api intn t0 t1 cm scanErr dialTimeout p network (host @ '':'' @ dec n) r pl w =
      (if n < 2 ^ 31
       then (case DialPortForward sp api intn t0 t1 cm ctx ns svc pod (of_nat n) r pl w of
               (res, r', pl', w') \<Rightarrow> (map_option (map_sum id Tunnel) res, r', pl', w'))
       else (Some (Inl (Wrapf (''invalid port \"'' @ dec n @ ''\"'') scanErr)), r, pl, w))"
  using assms
  by (simp add: clusterAwareResolver_Resolve_def dial_def dialCluster_def SplitHostPort_plain plain_dec Sscanf_dec
      del: append.simps)

definition demo_proxy :: socks5Proxy where
  "demo_proxy = \<lparr>sx_listenAddr = ''127.0.0.1:0'', sx_clusterDomain = ''svc.cluster.local''\<rparr>"

theorem cluster_names_are_tunnelled_witness:
  "fst (dial demo_spdy demo_api (\<lambda>_. 0) 0 5 demo_mgr (Errorf ''integer overflow on token 2147483648'')
     (\<lambda>_ _ w. (Inr (), w)) demo_proxy ''tcp'' (''web.prod.svc.cluster.local.'' @ '':'' @ dec 2147483648)
     (NewResolver 30) emptyPool tw0) =
   Some (Inl (Wrapf (''invalid port \"'' @ dec 2147483648 @ ''\"'') (Errorf ''integer overflow on token 2147483648'')))"
proof -
  have "IsClusterHost (''web.prod'' @ ''.'' @ ''svc.cluster.local'' @ ''.'') ''svc.cluster.local''"
    by (rule IsClusterHost_bare_dot)
  then have 1: "IsClusterHost ''web.prod.svc.cluster.local.'' (sx_clusterDomain demo_proxy)"
    by (simp add: demo_proxy_def)
  have 2: "plain ''web.prod.svc.cluster.local.''" by (simp add: plain_def)
  have "TrimSuffix (''web.prod.svc.cluster.local'' @ ''.'') ''.'' = ''web.prod.svc.cluster.local''"
    by (rule TrimSuffix_append)
  moreover have "ParseClusterHost (''web.prod'' @ ''.'' @ ''svc.cluster.local'') ''svc.cluster.local'' =
      Some ('''', ''web'', ''prod'', '''')"
    by (subst ParseClusterHost_bare) (simp add: parse_labels_def)
  ultimately have 3: "ParseClusterHost (TrimSuffix ''web.prod.svc.cluster.local.'' ''.'') (sx_clusterDomain demo_proxy) =
      Some ('''', ''web'', ''prod'', '''')" by (simp add: demo_proxy_def)
  show ?thesis by (subst conjunct2 [OF cluster_names_are_tunnelled [OF 1 2 3]]) simp
qed

end
