(* ===== verification/App_Server.thy ===== *)
theory App_Server
  imports App_Config Kubeconfig_Handler Dns_Server Socks5
begin

text \<open>
  The whole process: the health probes (\<^verbatim>\<open>internal/health/server.go\<close>), the server that builds,
  starts and stops every component (\<^verbatim>\<open>app/server.go\<close>) and the main program
  (\<^verbatim>\<open>cmd/proxy/main.go\<close>). The sockets live in the world \<open>'w\<close>, the addresses of the host in \<open>'h\<close>;
  what the operating system and the libraries answer is the record \<open>app_env\<close>. Logging is left out.

  \<open>app_sockets\<close> assumes of the close calls that each takes its own socket away; \<open>held\<close> are the
  sockets a server has. An interface carries addresses with prefix lengths.
\<close>

subsection \<open>Health\<close>

record health =
  ready :: bool

definition health_AddToMux :: health where
  "health_AddToMux = \<lparr>ready = False\<rparr>"

definition SetReady :: "health \<Rightarrow> health" where
  "SetReady h = h\<lparr>ready := True\<rparr>"

definition handleLiveness :: "health \<Rightarrow> response" where
  "handleLiveness h = \<lparr>status = 200, header = [], content = ''ok''\<rparr>"

definition handleReadiness :: "health \<Rightarrow> response" where
  "handleReadiness h =
     (if ready h then \<lparr>status = 200, header = [], content = ''ready''\<rparr>
      else \<lparr>status = 503, header = [], content = ''not ready''\<rparr>)"

subsection \<open>The server\<close>

record ('hl, 'u, 't, 'sl, 'l, 'c, 'h, 'o, 'rc, 'cs) app_server =
  as_cfg :: config
  enableDNS :: bool
  enableSocks :: bool
  HTTPAddr :: string
  DNSAddr :: string
  SOCKSAddr :: string
  httpSrv :: "'hl option"
  k8sManager :: "('o, 'rc, 'cs) clientManager option"
  as_allocator :: "'h allocator option"
  as_forward :: "('l forwardManager \<times> 'c pool) option"
  dnsServer :: "(server \<times> ('u, 't) dns_socks) option"
  socks5 :: "(socks5Proxy \<times> 'sl option) option"
  as_health :: health
  as_kubeconfig :: "(('o, 'rc, 'cs) clientManager, 'l forwardManager \<times> 'c pool) kubeconfigHandler"

record ('hl, 'u, 't, 'sl, 'l, 'c, 'st, 'tr, 'h, 'o, 'rc, 'cs, 'w) app_env =
  ae_net :: net_env
  ae_listen :: "string \<Rightarrow> 'w \<Rightarrow> (goerr + 'hl) \<times> 'w"
  ae_addr :: "'hl \<Rightarrow> string"
  ae_httpShutdown :: "'hl \<Rightarrow> 'w \<Rightarrow> 'w"
  ae_clientgo :: "('o, 'rc, 'cs) clientgo"
  ae_ord :: map_order
  ae_file :: "goerr + 'o kubecfg"
  ae_netlink :: "'h netlink"
  ae_dns :: "('u, 't, 'w) dns_net"
  ae_early :: "goerr option"
  ae_socks5New :: "goerr option"
  ae_socks :: "('sl, 'w) socks_net"
  ae_io :: "('l, 'w) netio"
  ae_spdy :: "('rc, 'tr, 'c, 'st, 'w) spdy"

definition app_NewServer ::
  "config \<Rightarrow> bool \<Rightarrow> bool \<Rightarrow> ('hl, 'u, 't, 'sl, 'l, 'c, 'h, 'o, 'rc, 'cs) app_server" where
  "app_NewServer cfg dns socks = \<lparr>as_cfg = cfg, enableDNS = dns, enableSocks = socks, HTTPAddr = '''', DNSAddr = '''',
     SOCKSAddr = '''', httpSrv = None, k8sManager = None, as_allocator = None, as_forward = None, dnsServer = None,
     socks5 = None, as_health = health_AddToMux, as_kubeconfig = AddToMux\<rparr>"

text \<open>
  Start, in the parts its comments name: the HTTP endpoint, the managers, the DNS server, the
  SOCKS5 proxy. Each part returns the error that ends Start, if any.
\<close>

definition start_http ::
  "('hl, 'u, 't, 'sl, 'l, 'c, 'st, 'tr, 'h, 'o, 'rc, 'cs, 'w) app_env \<Rightarrow>
   ('hl, 'u, 't, 'sl, 'l, 'c, 'h, 'o, 'rc, 'cs) app_server \<Rightarrow> 'w \<Rightarrow>
   goerr option \<times> ('hl, 'u, 't, 'sl, 'l, 'c, 'h, 'o, 'rc, 'cs) app_server \<times> 'w" where
  "start_http ae s w =
     (let s1 = s\<lparr>as_health := health_AddToMux, as_kubeconfig := AddToMux\<rparr> in
      case ae_listen ae (HTTPListen (as_cfg s)) w of
        (Inl err, w') \<Rightarrow> (Some (Wrapf (''HTTP listen on '' @ HTTPListen (as_cfg s)) err), s1, w')
      | (Inr ln, w') \<Rightarrow> (None, s1\<lparr>httpSrv := Some ln, HTTPAddr := ae_addr ae ln\<rparr>, w'))"

definition start_managers ::
  "('hl, 'u, 't, 'sl, 'l, 'c, 'st, 'tr, 'h, 'o, 'rc, 'cs, 'w) app_env \<Rightarrow> string \<Rightarrow> 'h \<Rightarrow>
   ('hl, 'u, 't, 'sl, 'l, 'c, 'h, 'o, 'rc, 'cs) app_server \<Rightarrow>
   goerr option \<times> ('hl, 'u, 't, 'sl, 'l, 'c, 'h, 'o, 'rc, 'cs) app_server" where
  "start_managers ae ifaceName h s =
     (case NewClientManager (ae_clientgo ae) (ae_ord ae) (ae_file ae) of
        Inl err \<Rightarrow> (Some (Wrapf ''initialising kubernetes client manager'' err), s)
      | Inr cm \<Rightarrow>
          (let s1 = s\<lparr>k8sManager := Some cm\<rparr> in
           case NewInterfaceAddressManager_linux (ae_netlink ae) ifaceName h of
             Inl err \<Rightarrow> (Some (Wrapf ''creating interface address manager'' err), s1)
           | Inr am \<Rightarrow>
               (case NewAllocator am (VIPCIDR (as_cfg s)) of
                  Inl err \<Rightarrow> (Some (Wrapf ''creating VIP allocator'' err), s1)
                | Inr a \<Rightarrow>
                    (let fm = (NewForwardManager True (VIPIdleTimeout (as_cfg s)), emptyPool)
                     in (None, s1\<lparr>as_allocator := Some a, as_forward := Some fm,
                          as_kubeconfig := SetManagers cm fm (as_kubeconfig s)\<rparr>)))))"

definition start_dns ::
  "('hl, 'u, 't, 'sl, 'l, 'c, 'st, 'tr, 'h, 'o, 'rc, 'cs, 'w) app_env \<Rightarrow>
   ('hl, 'u, 't, 'sl, 'l, 'c, 'h, 'o, 'rc, 'cs) app_server \<Rightarrow> 'w \<Rightarrow>
   goerr option \<times> ('hl, 'u, 't, 'sl, 'l, 'c, 'h, 'o, 'rc, 'cs) app_server \<times> 'w" where
  "start_dns ae s w =
     (if enableDNS s then
        (let srv = NewServer (DNSListen (as_cfg s)) (ClusterDomain (as_cfg s));
             (err, socks, w') = dns_Start (ae_dns ae) srv (ae_early ae) \<lparr>udpConn = None, tcpListener = None\<rparr> w;
             s1 = s\<lparr>dnsServer := Some (srv, socks)\<rparr>
         in case err of
           Some e \<Rightarrow> (Some (Wrapf ''starting DNS server'' e), s1, w')
         | None \<Rightarrow> (None, s1\<lparr>DNSAddr := dns_Addr (ae_dns ae) socks\<rparr>, w'))
      else (None, s, w))"

definition start_socks ::
  "('hl, 'u, 't, 'sl, 'l, 'c, 'st, 'tr, 'h, 'o, 'rc, 'cs, 'w) app_env \<Rightarrow>
   ('hl, 'u, 't, 'sl, 'l, 'c, 'h, 'o, 'rc, 'cs) app_server \<Rightarrow> 'w \<Rightarrow>
   goerr option \<times> ('hl, 'u, 't, 'sl, 'l, 'c, 'h, 'o, 'rc, 'cs) app_server \<times> 'w" where
  "start_socks ae s w =
     (if enableSocks s then
        (case NewSOCKS5Proxy (ae_socks5New ae) (SOCKSListen (as_cfg s)) (ClusterDomain (as_cfg s)) of
           Inl err \<Rightarrow> (Some (Wrapf ''creating SOCKS5 proxy'' err), s, w)
         | Inr p \<Rightarrow>
             (let (err, ln, w') = socks_Start (ae_socks ae) p None w; s1 = s\<lparr>socks5 := Some (p, ln)\<rparr>
              in case err of
                Some e \<Rightarrow> (Some (Wrapf ''starting SOCKS5 proxy'' e), s1, w')
              | None \<Rightarrow> (None, s1\<lparr>SOCKSAddr := socks_Addr (ae_socks ae) ln\<rparr>, w')))
      else (None, s, w))"

definition app_Start ::
  "('hl, 'u, 't, 'sl, 'l, 'c, 'st, 'tr, 'h, 'o, 'rc, 'cs, 'w) app_env \<Rightarrow> 'h \<Rightarrow>
   ('hl, 'u, 't, 'sl, 'l, 'c, 'h, 'o, 'rc, 'cs) app_server \<Rightarrow> 'w \<Rightarrow>
   goerr option \<times> ('hl, 'u, 't, 'sl, 'l, 'c, 'h, 'o, 'rc, 'cs) app_server \<times> 'w" where
  "app_Start ae h s w =
     (case ResolveIface (ae_net ae) (Interface (as_cfg s)) of
        Inl err \<Rightarrow> (Some (Wrapf (''resolving INTERFACE \"'' @ Interface (as_cfg s) @ ''\"'') err), s, w)
      | Inr (_, ifaceName) \<Rightarrow>
          (case start_http ae s w of
             (Some e, s1, w1) \<Rightarrow> (Some e, s1, w1)
           | (None, s1, w1) \<Rightarrow>
               (case start_managers ae ifaceName h s1 of
                  (Some e, s2) \<Rightarrow> (Some e, s2, w1)
                | (None, s2) \<Rightarrow>
                    (case start_dns ae s2 w1 of
                       (Some e, s3, w3) \<Rightarrow> (Some e, s3, w3)
                     | (None, s3, w3) \<Rightarrow>
                         (case start_socks ae s3 w3 of
                            (Some e, s4, w4) \<Rightarrow> (Some e, s4, w4)
                          | (None, s4, w4) \<Rightarrow> (None, s4\<lparr>as_health := SetReady (as_health s4)\<rparr>, w4))))))"

text \<open>
  Stop: first the servers, then the forward manager, then the addresses; \<open>ks\<close>, \<open>ps\<close>, \<open>vs\<close> and \<open>vs'\<close>
  are the orders of the loops over the tables of the forward manager and of the allocator.
\<close>

definition stop_servers ::
  "('hl, 'u, 't, 'sl, 'l, 'c, 'st, 'tr, 'h, 'o, 'rc, 'cs, 'w) app_env \<Rightarrow>
   ('hl, 'u, 't, 'sl, 'l, 'c, 'h, 'o, 'rc, 'cs) app_server \<Rightarrow> 'w \<Rightarrow>
   ('hl, 'u, 't, 'sl, 'l, 'c, 'h, 'o, 'rc, 'cs) app_server \<times> 'w" where
  "stop_servers ae s w =
     (let w1 = (case httpSrv s of None \<Rightarrow> w | Some l \<Rightarrow> ae_httpShutdown ae l w);
          (s2, w2) = (case socks5 s of
             None \<Rightarrow> (s, w1)
           | Some (p, ln) \<Rightarrow> (let (ln', w') = socks_Shutdown (ae_socks ae) ln w1 in (s\<lparr>socks5 := Some (p, ln')\<rparr>, w')))
      in (s2, case dnsServer s2 of None \<Rightarrow> w2 | Some (_, socks) \<Rightarrow> dns_Shutdown (ae_dns ae) socks w2))"

definition stop_forward ::
  "('hl, 'u, 't, 'sl, 'l, 'c, 'st, 'tr, 'h, 'o, 'rc, 'cs, 'w) app_env \<Rightarrow> forwardKey list \<Rightarrow> spdyKey list \<Rightarrow>
   ('hl, 'u, 't, 'sl, 'l, 'c, 'h, 'o, 'rc, 'cs) app_server \<Rightarrow> 'w \<Rightarrow>
   ('hl, 'u, 't, 'sl, 'l, 'c, 'h, 'o, 'rc, 'cs) app_server \<times> 'w" where
  "stop_forward ae ks ps s w =
     (case as_forward s of
        None \<Rightarrow> (s, w)
      | Some (m, p) \<Rightarrow>
          (let (m', p', w') = Shutdown (ae_io ae) (ae_spdy ae) (ae_ord ae) ks ps m p w
           in (s\<lparr>as_forward := Some (m', p')\<rparr>, w')))"

definition app_Stop ::
  "('hl, 'u, 't, 'sl, 'l, 'c, 'st, 'tr, 'h, 'o, 'rc, 'cs, 'w) app_env \<Rightarrow>
   forwardKey list \<Rightarrow> spdyKey list \<Rightarrow> string list \<Rightarrow> string list \<Rightarrow>
   ('hl, 'u, 't, 'sl, 'l, 'c, 'h, 'o, 'rc, 'cs) app_server \<Rightarrow> 'w \<Rightarrow> 'h \<Rightarrow>
   goerr option \<times> ('hl, 'u, 't, 'sl, 'l, 'c, 'h, 'o, 'rc, 'cs) app_server \<times> 'w \<times> 'h" where
  "app_Stop ae ks ps vs vs' s w h =
     (let (s1, w1) = stop_servers ae s w; (s2, w2) = stop_forward ae ks ps s1 w1
      in case as_allocator s2 of
        None \<Rightarrow> (None, s2, w2, h)
      | Some a \<Rightarrow>
          (case Cleanup vs vs' a h of
             (Some err, h') \<Rightarrow> (Some (Wrapf ''VIP cleanup'' err), s2, w2, h')
           | (None, h') \<Rightarrow> (None, s2, w2, h')))"

subsection \<open>The main program\<close>

datatype zapLevel = DebugLevel | InfoLevel | WarnLevel | ErrorLevel

definition buildLogger :: "string \<Rightarrow> zapLevel" where
  "buildLogger level =
     (if level = ''debug'' then DebugLevel
      else if level = ''warn'' then WarnLevel
      else if level = ''error'' then ErrorLevel
      else InfoLevel)"

definition main_enableDNS :: "nat \<Rightarrow> bool \<Rightarrow> bool" where
  "main_enableDNS nflag dnsFlag = (if nflag = 0 then True else dnsFlag)"

text \<open>
  The main program; \<open>running\<close> is all that happens between Start and the signal, and \<open>orders\<close> gives the
  orders of the loops of Stop on the state it finds.
\<close>

datatype exit = ConfigError goerr | StartError goerr | Stopped "goerr option"

definition main_program ::
  "(string \<Rightarrow> string) \<Rightarrow> (string \<Rightarrow> goerr + int) \<Rightarrow> (string \<rightharpoonup> string) \<Rightarrow> nat \<Rightarrow> bool \<Rightarrow> bool \<Rightarrow>
   ('hl, 'u, 't, 'sl, 'l, 'c, 'st, 'tr, 'h, 'o, 'rc, 'cs, 'w) app_env \<Rightarrow>
   (('hl, 'u, 't, 'sl, 'l, 'c, 'h, 'o, 'rc, 'cs) app_server \<times> 'w \<times> 'h \<Rightarrow>
    ('hl, 'u, 't, 'sl, 'l, 'c, 'h, 'o, 'rc, 'cs) app_server \<times> 'w \<times> 'h) \<Rightarrow>
   (('hl, 'u, 't, 'sl, 'l, 'c, 'h, 'o, 'rc, 'cs) app_server \<Rightarrow>
    forwardKey list \<times> spdyKey list \<times> string list \<times> string list) \<Rightarrow> 'w \<Rightarrow> 'h \<Rightarrow> exit \<times> 'w \<times> 'h" where
  "main_program unicodeLower parseDuration env nflag dnsFlag socksFlag ae running orders w h =
     (case NewConfigFromEnvironment unicodeLower parseDuration env of
        Inl err \<Rightarrow> (ConfigError err, w, h)
      | Inr cfg \<Rightarrow>
          (case app_Start ae h (app_NewServer cfg (main_enableDNS nflag dnsFlag) socksFlag) w of
             (Some err, s, w1) \<Rightarrow> (StartError err, w1, h)
           | (None, s, w1) \<Rightarrow>
               (let (s2, w2, h2) = running (s, w1, h);
                    (ks, ps, vs, vs') = orders s2;
                    (err, s3, w3, h3) = app_Stop ae ks ps vs vs' s2 w2 h2
                in (Stopped err, w3, h3))))"

subsection \<open>Lemmas\<close>

lemma health_simps [simp]: "ready health_AddToMux = False" "ready (SetReady x) = True"
  by (simp_all add: health_AddToMux_def SetReady_def)

lemma start_http_cases:
  assumes "start_http ae s w = (err, s', w')"
  shows "\<not> ready (as_health s')" "as_cfg s' = as_cfg s" "enableDNS s' = enableDNS s" "enableSocks s' = enableSocks s"
    "DNSAddr s' = DNSAddr s" "SOCKSAddr s' = SOCKSAddr s" "dnsServer s' = dnsServer s" "socks5 s' = socks5 s"
    "err = None \<Longrightarrow> \<exists>ln. httpSrv s' = Some ln \<and> HTTPAddr s' = ae_addr ae ln"
  using assms by (auto simp: start_http_def Let_def split: sum.splits prod.splits)

lemma start_managers_cases:
  assumes "start_managers ae i h s = (err, s')"
  shows "as_health s' = as_health s" "enableDNS s' = enableDNS s" "enableSocks s' = enableSocks s"
    "httpSrv s' = httpSrv s" "HTTPAddr s' = HTTPAddr s"
    "DNSAddr s' = DNSAddr s" "SOCKSAddr s' = SOCKSAddr s" "dnsServer s' = dnsServer s" "socks5 s' = socks5 s"
    "err = None \<Longrightarrow> \<exists>cm a fm. k8sManager s' = Some cm \<and> as_allocator s' = Some a \<and> alloc_inv a \<and>
       as_forward s' = Some fm \<and> as_kubeconfig s' = SetManagers cm fm (as_kubeconfig s)"
  using assms NewAllocator_inv
  by (auto simp: start_managers_def Let_def split: sum.splits) blast

definition dns_up ::
  "('u, 't, 'w) dns_net \<Rightarrow> ('hl, 'u, 't, 'sl, 'l, 'c, 'h, 'o, 'rc, 'cs) app_server \<Rightarrow> bool" where
  "dns_up net s \<longleftrightarrow> (\<exists>srv u t. dnsServer s = Some (srv, \<lparr>udpConn = Some u, tcpListener = Some t\<rparr>) \<and> DNSAddr s = LocalAddr net u)"

definition socks_up ::
  "('sl, 'w) socks_net \<Rightarrow> ('hl, 'u, 't, 'sl, 'l, 'c, 'h, 'o, 'rc, 'cs) app_server \<Rightarrow> bool" where
  "socks_up net s \<longleftrightarrow> (\<exists>p ln. socks5 s = Some (p, Some ln) \<and> SOCKSAddr s = sn_Addr net ln)"

lemma start_dns_cases:
  assumes "start_dns ae s w = (err, s', w')"
  shows "as_health s' = as_health s" "enableSocks s' = enableSocks s" "httpSrv s' = httpSrv s" "HTTPAddr s' = HTTPAddr s"
    "k8sManager s' = k8sManager s" "as_allocator s' = as_allocator s" "as_forward s' = as_forward s"
    "as_kubeconfig s' = as_kubeconfig s" "SOCKSAddr s' = SOCKSAddr s" "socks5 s' = socks5 s"
    "err = None \<Longrightarrow> enableDNS s \<Longrightarrow> dns_up (ae_dns ae) s'"
    "\<not> enableDNS s \<Longrightarrow> dnsServer s' = dnsServer s \<and> DNSAddr s' = DNSAddr s"
  using assms
  by (auto simp: start_dns_def dns_Start_def dns_Addr_def dns_up_def Let_def
      split: sum.splits prod.splits option.splits if_splits)

lemma start_socks_cases:
  assumes "start_socks ae s w = (err, s', w')"
  shows "as_health s' = as_health s" "httpSrv s' = httpSrv s" "HTTPAddr s' = HTTPAddr s"
    "k8sManager s' = k8sManager s" "as_allocator s' = as_allocator s" "as_forward s' = as_forward s"
    "as_kubeconfig s' = as_kubeconfig s" "dnsServer s' = dnsServer s" "DNSAddr s' = DNSAddr s"
    "err = None \<Longrightarrow> enableSocks s \<Longrightarrow> socks_up (ae_socks ae) s'"
    "\<not> enableSocks s \<Longrightarrow> socks5 s' = socks5 s \<and> SOCKSAddr s' = SOCKSAddr s"
  using assms
  by (auto simp: start_socks_def socks_Start_def socks_Addr_def socks_up_def Let_def
      split: sum.splits prod.splits option.splits if_splits)

subsection \<open>Sockets\<close>

text \<open>
  The sockets the process keeps open: the listening sockets of the HTTP, DNS and SOCKS5 servers, those
  of the forward manager, and the pooled SPDY connections. \<open>held s\<close> are the ones the server knows of.
  A DNS server that was started has both of its sockets; \<^verbatim>\<open>Shutdown\<close> closes nothing if one is missing.
\<close>

datatype ('hl, 'u, 't, 'sl, 'l, 'c) app_sock =
  HttpSock 'hl | UdpSock 'u | TcpSock 't | SocksSock 'sl | FwdSock 'l | SpdySock 'c

definition server_socks ::
  "('hl, 'u, 't, 'sl, 'l, 'c, 'h, 'o, 'rc, 'cs) app_server \<Rightarrow> ('hl, 'u, 't, 'sl, 'l, 'c) app_sock set" where
  "server_socks s = {HttpSock x | x. httpSrv s = Some x} \<union>
     {UdpSock x | srv socks x. dnsServer s = Some (srv, socks) \<and> udpConn socks = Some x} \<union>
     {TcpSock x | srv socks x. dnsServer s = Some (srv, socks) \<and> tcpListener socks = Some x} \<union>
     {SocksSock x | p x. socks5 s = Some (p, Some x)}"

definition held ::
  "('hl, 'u, 't, 'sl, 'l, 'c, 'h, 'o, 'rc, 'cs) app_server \<Rightarrow> ('hl, 'u, 't, 'sl, 'l, 'c) app_sock set" where
  "held s = server_socks s \<union>
     {FwdSock (listener e) | m p key e. as_forward s = Some (m, p) \<and> entries m key = Some e} \<union>
     {SpdySock c | m p key c. as_forward s = Some (m, p) \<and> pool_conn p key = Some c}"

definition dns_whole :: "('hl, 'u, 't, 'sl, 'l, 'c, 'h, 'o, 'rc, 'cs) app_server \<Rightarrow> bool" where
  "dns_whole s \<longleftrightarrow> (\<forall>srv socks. dnsServer s = Some (srv, socks) \<longrightarrow> (udpConn socks = None \<longleftrightarrow> tcpListener socks = None))"

locale app_sockets =
  fixes ae :: "('hl, 'u, 't, 'sl, 'l, 'c, 'st, 'tr, 'h, 'o, 'rc, 'cs, 'w) app_env"
    and live :: "'w \<Rightarrow> ('hl, 'u, 't, 'sl, 'l, 'c) app_sock set"
  assumes http_closes: "live (ae_httpShutdown ae hl w) = live w - {HttpSock hl}"
    and udp_closes: "live (Server_Shutdown_udp (ae_dns ae) u w) = live w - {UdpSock u}"
    and tcp_closes: "live (Server_Shutdown_tcp (ae_dns ae) t w) = live w - {TcpSock t}"
    and socks_closes: "live (sn_Close (ae_socks ae) sl w) = live w - {SocksSock sl}"
    and forward_closes: "live (Listener_Close (ae_io ae) l w) = live w - {FwdSock l}"
    and spdy_closes: "live (Conn_Close (ae_spdy ae) c w) = live w - {SpdySock c}"

sublocale app_sockets \<subseteq> fw: sockets "ae_io ae" "ae_spdy ae" live FwdSock SpdySock
  by (unfold_locales, rule forward_closes, rule spdy_closes)

context app_sockets
begin

lemma stop_servers_live:
  assumes "stop_servers ae s w = (s', w')" "dns_whole s"
  shows "live w' = live w - server_socks s"
proof -
  define w1 where "w1 = (case httpSrv s of None \<Rightarrow> w | Some l \<Rightarrow> ae_httpShutdown ae l w)"
  define w2 where "w2 = (case socks5 s of Some (p, Some l) \<Rightarrow> sn_Close (ae_socks ae) l w1 | _ \<Rightarrow> w1)"
  have w': "w' = (case dnsServer s of None \<Rightarrow> w2 | Some (_, socks) \<Rightarrow> dns_Shutdown (ae_dns ae) socks w2)"
    using assms(1) by (auto simp: stop_servers_def w1_def w2_def socks_Shutdown_def split: option.splits prod.splits)
  have "live w1 = live w - {HttpSock x | x. httpSrv s = Some x}"
    by (auto simp: w1_def http_closes split: option.splits)
  moreover have "live w2 = live w1 - {SocksSock x | p x. socks5 s = Some (p, Some x)}"
    by (auto simp: w2_def socks_closes split: option.splits)
  moreover have "live w' = live w2 -
      {UdpSock x | srv socks x. dnsServer s = Some (srv, socks) \<and> udpConn socks = Some x} -
      {TcpSock x | srv socks x. dnsServer s = Some (srv, socks) \<and> tcpListener socks = Some x}"
    using assms(2)
    by (auto simp: w' dns_whole_def dns_Shutdown_def udp_closes tcp_closes split: option.splits)
  ultimately show ?thesis by (auto simp: server_socks_def)
qed

lemma stop_forward_live:
  assumes "stop_forward ae ks ps s w = (s', w')" "as_forward s = Some (m, p)"
    and "range_of ks (entries m)" "range_of ps (spdyPool p)"
  shows "live w' = live w - {FwdSock (listener e) | key e. entries m key = Some e} -
    {SpdySock c | key c. pool_conn p key = Some c}"
proof -
  obtain m' p' where "Shutdown (ae_io ae) (ae_spdy ae) (ae_ord ae) ks ps m p w = (m', p', w')"
    using assms(1,2) by (auto simp: stop_forward_def split: prod.splits)
  note live = fw.Shutdown_live [OF assms(3,4) this]
  show ?thesis unfolding live by (rule arg_cong2 [where f = minus]) (auto simp: listeners_of_def conns_of_def)
qed

lemma app_Stop_live:
  assumes "app_Stop ae ks ps vs vs' s w h = (err, s', w', h')" "dns_whole s" "as_forward s = Some (m, p)"
    and "range_of ks (entries m)" "range_of ps (spdyPool p)"
  shows "live w' = live w - held s"
proof -
  obtain s1 w1 where s1: "stop_servers ae s w = (s1, w1)" by fastforce
  obtain s2 w2 where s2: "stop_forward ae ks ps s1 w1 = (s2, w2)" by fastforce
  have "as_forward s1 = Some (m, p)"
    using s1 assms(3) by (auto simp: stop_servers_def Let_def split: option.splits prod.splits)
  note stop_servers_live [OF s1 assms(2)] stop_forward_live [OF s2 this assms(4,5)]
  moreover have "w' = w2" using assms(1) s1 s2 by (auto simp: app_Stop_def split: option.splits prod.splits)
  moreover have "held s = server_socks s \<union> {FwdSock (listener e) | key e. entries m key = Some e} \<union>
      {SpdySock c | key c. pool_conn p key = Some c}" by (auto simp: held_def assms(3))
  ultimately show ?thesis by (simp only:) blast
qed

end

subsection \<open>A host\<close>

text \<open>The world of this host records what was closed.\<close>

definition shut :: "string \<Rightarrow> nat \<Rightarrow> tworld \<Rightarrow> tworld" where
  "shut tag x w = w\<lparr>tw_shut := (tag, x) # tw_shut w\<rparr>"

definition demo_ae :: "(nat, nat, nat, nat, nat, nat, nat, unit, host, nat, string, string, tworld) app_env" where
  "demo_ae = \<lparr>ae_net = \<lparr>net_Interfaces = Inr [],
       net_InterfaceByName = (\<lambda>n. Inr \<lparr>if_Name = n, if_Addrs = Inr [IPNet [127, 0, 0, 1] (8, 32)]\<rparr>)\<rparr>,
     ae_listen = (\<lambda>a w. (Inr 7, w)), ae_addr = (\<lambda>_. ''127.0.0.1:8080''), ae_httpShutdown = shut ''http'',
     ae_clientgo = demo_env, ae_ord = by_name, ae_file = Inr (demo_cfg ''east'' 1), ae_netlink = host_netlink,
     ae_dns = \<lparr>ListenPacket = (\<lambda>a w. (Inr 8, w)), ListenTCP = (\<lambda>a w. (Inr 9, w)), PacketConn_Close = (\<lambda>_ w. w),
       LocalAddr = (\<lambda>_. ''127.0.0.1:53''), Server_Shutdown_udp = shut ''udp'', Server_Shutdown_tcp = shut ''tcp''\<rparr>,
     ae_early = None, ae_socks5New = None,
     ae_socks = \<lparr>sn_Listen = (\<lambda>a w. (Inr 10, w)), sn_Addr = (\<lambda>_. ''127.0.0.1:1080''), sn_Close = shut ''socks''\<rparr>,
     ae_io = tw_io, ae_spdy = demo_spdy\<rparr>"

primrec sock_tag :: "(nat, nat, nat, nat, nat, nat) app_sock \<Rightarrow> string \<times> nat" where
  "sock_tag (HttpSock x) = (''http'', x)"
| "sock_tag (UdpSock x) = (''udp'', x)"
| "sock_tag (TcpSock x) = (''tcp'', x)"
| "sock_tag (SocksSock x) = (''socks'', x)"
| "sock_tag (FwdSock x) = (''forward'', x)"
| "sock_tag (SpdySock x) = (''spdy'', x)"

definition app_live :: "tworld \<Rightarrow> (nat, nat, nat, nat, nat, nat) app_sock set" where
  "app_live w = {x. sock_tag x \<in> tw_live w}"

lemma sock_tag_inj: "sock_tag x = sock_tag y \<longleftrightarrow> x = y"
  by (cases x; cases y) auto

lemma tw_live_closed:
  "tw_live (shut tag x w) = tw_live w - {(tag, x)}" "tw_live (Listener_Close tw_io x w) = tw_live w - {(''forward'', x)}"
  "tw_live (Conn_Close demo_spdy x w) = tw_live w - {(''spdy'', x)}"
  using demo_socks.listener_closes demo_socks.conn_closes by (auto simp: tw_live_def shut_def)

lemma app_live_minus: "tw_live w' = tw_live w - {sock_tag x} \<Longrightarrow> app_live w' = app_live w - {x}"
  by (auto simp: app_live_def sock_tag_inj)

interpretation demo_app: app_sockets demo_ae app_live
  by unfold_locales (rule app_live_minus, simp add: demo_ae_def tw_live_closed)+

definition demo_config :: config where
  "demo_config = \<lparr>Interface = ''lo'', VIPCIDR = cidr4 [10, 0, 0, 0] 29, ClusterDomain = ''svc.cluster.local'',
     LogLevel = ''info'', HTTPListen = ''127.0.0.1:8080'', DNSListen = ''127.0.0.1:53'', SOCKSListen = ''127.0.0.1:0'',
     VIPIdleTimeout = 10\<rparr>"

definition demo_running :: "(nat, nat, nat, nat, nat, nat, host, nat, string, string) app_server" where
  "demo_running = (app_NewServer demo_config True False)\<lparr>as_allocator := Some (fst (snd run0)),
     as_forward := Some (demo_fm, sys_pool sys1), httpSrv := Some 7\<rparr>"

subsection \<open>Properties\<close>

text \<open>
  C14: the process is ready when, and only when, everything is up. After Start the readiness
  probe answers 200 exactly if Start returned no error; then the HTTP endpoint is bound, the
  client manager, an allocator in its initial invariant and the forward manager exist, the
  kubeconfig endpoint has got these managers, and the DNS server and the SOCKS5 proxy are
  listening, on the addresses they report, exactly if they are enabled.
\<close>

theorem ready_iff_started:
  assumes "s0 = app_NewServer cfg dns socks" "app_Start ae h s0 w = (err, s', w')"
  shows "(status (handleReadiness (as_health s')) = 200 \<longleftrightarrow> err = None) \<and>
    (err = None \<longrightarrow>
       (\<exists>ln. httpSrv s' = Some ln \<and> HTTPAddr s' = ae_addr ae ln) \<and>
       (\<exists>cm a fm. k8sManager s' = Some cm \<and> as_allocator s' = Some a \<and> alloc_inv a \<and> as_forward s' = Some fm \<and>
          as_kubeconfig s' = SetManagers cm fm AddToMux) \<and>
       (if dns then dns_up (ae_dns ae) s' else dnsServer s' = None \<and> DNSAddr s' = '''') \<and>
       (if socks then socks_up (ae_socks ae) s' else socks5 s' = None \<and> SOCKSAddr s' = ''''))"
proof (cases "ResolveIface (ae_net ae) (Interface cfg)")
  case (Inl e)
  with assms show ?thesis by (auto simp: app_Start_def app_NewServer_def handleReadiness_def)
next
  case (Inr x)
  obtain a i where x: "x = (a, i)" by (cases x)
  obtain e1 s1 w1 where 1: "start_http ae s0 w = (e1, s1, w1)" by (metis prod_cases3)
  obtain e2 s2 where 2: "start_managers ae i h s1 = (e2, s2)" by fastforce
  obtain e3 s3 w3 where 3: "start_dns ae s2 w1 = (e3, s3, w3)" by (metis prod_cases3)
  obtain e4 s4 w4 where 4: "start_socks ae s3 w3 = (e4, s4, w4)" by (metis prod_cases3)
  note c1 = start_http_cases [OF 1] and c2 = start_managers_cases [OF 2]
    and c3 = start_dns_cases [OF 3] and c4 = start_socks_cases [OF 4]
  have iface: "ResolveIface (ae_net ae) (Interface (as_cfg s0)) = Inr (a, i)" using Inr x assms(1) by (simp add: app_NewServer_def)
  have kub: "e1 = None \<Longrightarrow> as_kubeconfig s1 = AddToMux"
    using 1 by (auto simp: start_http_def Let_def split: sum.splits prod.splits)
  show ?thesis
  proof (cases "err = None")
    case True
    have e: "e1 = None" "e2 = None" "e3 = None" "e4 = None" and s': "s' = s4\<lparr>as_health := SetReady (as_health s4)\<rparr>"
      using assms(2) True iface 1 2 3 4 by (auto simp: app_Start_def split: option.splits)
    have "enableDNS s2 = dns" "enableSocks s3 = socks" "dnsServer s2 = None" "DNSAddr s2 = ''''" "socks5 s3 = None"
      "SOCKSAddr s3 = ''''" using c1 c2 c3 assms(1) by (simp_all add: app_NewServer_def)
    then have "if dns then dns_up (ae_dns ae) s' else dnsServer s' = None \<and> DNSAddr s' = ''''"
      "if socks then socks_up (ae_socks ae) s' else socks5 s' = None \<and> SOCKSAddr s' = ''''"
      using c3(11,12) c4 e by (auto simp: s' dns_up_def socks_up_def)
    moreover have "\<exists>ln. httpSrv s' = Some ln \<and> HTTPAddr s' = ae_addr ae ln"
      using c1(9) c2(4,5) c3(3,4) c4(2,3) e by (simp add: s')
    moreover have "\<exists>cm a fm. k8sManager s' = Some cm \<and> as_allocator s' = Some a \<and> alloc_inv a \<and> as_forward s' = Some fm \<and>
          as_kubeconfig s' = SetManagers cm fm AddToMux"
      using c2(10) c3(5-8) c4(4-7) e kub by (simp add: s')
    moreover have "status (handleReadiness (as_health s')) = 200" by (simp add: s' handleReadiness_def)
    ultimately show ?thesis using True by blast
  next
    case False
    have "\<not> ready (as_health s')"
      using assms(2) False iface 1 2 3 4 c1(1) c2(1) c3(1) c4(1)
      by (auto simp: app_Start_def split: option.splits)
    then have "status (handleReadiness (as_health s')) \<noteq> 200" by (simp add: handleReadiness_def)
    with False show ?thesis by blast
  qed
qed

theorem ready_iff_started_witness:
  "status (handleReadiness (as_health (fst (snd (app_Start demo_ae host0 (app_NewServer demo_config True True) tw0))))) = 200"
proof -
  obtain err s' w' where run: "app_Start demo_ae host0 (app_NewServer demo_config True True) tw0 = (err, s', w')"
    by (metis prod_cases3)
  have lo: "ResolveIface (ae_net demo_ae) ''lo'' = Inr ([127, 0, 0, 1], ''lo'')"
    by (simp add: ResolveIface_def demo_ae_def ParseIP_def ParseAddr_def To4_def)
  have cm: "\<exists>cm. NewClientManager (ae_clientgo demo_ae) (ae_ord demo_ae) (ae_file demo_ae) = Inr cm"
    by (simp add: demo_ae_def NewClientManager_def rebuild_def mergedConfig_def)
  have am: "NewInterfaceAddressManager_linux (ae_netlink demo_ae) ''lo'' host0 = Inr lo_manager"
    by (simp add: demo_ae_def NewInterfaceAddressManager_linux_def host_netlink_def lo_manager_def lo_link_def)
  have "err = None"
    using run lo cm am alloc0(1)
    by (auto simp: app_Start_def start_http_def start_managers_def start_dns_def start_socks_def dns_Start_def
        socks_Start_def NewSOCKS5Proxy_def app_NewServer_def demo_config_def demo_ae_def Let_def)
  with ready_iff_started [OF refl run] run show ?thesis by simp
qed

text \<open>
  C13: Stop leaves nothing behind. Let every close call take just the socket it is called on away.
  Then Stop closes the listening sockets of the HTTP endpoint, of the DNS server (which was started
  or is missing) and of the SOCKS5 proxy, every listener of the forward manager and every pooled
  SPDY connection, and no other socket; it cancels every accept loop and forgets every listener,
  idle timer and pooled connection. On a Linux link, whose addresses are pairs of IP and prefix
  length, it deletes nothing but the /32 addresses of the VIPs and, unless it reports an error, all
  of them.
\<close>

theorem stop_leaves_nothing:
  assumes "as_forward s = Some (m, p)" "as_allocator s = Some a" "dns_whole s" "app_sockets ae live"
    and "netlink_kernel nl l addrs" "addrManager a = netlinkManager nl l" "alloc_inv a"
    and "range_of ks (entries m)" "range_of ps (spdyPool p)" "range_of vs (assigned a)" "range_of vs' (assigned a)"
    and "app_Stop ae ks ps vs vs' s w h = (err, s', w', h')"
  shows "live w' = live w - held s \<and>
    (\<exists>m' p'. as_forward s' = Some (m', p') \<and> entries m' = Map.empty \<and> vipStates m' = Map.empty \<and>
       spdyPool p' = Map.empty \<and> (\<forall>e \<in> ran (entries m). cancel e \<in> cancelled m')) \<and>
    addrs h - ran (Lookup a) \<times> {32} \<subseteq> addrs h' \<and>
    (err = None \<longrightarrow> addrs h' = addrs h - ran (Lookup a) \<times> {32})"
proof -
  obtain s1 w1 where s1: "stop_servers ae s w = (s1, w1)" by fastforce
  then have fw: "as_forward s1 = as_forward s" "as_allocator s1 = as_allocator s"
    by (auto simp: stop_servers_def Let_def split: option.splits prod.splits)
  obtain m' p' w2 where sh: "Shutdown (ae_io ae) (ae_spdy ae) (ae_ord ae) ks ps m p w1 = (m', p', w2)"
    by (metis prod_cases3)
  obtain r h1 where cl: "Cleanup vs vs' a h = (r, h1)" by fastforce
  have "as_forward s' = Some (m', p')" "h' = h1" "err = None \<longleftrightarrow> r = None"
    using assms(1,2,12) s1 fw sh cl by (auto simp: app_Stop_def stop_forward_def split: option.splits)
  with Shutdown_effect [OF assms(8,9) sh] cleanup_clears_link [OF assms(5-7,10,11) cl]
    app_sockets.app_Stop_live [OF assms(4,12,3,1,8,9)]
  show ?thesis by auto
qed

theorem stop_leaves_nothing_witness:
  "\<exists>err s' w' h'. app_Stop demo_ae [key_of ''east''] [demo_key] [''web/prod''] [''web/prod''] demo_running
     tw0 (snd (snd run0)) = (err, s', w', h') \<and> map_option (entries \<circ> fst) (as_forward s') = Some Map.empty \<and>
     HttpSock 7 \<notin> app_live w' \<and> SpdySock 0 \<notin> app_live w' \<and> ([127, 0, 0, 1], 8) \<in> host_set h'"
proof -
  obtain err s' w' h' where run: "app_Stop demo_ae [key_of ''east''] [demo_key] [''web/prod''] [''web/prod''] demo_running
     tw0 (snd (snd run0)) = (err, s', w', h')" by (metis prod_cases4)
  have inv: "alloc_inv (fst (snd run0))" and man: "addrManager (fst (snd run0)) = netlinkManager host_netlink lo_link"
    using vip_run_new [OF alloc0(1) run0(1)] by (simp_all add: lo_manager_def)
  have ranges: "range_of [key_of ''east''] (entries demo_fm)" "range_of [demo_key] (spdyPool (sys_pool sys1))"
    "range_of [''web/prod''] (assigned (fst (snd run0)))"
    by (simp_all add: range_of_def demo_fm_def sys1_def pool1_def run0_def alloc0_run)
  have s: "as_forward demo_running = Some (demo_fm, sys_pool sys1)" "as_allocator demo_running = Some (fst (snd run0))"
    "dns_whole demo_running" by (simp_all add: demo_running_def dns_whole_def app_NewServer_def)
  have "HttpSock 7 \<in> held demo_running" "SpdySock 0 \<in> held demo_running"
    by (auto simp: held_def server_socks_def demo_running_def pool_conn_def sys1_def pool1_def entry_at_def)
  moreover have "([127, 0, 0, 1], 8) \<in> host_set (snd (snd run0))"
    by (simp add: run0_def alloc0_run host_set_def)
  moreover note stop_leaves_nothing [OF s demo_app.app_sockets_axioms linux.netlink_kernel_axioms man inv
      ranges(1,2,3,3) run]
  ultimately have "map_option (entries \<circ> fst) (as_forward s') = Some Map.empty"
    "HttpSock 7 \<notin> app_live w'" "SpdySock 0 \<notin> app_live w'" "([127, 0, 0, 1], 8) \<in> host_set h'"
    by auto
  with run show ?thesis by blast
qed

text \<open>What Start has started is such a server: both sockets of the DNS server are there, or none.\<close>

lemma started_dns_whole:
  assumes "app_Start ae h (app_NewServer cfg dns socks) w = (None, s', w')"
  shows "dns_whole s'"
proof -
  have "\<And>s w s' w'. start_dns ae s w = (None, s', w') \<Longrightarrow> dnsServer s = None \<Longrightarrow> dns_whole s'"
    by (auto simp: start_dns_def dns_Start_def dns_whole_def Let_def split: sum.splits prod.splits option.splits if_splits)
  moreover obtain e1 s1 w1 where 1: "start_http ae (app_NewServer cfg dns socks) w = (e1, s1, w1)" by (metis prod_cases3)
  moreover obtain i where i: "\<exists>a. ResolveIface (ae_net ae) (Interface cfg) = Inr (a, i)"
    using assms by (auto simp: app_Start_def app_NewServer_def split: sum.splits)
  moreover obtain e2 s2 where 2: "start_managers ae i h s1 = (e2, s2)" by fastforce
  moreover obtain e3 s3 w3 where 3: "start_dns ae s2 w1 = (e3, s3, w3)" by (metis prod_cases3)
  moreover obtain e4 s4 w4 where 4: "start_socks ae s3 w3 = (e4, s4, w4)" by (metis prod_cases3)
  ultimately have "e3 = None" "s' = s4\<lparr>as_health := SetReady (as_health s4)\<rparr>"
    using assms by (auto simp: app_Start_def app_NewServer_def split: option.splits)
  moreover have "dnsServer s2 = None"
    using start_http_cases(7) [OF 1] start_managers_cases(8) [OF 2] by (simp add: app_NewServer_def)
  ultimately show ?thesis
    using \<open>\<And>s w s' w'. start_dns ae s w = (None, s', w') \<Longrightarrow> dnsServer s = None \<Longrightarrow> dns_whole s'\<close> 3
      start_socks_cases(8) [OF 4] by (simp add: dns_whole_def)
qed

end
