(* ===== verification/Tunnel_System.thy ===== *)
theory Tunnel_System
  imports Dns_Server
begin

text \<open>
  The DNS server, the allocator and the forward manager at work together, as the goroutines of one
  process interleave them: any number of DNS questions are being resolved
  (\<^verbatim>\<open>resolveForContext\<close> of \<^verbatim>\<open>internal/dns/server.go\<close> and the \<^verbatim>\<open>StartForward\<close> it calls), accept
  loops take connections, timers fire and expire addresses, contexts are shut down.

  A question in flight is a task: the service it asks for and how far its goroutine has come.
  \<open>p_step\<close> performs one critical section of one goroutine at a time. What the resolver answers is
  left open, so a step covers every state of the cluster and of the cache. The accept loops keep
  the arguments they were started with, which say where a connection is tunnelled to. The sets
  \<open>p_granted\<close>, \<open>p_answers\<close> and \<open>p_dials\<close> record what has happened and influence nothing: the
  addresses the allocator has returned for a service, those a client was answered with, and the
  tunnels that were asked for behind an address and port.

  \<open>fm_view\<close> is the part of the state that the interleavings of the forward manager speak of: every
  run of the process is such a run (\<open>view_reachable\<close>), and the resolution of a name as the DNS
  server performs it is a run of the process (\<open>resolveA_runs\<close>). The properties are stated for
  every run; the section on races shows runs in which the separate steps go wrong together.
\<close>

record query =
  q_contextName :: string
  q_namespace :: string
  q_svcName :: string
  q_podName :: string

definition query_key :: "query \<Rightarrow> string" where
  "query_key q = vip_key (q_contextName q) (q_namespace q) (q_svcName q) (q_podName q)"

definition fwd_key :: "query \<Rightarrow> ip \<Rightarrow> int32 \<Rightarrow> forwardKey" where
  "fwd_key q v port = \<lparr>fk_contextName = q_contextName q, fk_vipAddr = IP_String v, fk_svcPort = port\<rparr>"

text \<open>
  How far a goroutine has come: before the lookup; the key had a VIP; it had none; the VIP is
  allocated and the ports are still to be started; a port was found without a listener; its listener is
  bound and not yet committed.
\<close>

datatype 'l stage =
    Asked
  | Hit ip
  | Missed
  | Starting ip "int32 list"
  | Listening ip int32 "int32 list"
  | Committing ip int32 "int32 list" "'l forwardEntry"

record 'l loop =
  lp_key :: forwardKey
  lp_entry :: "'l forwardEntry"
  lp_query :: query

record ('l, 'w, 'h) process =
  p_fm :: "'l forwardManager"
  p_vips :: "'h allocator \<times> 'h"
  p_world :: 'w
  p_now :: int
  p_tasks :: "(query \<times> 'l stage) multiset"
  p_loops :: "'l loop multiset"
  p_entering :: "(nat \<times> string) multiset"
  p_serving :: "(nat \<times> string) multiset"
  p_fired :: "(string \<times> uint64) multiset"
  p_releasing :: "string multiset"
  p_granted :: "(ip \<times> query) set"
  p_answers :: "(query \<times> ip) set"
  p_dials :: "(string \<times> int32 \<times> query) set"

definition move ::
  "query \<times> 'l stage \<Rightarrow> 'l stage \<Rightarrow> ('l, 'w, 'h) process \<Rightarrow> ('l, 'w, 'h) process" where
  "move t st p = p\<lparr>p_tasks := add_mset (fst t, st) (p_tasks p - {#t#})\<rparr>"

definition finish :: "query \<times> 'l stage \<Rightarrow> ('l, 'w, 'h) process \<Rightarrow> ('l, 'w, 'h) process" where
  "finish t p = p\<lparr>p_tasks := p_tasks p - {#t#}\<rparr>"

definition grant :: "ip \<Rightarrow> query \<Rightarrow> ('l, 'w, 'h) process \<Rightarrow> ('l, 'w, 'h) process" where
  "grant v q p = p\<lparr>p_granted := insert (v, q) (p_granted p)\<rparr>"

definition reply :: "query \<Rightarrow> ip \<Rightarrow> ('l, 'w, 'h) process \<Rightarrow> ('l, 'w, 'h) process" where
  "reply q v p = p\<lparr>p_answers := insert (q, v) (p_answers p)\<rparr>"

definition p_init :: "bool \<Rightarrow> int \<Rightarrow> ('l, 'w, 'h) process \<Rightarrow> bool" where
  "p_init rel idle p \<longleftrightarrow> p_fm p = NewForwardManager rel idle \<and>
     (\<exists>am cidr. NewAllocator am cidr = Inr (fst (p_vips p))) \<and> p_tasks p = {#} \<and> p_loops p = {#} \<and>
     p_entering p = {#} \<and> p_serving p = {#} \<and> p_fired p = {#} \<and> p_releasing p = {#} \<and>
     p_granted p = {} \<and> p_answers p = {} \<and> p_dials p = {}"

text \<open>
  One step. The questions come from \<open>Q\<close> and name their context: for an empty name StartForward would
  take the current context. In \<open>time\<close> the clock advances and the rest of the machine
  does anything to the sockets and to the addresses of the interface.
\<close>

inductive p_step ::
  "('l, 'w) netio \<Rightarrow> map_order \<Rightarrow> query set \<Rightarrow> ('l, 'w, 'h) process \<Rightarrow> ('l, 'w, 'h) process \<Rightarrow> bool"
  for io :: "('l, 'w) netio" and ord :: map_order and Q :: "query set" where
  time: "p_now p \<le> t \<Longrightarrow>
    p_step io ord Q p (p\<lparr>p_now := t, p_world := w', p_vips := (fst (p_vips p), h')\<rparr>)"
| ask: "q \<in> Q \<Longrightarrow> q_contextName q \<noteq> '''' \<Longrightarrow> p_step io ord Q p (p\<lparr>p_tasks := add_mset (q, Asked) (p_tasks p)\<rparr>)"
| hit: "(q, Asked) \<in># p_tasks p \<Longrightarrow> pool_lookup (p_vips p) (query_key q) = Some v \<Longrightarrow>
    p_step io ord Q p (grant v q (move (q, Asked) (Hit v) p))"
| touched: "(q, Hit v) \<in># p_tasks p \<Longrightarrow>
    p_step io ord Q p (reply q v (finish (q, Hit v) (p\<lparr>p_fm := TouchVIP (p_now p) (IP_String v) (p_fm p)\<rparr>)))"
| miss: "(q, Asked) \<in># p_tasks p \<Longrightarrow> pool_lookup (p_vips p) (query_key q) = None \<Longrightarrow>
    p_step io ord Q p (move (q, Asked) Missed p)"
| unresolved: "(q, Missed) \<in># p_tasks p \<Longrightarrow> p_step io ord Q p (finish (q, Missed) p)"
| allocated: "(q, Missed) \<in># p_tasks p \<Longrightarrow> pool_alloc (query_key q) (p_vips p) = (Inr v, vs) \<Longrightarrow>
    p_step io ord Q p (grant v q (move (q, Missed) (Starting v ports) (p\<lparr>p_vips := vs\<rparr>)))"
| no_vip: "(q, Missed) \<in># p_tasks p \<Longrightarrow> pool_alloc (query_key q) (p_vips p) = (Inl e, vs) \<Longrightarrow>
    p_step io ord Q p (finish (q, Missed) (p\<lparr>p_vips := vs\<rparr>))"
| running: "(q, Starting v (port # ports)) \<in># p_tasks p \<Longrightarrow>
    start_check (p_now p) (fwd_key q v port) (p_fm p) = (True, m') \<Longrightarrow>
    p_step io ord Q p (move (q, Starting v (port # ports)) (Starting v ports) (p\<lparr>p_fm := m'\<rparr>))"
| missing: "(q, Starting v (port # ports)) \<in># p_tasks p \<Longrightarrow>
    start_check (p_now p) (fwd_key q v port) (p_fm p) = (False, m') \<Longrightarrow>
    p_step io ord Q p (move (q, Starting v (port # ports)) (Listening v port ports) p)"
| not_bound: "(q, Listening v port ports) \<in># p_tasks p \<Longrightarrow>
    Listen io (IP_String v @ '':'' @ dec_int (sint port)) (p_world p) = (Inl e, w') \<Longrightarrow>
    p_step io ord Q p (finish (q, Listening v port ports) (p\<lparr>p_world := w'\<rparr>))"
| bound: "(q, Listening v port ports) \<in># p_tasks p \<Longrightarrow>
    Listen io (IP_String v @ '':'' @ dec_int (sint port)) (p_world p) = (Inr ln, w') \<Longrightarrow>
    new_context (p_fm p) = (c, m') \<Longrightarrow>
    p_step io ord Q p (move (q, Listening v port ports) (Committing v port ports \<lparr>listener = ln, cancel = c\<rparr>)
      (p\<lparr>p_fm := m', p_world := w'\<rparr>))"
| committed: "(q, Committing v port ports entry) \<in># p_tasks p \<Longrightarrow>
    start_commit (p_now p) (fwd_key q v port) entry (p_fm p) = (False, m') \<Longrightarrow>
    p_step io ord Q p (move (q, Committing v port ports entry) (Starting v ports)
      (p\<lparr>p_fm := m',
         p_loops := add_mset \<lparr>lp_key = fwd_key q v port, lp_entry = entry, lp_query = q\<rparr> (p_loops p)\<rparr>))"
| raced: "(q, Committing v port ports entry) \<in># p_tasks p \<Longrightarrow>
    start_commit (p_now p) (fwd_key q v port) entry (p_fm p) = (True, m1) \<Longrightarrow>
    cancel_entry io entry m1 (p_world p) = (m', w') \<Longrightarrow>
    p_step io ord Q p (move (q, Committing v port ports entry) (Starting v ports)
      (p\<lparr>p_fm := m', p_world := w'\<rparr>))"
| started: "(q, Starting v []) \<in># p_tasks p \<Longrightarrow>
    p_step io ord Q p (reply q v (finish (q, Starting v []) p))"
| accepted: "lp \<in># p_loops p \<Longrightarrow> vip = fk_vipAddr (lp_key lp) \<Longrightarrow>
    p_step io ord Q p (p\<lparr>p_dials := insert (vip, fk_svcPort (lp_key lp), lp_query lp) (p_dials p),
      p_entering := (case conn_lookup vip (p_fm p) of
         None \<Rightarrow> p_entering p | Some a \<Rightarrow> add_mset (a, vip) (p_entering p))\<rparr>)"
| entered: "size (p_serving p) + 1 < 2 ^ 31 \<Longrightarrow> (a, vip) \<in># p_entering p \<Longrightarrow>
    p_step io ord Q p (p\<lparr>p_fm := conn_enter a (p_fm p), p_entering := p_entering p - {#(a, vip)#},
      p_serving := add_mset (a, vip) (p_serving p)\<rparr>)"
| left: "(a, vip) \<in># p_serving p \<Longrightarrow>
    p_step io ord Q p (p\<lparr>p_fm := conn_leave (p_now p) vip a (p_fm p),
      p_serving := p_serving p - {#(a, vip)#}\<rparr>)"
| fires: "armed (p_fm p) t = Some (due, vip, gen) \<Longrightarrow> due \<le> p_now p \<Longrightarrow>
    p_step io ord Q p (p\<lparr>p_fm := (p_fm p)\<lparr>armed := (armed (p_fm p))(t := None)\<rparr>,
      p_fired := add_mset (vip, gen) (p_fired p)\<rparr>)"
| expires: "(vip, gen) \<in># p_fired p \<Longrightarrow>
    expire_locked io vip gen (p_fm p) (p_world p) = (expired, m', w') \<Longrightarrow>
    p_step io ord Q p (p\<lparr>p_fm := m', p_world := w', p_fired := p_fired p - {#(vip, gen)#},
      p_releasing := (if expired then add_mset vip (p_releasing p) else p_releasing p)\<rparr>)"
| releases: "vip \<in># p_releasing p \<Longrightarrow>
    p_step io ord Q p (p\<lparr>p_vips := release_vip pool_release vip (p_vips p),
      p_releasing := p_releasing p - {#vip#}\<rparr>)"
| ctx_shutdown: "range_of ks (entries (p_fm p)) \<Longrightarrow>
    shutdown_context_locked io ord ks ctx (p_fm p) (p_world p) = (u, m', w') \<Longrightarrow>
    p_step io ord Q p (p\<lparr>p_fm := m', p_world := w',
      p_releasing := p_releasing p + (if vipReleaser m' then mset (ord (dom u)) else {#})\<rparr>)"
| all_shutdown: "range_of ks (entries (p_fm p)) \<Longrightarrow>
    shutdown_locked io ord ks (p_fm p) (p_world p) = (m', w') \<Longrightarrow>
    p_step io ord Q p (p\<lparr>p_fm := m', p_world := w'\<rparr>)"

lemma process_simps [simp]:
  "p_fm (move t st p) = p_fm p" "p_fm (finish t p) = p_fm p" "p_fm (grant v q p) = p_fm p" "p_fm (reply q v p) = p_fm p"
  "p_vips (move t st p) = p_vips p" "p_vips (finish t p) = p_vips p" "p_vips (grant v q p) = p_vips p" "p_vips (reply q v p) = p_vips p"
  "p_world (move t st p) = p_world p" "p_world (finish t p) = p_world p" "p_world (grant v q p) = p_world p" "p_world (reply q v p) = p_world p"
  "p_now (move t st p) = p_now p" "p_now (finish t p) = p_now p" "p_now (grant v q p) = p_now p" "p_now (reply q v p) = p_now p"
  "p_tasks (move t st p) = add_mset (fst t, st) (p_tasks p - {#t#})" "p_tasks (finish t p) = p_tasks p - {#t#}"
  "p_tasks (grant v q p) = p_tasks p" "p_tasks (reply q v p) = p_tasks p"
  "p_loops (move t st p) = p_loops p" "p_loops (finish t p) = p_loops p" "p_loops (grant v q p) = p_loops p" "p_loops (reply q v p) = p_loops p"
  "p_entering (move t st p) = p_entering p" "p_entering (finish t p) = p_entering p" "p_entering (grant v q p) = p_entering p" "p_entering (reply q v p) = p_entering p"
  "p_serving (move t st p) = p_serving p" "p_serving (finish t p) = p_serving p" "p_serving (grant v q p) = p_serving p" "p_serving (reply q v p) = p_serving p"
  "p_fired (move t st p) = p_fired p" "p_fired (finish t p) = p_fired p" "p_fired (grant v q p) = p_fired p" "p_fired (reply q v p) = p_fired p"
  "p_releasing (move t st p) = p_releasing p" "p_releasing (finish t p) = p_releasing p" "p_releasing (grant v q p) = p_releasing p" "p_releasing (reply q v p) = p_releasing p"
  "p_granted (move t st p) = p_granted p" "p_granted (finish t p) = p_granted p" "p_granted (grant v q p) = insert (v, q) (p_granted p)" "p_granted (reply q v p) = p_granted p"
  "p_answers (move t st p) = p_answers p" "p_answers (finish t p) = p_answers p" "p_answers (grant v q p) = p_answers p" "p_answers (reply q v p) = insert (q, v) (p_answers p)"
  "p_dials (move t st p) = p_dials p" "p_dials (finish t p) = p_dials p" "p_dials (grant v q p) = p_dials p" "p_dials (reply q v p) = p_dials p"
  by (simp_all add: move_def finish_def grant_def reply_def)

subsection \<open>The forward manager's view\<close>

fun pending :: "query \<times> 'l stage \<Rightarrow> (forwardKey \<times> 'l forwardEntry) multiset" where
  "pending (q, Committing v port ports entry) = {#(fwd_key q v port, entry)#}"
| "pending _ = {#}"

definition committing :: "(query \<times> 'l stage) multiset \<Rightarrow> (forwardKey \<times> 'l forwardEntry) multiset" where
  "committing T = \<Sum>\<^sub># (image_mset pending T)"

definition fm_view :: "('l, 'w, 'h) process \<Rightarrow> ('l, 'w, 'h allocator \<times> 'h) fm_sys" where
  "fm_view p = \<lparr>mgr = p_fm p, fworld = p_world p, vips = p_vips p, clock = p_now p,
     starting = committing (p_tasks p), entering = p_entering p, serving = p_serving p,
     fired = p_fired p, releasing = p_releasing p\<rparr>"

lemma committing_simps [simp]:
  "committing {#} = {#}" "committing (add_mset t T) = pending t + committing T"
  by (simp_all add: committing_def)

lemma committing_remove: "t \<in># T \<Longrightarrow> committing (T - {#t#}) = committing T - pending t"
  by (auto dest!: multi_member_split)

lemma committing_member: "t \<in># T \<Longrightarrow> pending t \<subseteq># committing T"
  by (auto dest!: multi_member_split)

lemma in_committing:
  assumes "x \<in># committing T"
  obtains q v port ports where "(q, Committing v port ports (snd x)) \<in># T" "fst x = fwd_key q v port"
proof -
  have "\<exists>t \<in># T. x \<in># pending t" using assms by (induction T) auto
  then obtain q st where "(q, st) \<in># T" "x \<in># pending (q, st)" by auto
  then show ?thesis using that by (cases st) auto
qed

lemma view_simps [simp]:
  "mgr (fm_view p) = p_fm p" "fworld (fm_view p) = p_world p" "vips (fm_view p) = p_vips p"
  "clock (fm_view p) = p_now p" "starting (fm_view p) = committing (p_tasks p)"
  "entering (fm_view p) = p_entering p" "serving (fm_view p) = p_serving p" "fired (fm_view p) = p_fired p"
  "releasing (fm_view p) = p_releasing p"
  by (simp_all add: fm_view_def)

lemma fm_view_eqI:
  assumes "mgr s = p_fm p" "fworld s = p_world p" "vips s = p_vips p" "clock s = p_now p"
    "starting s = committing (p_tasks p)" "entering s = p_entering p" "serving s = p_serving p"
    "fired s = p_fired p" "releasing s = p_releasing p"
  shows "s = fm_view p"
  using assms by (simp add: fm_view_def)

lemma view_init: "p_init r idle p \<Longrightarrow> fm_init r idle (fm_view p)"
  by (auto simp: p_init_def fm_init_def)

text \<open>A step of the process is a step of the forward manager's interleavings, or none.\<close>

lemma view_step:
  assumes "p_step io ord Q p p'"
  shows "fm_view p' = fm_view p \<or> fm_step io pool_release ord (fm_view p) (fm_view p')"
  using assms
proof cases
  case (time t h' w')
  then show ?thesis using tick [of "fm_view p" t io pool_release ord "(fst (p_vips p), h')" w'] by (simp add: fm_view_def)
next
  case (allocated q v vs ports)
  then show ?thesis using tick [of "fm_view p" "p_now p" io pool_release ord vs "p_world p"]
    by (simp add: fm_view_def committing_remove)
next
  case (no_vip q e vs)
  then show ?thesis using tick [of "fm_view p" "p_now p" io pool_release ord vs "p_world p"]
    by (simp add: fm_view_def committing_remove)
next
  case (not_bound q v port ports e w')
  then show ?thesis using tick [of "fm_view p" "p_now p" io pool_release ord "p_vips p" w']
    by (simp add: fm_view_def committing_remove)
next
  case (touched q v)
  then show ?thesis using touch [of io pool_release ord "fm_view p" "IP_String v"] by (simp add: fm_view_def committing_remove)
next
  case (running q v port ports m')
  then show ?thesis using start_hit [of "fm_view p" "fwd_key q v port" m' io pool_release ord]
    by (simp add: fm_view_def committing_remove)
next
  case (bound q v port ports ln w' c m')
  then show ?thesis
    using start_listen [of io _ "fm_view p" ln w' c m' pool_release ord "fwd_key q v port"]
    by (simp add: fm_view_def committing_remove)
next
  case (committed q v port ports entry m')
  then show ?thesis
    using commit [of "fwd_key q v port" entry "fm_view p" m' io pool_release ord] committing_member [OF committed(2)]
    by (simp add: fm_view_def committing_remove)
next
  case (raced q v port ports entry m1 m' w')
  then show ?thesis
    using commit_raced [of "fwd_key q v port" entry "fm_view p" m1 io m' w' pool_release ord] committing_member [OF raced(2)]
    by (simp add: fm_view_def committing_remove)
next
  case (accepted lp vip)
  then show ?thesis
    using lookup [of vip "fm_view p" _ io pool_release ord] by (simp add: fm_view_def split: option.splits)
next
  case (entered a vip)
  then show ?thesis using enter [of "fm_view p" a vip io pool_release ord] by (simp add: fm_view_def)
next
  case (left a vip)
  then show ?thesis using leave [of a vip "fm_view p" io pool_release ord] by (simp add: fm_view_def)
next
  case (fires t due vip gen)
  then show ?thesis using fire [of "fm_view p" t due vip gen io pool_release ord] by (simp add: fm_view_def)
next
  case (expires vip gen expired m' w')
  then show ?thesis using expire [of vip gen "fm_view p" io expired m' w' pool_release ord] by (cases expired) (simp_all add: fm_view_def)
next
  case (releases vip)
  then show ?thesis using release [of vip "fm_view p" io pool_release ord] by (simp add: fm_view_def)
next
  case (ctx_shutdown ks ctx u m' w')
  then show ?thesis using shutdown_context [of ks "fm_view p" io ord ctx u m' w' pool_release] by (simp add: fm_view_def)
next
  case (all_shutdown ks m' w')
  then show ?thesis using shutdown [of ks "fm_view p" io ord m' w' pool_release] by (simp add: fm_view_def)
qed (auto simp: fm_view_def committing_remove)

subsection \<open>The invariant\<close>

text \<open>
  \<open>pool_part\<close>: the allocator is sound and the addresses granted so far form a ledger. \<open>trail_part\<close>:
  everything that carries an address leads back to the ledger: the tasks, the accept loops and
  their listeners, the answers and the tunnels.
\<close>

definition pool_part :: "('l, 'w, 'h) process \<Rightarrow> bool" where
  "pool_part p \<longleftrightarrow> Vip_Allocator.pool_inv (p_vips p) \<and>
     ledger_ok (pool_lookup (p_vips p)) (pool_spent (p_vips p)) (apsnd query_key ` p_granted p)"

fun stage_vip :: "'l stage \<Rightarrow> ip option" where
  "stage_vip Asked = None"
| "stage_vip (Hit v) = Some v"
| "stage_vip Missed = None"
| "stage_vip (Starting v ports) = Some v"
| "stage_vip (Listening v port ports) = Some v"
| "stage_vip (Committing v port ports entry) = Some v"

definition trail_part :: "query set \<Rightarrow> ('l, 'w, 'h) process \<Rightarrow> bool" where
  "trail_part Q p \<longleftrightarrow>
     (\<forall>v q. (v, q) \<in> p_granted p \<longrightarrow> q \<in> Q) \<and>
     (\<forall>q st. (q, st) \<in># p_tasks p \<longrightarrow> q \<in> Q \<and> (\<forall>v. stage_vip st = Some v \<longrightarrow> (v, q) \<in> p_granted p)) \<and>
     (\<forall>lp. lp \<in># p_loops p \<longrightarrow> (\<exists>v port. (v, lp_query lp) \<in> p_granted p \<and> lp_key lp = fwd_key (lp_query lp) v port)) \<and>
     (\<forall>k e. entries (p_fm p) k = Some e \<longrightarrow> (\<exists>lp. lp \<in># p_loops p \<and> lp_key lp = k \<and> lp_entry lp = e)) \<and>
     (\<forall>q v. (q, v) \<in> p_answers p \<longrightarrow> (v, q) \<in> p_granted p) \<and>
     (\<forall>vip port q. (vip, port, q) \<in> p_dials p \<longrightarrow> (\<exists>v. (v, q) \<in> p_granted p \<and> vip = IP_String v)) \<and>
     (\<forall>vip. vipStates (p_fm p) vip \<noteq> None \<longrightarrow> (\<exists>v q. (v, q) \<in> p_granted p \<and> vip = IP_String v))"

lemma trail_partI:
  assumes "\<And>v q. (v, q) \<in> p_granted p \<Longrightarrow> q \<in> Q"
    "\<And>q st. (q, st) \<in># p_tasks p \<Longrightarrow> q \<in> Q"
    "\<And>q st v. (q, st) \<in># p_tasks p \<Longrightarrow> stage_vip st = Some v \<Longrightarrow> (v, q) \<in> p_granted p"
    "\<And>lp. lp \<in># p_loops p \<Longrightarrow> \<exists>v port. (v, lp_query lp) \<in> p_granted p \<and> lp_key lp = fwd_key (lp_query lp) v port"
    "\<And>k e. entries (p_fm p) k = Some e \<Longrightarrow> \<exists>lp. lp \<in># p_loops p \<and> lp_key lp = k \<and> lp_entry lp = e"
    "\<And>q v. (q, v) \<in> p_answers p \<Longrightarrow> (v, q) \<in> p_granted p"
    "\<And>vip port q. (vip, port, q) \<in> p_dials p \<Longrightarrow> \<exists>v. (v, q) \<in> p_granted p \<and> vip = IP_String v"
    "\<And>vip. vipStates (p_fm p) vip \<noteq> None \<Longrightarrow> \<exists>v q. (v, q) \<in> p_granted p \<and> vip = IP_String v"
  shows "trail_part Q p"
  unfolding trail_part_def using assms by blast

lemma trail_partD:
  assumes "trail_part Q p"
  shows "(v, q) \<in> p_granted p \<Longrightarrow> q \<in> Q"
    "(q, st) \<in># p_tasks p \<Longrightarrow> q \<in> Q"
    "(q, st) \<in># p_tasks p \<Longrightarrow> stage_vip st = Some v \<Longrightarrow> (v, q) \<in> p_granted p"
    "lp \<in># p_loops p \<Longrightarrow> \<exists>v port. (v, lp_query lp) \<in> p_granted p \<and> lp_key lp = fwd_key (lp_query lp) v port"
    "entries (p_fm p) k = Some e \<Longrightarrow> \<exists>lp. lp \<in># p_loops p \<and> lp_key lp = k \<and> lp_entry lp = e"
    "(q, v) \<in> p_answers p \<Longrightarrow> (v, q) \<in> p_granted p"
    "(vip, port, q) \<in> p_dials p \<Longrightarrow> \<exists>v. (v, q) \<in> p_granted p \<and> vip = IP_String v"
    "vipStates (p_fm p) vip \<noteq> None \<Longrightarrow> \<exists>v q. (v, q) \<in> p_granted p \<and> vip = IP_String v"
  using assms unfolding trail_part_def by blast+

text \<open>A step that adds no listener and only moves a task along its address keeps the trail.\<close>

lemma trail_part_keep:
  assumes "trail_part Q p" "p_granted p' = p_granted p" "p_loops p' = p_loops p"
    "entries (p_fm p') \<subseteq>\<^sub>m entries (p_fm p)" "p_dials p' = p_dials p" "p_answers p' = p_answers p"
    "dom (vipStates (p_fm p')) \<subseteq> dom (vipStates (p_fm p))"
    "\<And>q st. (q, st) \<in># p_tasks p' \<Longrightarrow> (q, st) \<in># p_tasks p \<or>
       q \<in> Q \<and> stage_vip st = None \<or> (\<exists>st'. (q, st') \<in># p_tasks p \<and> stage_vip st' = stage_vip st)"
  shows "trail_part Q p'"
proof (rule trail_partI)
  fix k e assume "entries (p_fm p') k = Some e"
  then have "entries (p_fm p) k = Some e" using assms(4) by (metis domI map_le_def)
  then show "\<exists>lp. lp \<in># p_loops p' \<and> lp_key lp = k \<and> lp_entry lp = e"
    using trail_partD(5) [OF assms(1)] assms(3) by simp
next
  fix q st assume t: "(q, st) \<in># p_tasks p'"
  show "q \<in> Q" using assms(8) [OF t] trail_partD(2) [OF assms(1)] by blast
  show "(v, q) \<in> p_granted p'" if "stage_vip st = Some v" for v
    using assms(8) [OF t] trail_partD(3) [OF assms(1)] that assms(2) by fastforce
next
  fix vip assume "vipStates (p_fm p') vip \<noteq> None"
  then have "vipStates (p_fm p) vip \<noteq> None" using assms(7) by blast
  then show "\<exists>v q. (v, q) \<in> p_granted p' \<and> vip = IP_String v" using trail_partD(8) [OF assms(1)] assms(2) by simp
qed (use trail_partD(1,4,6,7) [OF assms(1)] in \<open>simp_all add: assms(2,3,5,6)\<close>)

lemma grant_move: "grant v q (move t st p) = move t st (grant v q p)"
  by (cases p) (simp add: grant_def move_def)

lemma trail_part_grant:
  assumes "trail_part Q p" "q \<in> Q"
  shows "trail_part Q (grant v q p)"
proof (rule trail_partI)
  show "x \<in> Q" if "(v', x) \<in> p_granted (grant v q p)" for v' x
    using that assms(2) trail_partD(1) [OF assms(1)] by auto
next
  fix lp assume "lp \<in># p_loops (grant v q p)"
  then show "\<exists>v' port. (v', lp_query lp) \<in> p_granted (grant v q p) \<and> lp_key lp = fwd_key (lp_query lp) v' port"
    using trail_partD(4) [OF assms(1), of lp] by auto
next
  fix vip port x assume "(vip, port, x) \<in> p_dials (grant v q p)"
  then show "\<exists>v'. (v', x) \<in> p_granted (grant v q p) \<and> vip = IP_String v'"
    using trail_partD(7) [OF assms(1), of vip port x] by auto
next
  fix vip assume "vipStates (p_fm (grant v q p)) vip \<noteq> None"
  then show "\<exists>v' x. (v', x) \<in> p_granted (grant v q p) \<and> vip = IP_String v'"
    using trail_partD(8) [OF assms(1), of vip] by auto
qed (use trail_partD(2,3,5,6) [OF assms(1)] in simp_all)

lemma trail_part_reply:
  assumes "trail_part Q p" "(v, q) \<in> p_granted p"
  shows "trail_part Q (reply q v p)"
proof (rule trail_partI)
  fix q' v' assume "(q', v') \<in> p_answers (reply q v p)"
  then show "(v', q') \<in> p_granted (reply q v p)" using assms(2) trail_partD(6) [OF assms(1)] by auto
qed (use trail_partD(1-5,7,8) [OF assms(1)] in simp_all)

lemma trail_part_move:
  assumes "trail_part Q p" "fst t \<in> Q" "\<And>v. stage_vip st = Some v \<Longrightarrow> (v, fst t) \<in> p_granted p"
  shows "trail_part Q (move t st p)"
proof (rule trail_partI)
  fix q st' assume t: "(q, st') \<in># p_tasks (move t st p)"
  then consider "q = fst t" "st' = st" | "(q, st') \<in># p_tasks p" by (auto dest: in_diffD)
  note cases = this
  show "q \<in> Q" using assms(2) trail_partD(2) [OF assms(1)] by (cases rule: cases) simp_all
  show "(v, q) \<in> p_granted (move t st p)" if "stage_vip st' = Some v" for v
    using assms(3) that trail_partD(3) [OF assms(1)] by (cases rule: cases) simp_all
qed (use trail_partD(1,4-8) [OF assms(1)] in simp_all)

lemma trail_part_finish: "trail_part Q p \<Longrightarrow> trail_part Q (finish t p)"
  by (rule trail_part_keep) (auto dest: in_diffD)

lemma pool_part_cong:
  "pool_part p \<Longrightarrow> p_vips p' = p_vips p \<Longrightarrow> p_granted p' = p_granted p \<Longrightarrow> pool_part p'"
  by (simp add: pool_part_def)

lemma pool_part_release:
  assumes "pool_part p" "p_vips p' = release_vip pool_release vip (p_vips p)" "p_granted p' = p_granted p"
  shows "pool_part p'"
proof (cases "ParseIP vip")
  case None
  with assms show ?thesis by (simp add: pool_part_def release_vip_def)
next
  case (Some a)
  obtain r vs where r: "pool_release a (p_vips p) = (r, vs)" by (metis surj_pair)
  with Some assms ledger.release_spent [OF _ r] ledger.ledger_release [OF _ r] show ?thesis
    by (simp add: pool_part_def release_vip_def)
qed

lemma pool_part_step:
  assumes "p_step io ord Q p p'" "pool_part p"
  shows "pool_part p'"
  using assms(1)
proof cases
  case (time t h' w')
  with assms(2) show ?thesis by (simp add: pool_part_def pool_defs pool_spent_def)
next
  case (hit q v)
  with assms(2) ledger.ledger_hit [of "p_vips p" "query_key q" v] show ?thesis by (simp add: pool_part_def)
next
  case (allocated q v vs ports)
  with assms(2) ledger.ledger_alloc [OF _ allocated(3)] pool.alloc_ok [OF _ allocated(3)] show ?thesis
    by (simp add: pool_part_def)
next
  case (no_vip q e vs)
  with assms(2) ledger.ledger_alloc_err [OF _ no_vip(3)] pool.alloc_err [OF _ no_vip(3)] show ?thesis
    by (simp add: pool_part_def)
next
  case (releases vip)
  then show ?thesis by (intro pool_part_release [OF assms(2), of _ vip]) simp_all
qed (intro pool_part_cong [OF assms(2)]; simp)+

lemma entries_shrink:
  "expire_locked io vip gen m w = (expired, m', w') \<Longrightarrow> entries m' \<subseteq>\<^sub>m entries m"
  "shutdown_context_locked io ord ks ctx m w = (u, m', w') \<Longrightarrow> entries m' \<subseteq>\<^sub>m entries m"
  "range_of ks (entries m) \<Longrightarrow> shutdown_locked io ord ks m w = (m', w') \<Longrightarrow> entries m' \<subseteq>\<^sub>m entries m"
  "expire_locked io vip gen m w = (expired, m', w') \<Longrightarrow> dom (vipStates m') \<subseteq> dom (vipStates m)"
  "shutdown_context_locked io ord ks ctx m w = (u, m', w') \<Longrightarrow> dom (vipStates m') \<subseteq> dom (vipStates m)"
proof -
  show "dom (vipStates m') \<subseteq> dom (vipStates m)" if run: "expire_locked io vip gen m w = (expired, m', w')"
  proof -
    have keep: "vipStates m1 = vipStates m" if "expire_keys io ks m w = (m1, w1)" for ks m1 w1
      using expire_keys_simps(1) [of io ks m w] that by simp
    have "vipStates m' = vipStates m \<or> vipStates m' = (vipStates m)(vip := None)"
      using expire_locked_cases [OF run] by (auto dest: keep)
    then show ?thesis by (auto split: if_splits)
  qed
  show "dom (vipStates m') \<subseteq> dom (vipStates m)" if "shutdown_context_locked io ord ks ctx m w = (u, m', w')"
    using that close_context_simps(1) [of io ctx ks Map.empty m w]
    by (auto simp: shutdown_context_locked_def drop_states_eq split: prod.splits if_splits)
  have keys: "entries (fst (expire_keys io ks m w)) \<subseteq>\<^sub>m entries m" for ks
    by (auto simp: map_le_def expire_keys_entries split: if_splits)
  show "entries m' \<subseteq>\<^sub>m entries m" if run: "expire_locked io vip gen m w = (expired, m', w')"
  proof -
    have "m' = m \<or> (\<exists>ks m1. expire_keys io ks m w = (m1, w') \<and> entries m' = entries m1)"
      using expire_locked_cases [OF run] by force
    then show ?thesis using keys by (metis fst_conv map_le_refl)
  qed
  show "entries m' \<subseteq>\<^sub>m entries m" if "shutdown_context_locked io ord ks ctx m w = (u, m', w')"
    using that close_context_entries [of io ctx ks Map.empty m w]
    by (auto simp: shutdown_context_locked_def map_le_def drop_states_eq split: prod.splits if_splits)
  show "entries m' \<subseteq>\<^sub>m entries m"
    if "range_of ks (entries m)" "shutdown_locked io ord ks m w = (m', w')"
    using keys_ok_shutdown(1) [OF that] by simp
qed

lemma cancel_entry_entries:
  "cancel_entry io e m w = (m', w') \<Longrightarrow> entries m' = entries m"
  "cancel_entry io e m w = (m', w') \<Longrightarrow> vipStates m' = vipStates m"
  by (auto simp: cancel_entry_def)

lemma start_commit_flag: "fst (start_commit now key e m) \<longleftrightarrow> entries m key \<noteq> None"
  by (simp add: start_commit_def Let_def split: option.splits)

lemma start_commit_raced:
  "start_commit now key e m = (True, m') \<Longrightarrow> entries m' = entries m"
  "start_commit now key e m = (True, m') \<Longrightarrow> vipStates m' = vipStates m"
  by (auto simp: start_commit_def Let_def split: option.splits if_splits)

lemma start_commit_tracks:
  "start_commit now key e m = (b, m') \<Longrightarrow> dom (vipStates m') \<subseteq> insert (fk_vipAddr key) (dom (vipStates m))"
  by (auto simp: start_commit_def Let_def split: option.splits if_splits)

lemma start_commit_new:
  "start_commit now key e m = (False, m') \<Longrightarrow> entries m key = None \<and> entries m' = (entries m)(key \<mapsto> e)"
  using start_commit_entries [of now key e m] by (auto simp: start_commit_def Let_def split: option.splits if_splits)

lemma trail_part_commit:
  assumes "trail_part Q p" "(v, q) \<in> p_granted p" "start_commit now (fwd_key q v port) entry (p_fm p) = (False, m')"
  shows "trail_part Q (p\<lparr>p_fm := m',
    p_loops := add_mset \<lparr>lp_key = fwd_key q v port, lp_entry = entry, lp_query = q\<rparr> (p_loops p)\<rparr>)"
    (is "trail_part Q ?p")
proof (rule trail_partI)
  note tr = trail_partD [OF assms(1)] and new = start_commit_new [OF assms(3)]
  let ?lp = "\<lparr>lp_key = fwd_key q v port, lp_entry = entry, lp_query = q\<rparr>"
  show "\<exists>v port. (v, lp_query lp) \<in> p_granted ?p \<and> lp_key lp = fwd_key (lp_query lp) v port"
    if "lp \<in># p_loops ?p" for lp
    using that tr(4) [of lp] assms(2) by (cases "lp = ?lp") auto
  show "\<exists>lp. lp \<in># p_loops ?p \<and> lp_key lp = k \<and> lp_entry lp = e" if "entries (p_fm ?p) k = Some e" for k e
    using that tr(5) new by (cases "k = fwd_key q v port") fastforce+
  show "\<exists>v q. (v, q) \<in> p_granted ?p \<and> vip = IP_String v" if "vipStates (p_fm ?p) vip \<noteq> None" for vip
  proof -
    have "vip = IP_String v \<or> vipStates (p_fm p) vip \<noteq> None"
      using that start_commit_tracks [OF assms(3)] by (auto simp: fwd_key_def)
    then show ?thesis using tr(8) [of vip] assms(2) by auto
  qed
qed (use trail_partD(1-3,6,7) [OF assms(1)] in simp_all)

lemma trail_part_step:
  assumes "p_step io ord Q p p'" "trail_part Q p"
  shows "trail_part Q p'"
proof -
  note tr = trail_partD [OF assms(2)]
  from assms(1) show ?thesis
  proof cases
    case (ask q)
    then show ?thesis by (intro trail_part_keep [OF assms(2)]) auto
  next
    case (hit q v)
    then show ?thesis
      using trail_part_move [OF trail_part_grant [OF assms(2)], of q "(q, Asked)" "Hit v" v] tr(2)
      by (simp add: grant_move)
  next
    case (touched q v)
    let ?p = "p\<lparr>p_fm := TouchVIP (p_now p) (IP_String v) (p_fm p)\<rparr>"
    have "trail_part Q ?p" by (rule trail_part_keep [OF assms(2)]) (simp_all add: TouchVIP_def)
    then show ?thesis using touched tr(3) by (auto intro!: trail_part_reply trail_part_finish)
  next
    case (miss q)
    then show ?thesis using tr(2) by (auto intro!: trail_part_move [OF assms(2)])
  next
    case (unresolved q)
    then show ?thesis using trail_part_finish [OF assms(2)] by simp
  next
    case (allocated q v vs ports)
    have "trail_part Q (p\<lparr>p_vips := vs\<rparr>)" by (rule trail_part_keep [OF assms(2)]) simp_all
    from trail_part_move [OF trail_part_grant [OF this], of q "(q, Missed)" "Starting v ports" v] allocated tr(2)
    show ?thesis by (simp add: grant_move)
  next
    case (no_vip q e vs)
    have "trail_part Q (p\<lparr>p_vips := vs\<rparr>)" by (rule trail_part_keep [OF assms(2)]) simp_all
    with no_vip show ?thesis by (simp add: trail_part_finish)
  next
    case (running q v port ports m')
    then have "entries m' = entries (p_fm p)" "vipStates m' = vipStates (p_fm p)"
      by (auto simp: start_check_def split: option.splits)
    then have "trail_part Q (p\<lparr>p_fm := m'\<rparr>)" by (intro trail_part_keep [OF assms(2)]) simp_all
    with running tr(2,3) show ?thesis by (auto intro!: trail_part_move)
  next
    case (missing q v port ports m')
    with assms(2) tr(2,3) show ?thesis by (auto intro!: trail_part_move)
  next
    case (not_bound q v port ports e w')
    have "trail_part Q (p\<lparr>p_world := w'\<rparr>)" by (rule trail_part_keep [OF assms(2)]) simp_all
    with not_bound show ?thesis by (simp add: trail_part_finish)
  next
    case (bound q v port ports ln w' c m')
    then have "entries m' = entries (p_fm p)" "vipStates m' = vipStates (p_fm p)" by (auto simp: new_context_def)
    then have "trail_part Q (p\<lparr>p_fm := m', p_world := w'\<rparr>)" by (intro trail_part_keep [OF assms(2)]) simp_all
    with bound tr(2,3) show ?thesis by (auto intro!: trail_part_move)
  next
    case (committed q v port ports entry m')
    have v: "(v, q) \<in> p_granted p" using tr(3) [OF committed(2)] by simp
    note trail_part_commit [OF assms(2) v committed(3)]
    with committed v tr(2) show ?thesis by (auto intro!: trail_part_move)
  next
    case (raced q v port ports entry m1 m' w')
    then have "entries m' = entries (p_fm p)" "vipStates m' = vipStates (p_fm p)"
      using start_commit_raced cancel_entry_entries by metis+
    then have "trail_part Q (p\<lparr>p_fm := m', p_world := w'\<rparr>)" by (intro trail_part_keep [OF assms(2)]) simp_all
    with raced tr(2,3) show ?thesis by (auto intro!: trail_part_move)
  next
    case (started q v)
    with assms(2) tr(3) show ?thesis by (auto intro!: trail_part_reply trail_part_finish)
  next
    case (accepted lp vip)
    obtain v port where v: "(v, lp_query lp) \<in> p_granted p" "lp_key lp = fwd_key (lp_query lp) v port"
      using tr(4) [OF accepted(2)] by blast
    let ?p = "p\<lparr>p_entering := (case conn_lookup vip (p_fm p) of
         None \<Rightarrow> p_entering p | Some a \<Rightarrow> add_mset (a, vip) (p_entering p))\<rparr>"
    have "trail_part Q ?p" by (rule trail_part_keep [OF assms(2)]) simp_all
    with v accepted show ?thesis by (simp add: trail_part_def fwd_key_def) blast
  next
    case (expires vip gen expired m' w')
    with entries_shrink(1,4) [OF expires(3)] show ?thesis by (intro trail_part_keep [OF assms(2)]) simp_all
  next
    case (ctx_shutdown ks ctx u m' w')
    with entries_shrink(2,5) [OF ctx_shutdown(3)] show ?thesis by (intro trail_part_keep [OF assms(2)]) simp_all
  next
    case (all_shutdown ks m' w')
    with entries_shrink(3) [OF all_shutdown(2,3)] keys_ok_shutdown(2) [OF all_shutdown(2,3)] show ?thesis by (intro trail_part_keep [OF assms(2)]) simp_all
  qed (intro trail_part_keep [OF assms(2)]; simp)+
qed

lemma p_inv_reachable:
  assumes "reachable (p_init r idle) (p_step io ord Q) p"
  shows "pool_part p" "trail_part Q p"
proof -
  have "pool_part p \<and> trail_part Q p"
    by (rule reachable_invariant [OF assms])
      (auto simp: p_init_def pool_part_def trail_part_def pool_inv_def NewForwardManager_def
        dest: NewAllocator_inv pool_part_step trail_part_step)
  then show "pool_part p" "trail_part Q p" by simp_all
qed

lemma granted_length:
  assumes "pool_part p" "(v, q) \<in> p_granted p"
  shows "length v = 4"
proof -
  have "ledger_ok (pool_lookup (p_vips p)) (pool_spent (p_vips p)) (apsnd query_key ` p_granted p)"
    using assms(1) by (simp add: pool_part_def)
  moreover have "(v, query_key q) \<in> apsnd query_key ` p_granted p" using assms(2) by force
  ultimately show ?thesis using ledger_okD(1) ledger.spent_length by blast
qed

text \<open>One address, one service: what has been granted as the same text was granted to the same key.\<close>

lemma granted_once:
  assumes "pool_part p" "(v, q) \<in> p_granted p" "(v', q') \<in> p_granted p" "IP_String v = IP_String v'"
  shows "v = v'" "query_key q = query_key q'"
proof -
  let ?G = "apsnd query_key ` p_granted p"
  have G: "ledger_ok (pool_lookup (p_vips p)) (pool_spent (p_vips p)) ?G" using assms(1) by (simp add: pool_part_def)
  have mem: "(v, query_key q) \<in> ?G" "(v', query_key q') \<in> ?G" using assms(2,3) by force+
  show v: "v = v'"
    using granted_length [OF assms(1,2)] granted_length [OF assms(1,3)] assms(4) by (simp add: dotted_inj)
  show "query_key q = query_key q'" using ledger_okD(3) [OF G mem(1)] mem(2) v by metis
qed

text \<open>Releasing the text of an address frees the key that holds it, if any, and no other.\<close>

lemma release_text:
  assumes "Vip_Allocator.pool_inv vs" "length v = 4"
  shows "pool_lookup (release_vip pool_release (IP_String v) vs) k =
    (case pool_lookup vs k of None \<Rightarrow> None | Some v' \<Rightarrow> if IP_String v' = IP_String v then None else Some v')"
proof -
  obtain r vs' where rel: "pool_release (v4InV6Prefix @ v) vs = (r, vs')" by (metis surj_pair)
  have eq: "release_vip pool_release (IP_String v) vs = vs'" using rel assms(2) by (simp add: release_vip_def)
  have same: "IP_String v' = IP_String v \<longleftrightarrow> v' = v" if "pool_lookup vs k' = Some v'" for k' v'
    using pool.vip_length [OF assms(1) that] assms(2) by (simp add: dotted_inj)
  show ?thesis
  proof (cases "v \<in> ran (pool_lookup vs)")
    case True
    then obtain k0 where k0: "pool_lookup vs k0 = Some v" by (auto simp: ran_def)
    have "k = k0" if "pool_lookup vs k = Some v" using pool.vips_distinct [OF assms(1) k0 that] by simp
    with pool.release_known [OF assms(1) k0 rel] same k0 show ?thesis
      unfolding eq by (cases "pool_lookup vs k") auto
  next
    case False
    with pool.release_unknown [OF assms(1,2)] rel have "vs' = vs" by simp
    with False same show ?thesis unfolding eq by (cases "pool_lookup vs k") (auto simp: ran_def)
  qed
qed

lemma view_reachable:
  assumes "reachable (p_init r idle) (p_step io ord Q) p"
  shows "reachable (fm_init r idle) (fm_step io pool_release ord) (fm_view p)"
  using assms
proof (induction rule: reachable.induct)
  case (reach_init p)
  then show ?case by (intro reachable.reach_init view_init)
next
  case (reach_step p p')
  with view_step [OF reach_step.hyps(2)] show ?case by (auto intro: reachable.reach_step)
qed

text \<open>
  An assignment of contexts to the addresses that agrees with what was granted: with respect to it
  the run keeps to the discipline the forward manager relies on.
\<close>

definition owned :: "(string \<Rightarrow> string) \<Rightarrow> (ip \<times> query) set \<Rightarrow> bool" where
  "owned own G \<longleftrightarrow> (\<forall>v q. (v, q) \<in> G \<longrightarrow> own (IP_String v) = q_contextName q)"

lemma granted_mono: "p_step io ord Q p p' \<Longrightarrow> p_granted p \<subseteq> p_granted p'"
  by (induction rule: p_step.induct) auto

lemma starting_owned:
  assumes "trail_part Q p" "owned own (p_granted p)" "x \<in># starting (fm_view p)"
  shows "fk_contextName (fst x) = own (fk_vipAddr (fst x))"
proof -
  from assms(3) have "x \<in># committing (p_tasks p)" by simp
  then obtain q v port ports where t: "(q, Committing v port ports (snd x)) \<in># p_tasks p" "fst x = fwd_key q v port"
    by (rule in_committing)
  from trail_partD(3) [OF assms(1) t(1)] assms(2) t(2) show ?thesis by (simp add: owned_def fwd_key_def)
qed

lemma view_reachable_own:
  assumes "reachable (p_init r idle) (p_step io ord Q) p" "owned own (p_granted p)"
  shows "reachable (fm_init r idle) (own_step own io pool_release ord) (fm_view p)"
  using assms
proof (induction rule: reachable.induct)
  case (reach_init p)
  then show ?case by (intro reachable.reach_init view_init)
next
  case (reach_step p p')
  have own: "owned own (p_granted p)"
    using reach_step.prems granted_mono [OF reach_step.hyps(2)] by (auto simp: owned_def)
  have "trail_part Q p'"
    by (rule p_inv_reachable(2) [OF reachable.reach_step [OF reach_step.hyps(1,2)]])
  then have "\<forall>x \<in># starting (fm_view p'). fk_contextName (fst x) = own (fk_vipAddr (fst x))"
    using starting_owned reach_step.prems by blast
  then have "fm_view p' = fm_view p \<or> own_step own io pool_release ord (fm_view p) (fm_view p')"
    using view_step [OF reach_step.hyps(2)] unfolding own_step_def by blast
  with reachable.reach_step [OF reach_step.IH [OF own]] reach_step.IH [OF own] show ?case by fastforce
qed

lemma owner_exists:
  assumes "reachable (p_init r idle) (p_step io ord Q) p" "inj_on query_key Q"
  obtains own where "owned own (p_granted p)"
proof -
  note pool = p_inv_reachable(1) [OF assms(1)] and Q = trail_partD(1) [OF p_inv_reachable(2) [OF assms(1)]]
  have same: "q = q'" if "(v, q) \<in> p_granted p" "(v', q') \<in> p_granted p" "IP_String v = IP_String v'" for v q v' q'
    using granted_once(2) [OF pool that] inj_onD [OF assms(2)] Q that by blast
  define own where "own = (\<lambda>vip. q_contextName (SOME q. \<exists>v. (v, q) \<in> p_granted p \<and> vip = IP_String v))"
  have "own (IP_String v) = q_contextName q" if g: "(v, q) \<in> p_granted p" for v q
  proof -
    have "(SOME q. \<exists>v'. (v', q) \<in> p_granted p \<and> IP_String v = IP_String v') = q"
      by (rule some_equality) (use g same in metis)+
    then show ?thesis by (simp add: own_def)
  qed
  then show ?thesis by (intro that [of own]) (simp add: owned_def)
qed

subsection \<open>The DNS server runs\<close>

text \<open>
  What a goroutine does on its own, without the others, is a run of the process: \<open>frame\<close> is what
  such a run leaves alone, \<open>matches\<close> relates the state of the DNS server to that of the process.
\<close>

definition frame :: "('l, 'w, 'h) process \<Rightarrow> ('l, 'w, 'h) process \<Rightarrow> bool" where
  "frame p p' \<longleftrightarrow> p_entering p' = p_entering p \<and> p_serving p' = p_serving p \<and> p_fired p' = p_fired p \<and>
     p_releasing p' = p_releasing p \<and> p_dials p' = p_dials p \<and> p_loops p \<subseteq># p_loops p'"

definition matches ::
  "('l, 'w, 'o, 'rc, 'cs) dns_env \<Rightarrow> ('l, 'h) dns_state \<Rightarrow> 'w \<Rightarrow> ('l, 'w, 'h) process \<Rightarrow> bool" where
  "matches env s w p \<longleftrightarrow> ds_fm s = Some (p_fm p) \<and> ds_vips s = p_vips p \<and> p_world p = w \<and>
     p_now p \<le> de_time env (ds_ticks s)"

lemma frame_refl [simp]: "frame p p"
  by (simp add: frame_def)

lemma frame_trans: "frame p1 p2 \<Longrightarrow> frame p2 p3 \<Longrightarrow> frame p1 p3"
  by (auto simp: frame_def intro: subset_mset.trans)

lemma p_time: "p_now p \<le> t \<Longrightarrow> p_step io ord Q p (p\<lparr>p_now := t\<rparr>)"
  using time [of p t io ord Q "snd (p_vips p)" "p_world p"] by simp

lemma start_forward_runs:
  assumes "StartForward io t t' cm (q_contextName q) (IP_String v) port (p_fm p) (p_world p) = (r, m', w')"
    and "q_contextName q \<noteq> ''''" "(q, Starting v (port # ports)) \<in># p_tasks p" "p_now p \<le> t" "t \<le> t'"
  shows "\<exists>p'. (p_step io ord Q)\<^sup>*\<^sup>* p p' \<and> frame p p' \<and> p_fm p' = m' \<and> p_world p' = w' \<and> p_vips p' = p_vips p \<and>
    p_now p' \<le> t' \<and> p_granted p' = p_granted p \<and> p_answers p' = p_answers p \<and>
    p_tasks p' = (if r = None then {#(q, Starting v ports)#} else {#}) + (p_tasks p - {#(q, Starting v (port # ports))#})"
proof -
  let ?t = "(q, Starting v (port # ports))" and ?key = "fwd_key q v port" and ?step = "p_step io ord Q"
  let ?p1 = "p\<lparr>p_now := t\<rparr>"
  have 1: "?step p ?p1" by (rule p_time [OF assms(4)])
  have t: "?t \<in># p_tasks ?p1" using assms(3) by simp
  show ?thesis
  proof (cases "entries (p_fm p) ?key")
    case (Some e)
    then have c: "start_check (p_now ?p1) ?key (p_fm ?p1) = (True, m')" and r: "r = None" "w' = p_world p"
      using assms(1,2) by (auto simp: StartForward_def start_check_def fwd_key_def Let_def)
    let ?p2 = "move ?t (Starting v ports) (?p1\<lparr>p_fm := m'\<rparr>)"
    have "?step ?p1 ?p2" by (rule running [OF t c])
    with 1 have "?step\<^sup>*\<^sup>* p ?p2" by (rule rtranclp.rtrancl_into_rtrancl [OF r_into_rtranclp])
    then show ?thesis using assms(5) r by (intro exI [of _ ?p2]) (simp add: frame_def)
  next
    case None
    then have c: "start_check (p_now ?p1) ?key (p_fm ?p1) = (False, p_fm p)" by (simp add: start_check_def)
    let ?p2 = "move ?t (Listening v port ports) ?p1"
    have "?step ?p1 ?p2" by (rule missing [OF t c])
    with 1 have 2: "?step\<^sup>*\<^sup>* p ?p2" by (rule rtranclp.rtrancl_into_rtrancl [OF r_into_rtranclp])
    have t2: "(q, Listening v port ports) \<in># p_tasks ?p2" by simp
    obtain res w1 where l: "Listen io (IP_String v @ '':'' @ dec_int (sint port)) (p_world p) = (res, w1)" by fastforce
    show ?thesis
    proof (cases res)
      case (Inl e)
      let ?p3 = "finish (q, Listening v port ports) (?p2\<lparr>p_world := w1\<rparr>)"
      have "?step ?p2 ?p3" by (rule not_bound [OF t2]) (use l Inl in simp)
      with 2 have "?step\<^sup>*\<^sup>* p ?p3" by (rule rtranclp.rtrancl_into_rtrancl)
      moreover have "r \<noteq> None" "m' = p_fm p" "w' = w1"
        using assms(1,2) None l Inl by (auto simp: StartForward_def start_check_def fwd_key_def Let_def)
      ultimately show ?thesis using assms(5) by (intro exI [of _ ?p3]) (simp add: frame_def)
    next
      case (Inr ln)
      obtain c m1 where nc: "new_context (p_fm p) = (c, m1)" by fastforce
      let ?e = "\<lparr>listener = ln, cancel = c\<rparr>"
      let ?p3 = "move (q, Listening v port ports) (Committing v port ports ?e) (?p2\<lparr>p_fm := m1, p_world := w1\<rparr>)"
      let ?p4 = "?p3\<lparr>p_now := t'\<rparr>"
      have "?step ?p2 ?p3" by (rule bound [OF t2]) (use l Inr nc in simp_all)
      with 2 have 3: "?step\<^sup>*\<^sup>* p ?p3" by (rule rtranclp.rtrancl_into_rtrancl)
      have "?step ?p3 ?p4" by (rule p_time) (use assms(5) in simp)
      with 3 have 4: "?step\<^sup>*\<^sup>* p ?p4" by (rule rtranclp.rtrancl_into_rtrancl)
      have "entries m1 ?key = None" using None nc by (auto simp: new_context_def)
      then obtain m2 where sc: "start_commit t' ?key ?e m1 = (False, m2)"
        using start_commit_flag [of t' ?key ?e m1] by (metis prod.collapse)
      let ?p5 = "move (q, Committing v port ports ?e) (Starting v ports)
        (?p4\<lparr>p_fm := m2, p_loops := add_mset \<lparr>lp_key = ?key, lp_entry = ?e, lp_query = q\<rparr> (p_loops ?p4)\<rparr>)"
      have "?step ?p4 ?p5" by (rule committed) (use sc in simp_all)
      with 4 have "?step\<^sup>*\<^sup>* p ?p5" by (rule rtranclp.rtrancl_into_rtrancl)
      moreover have "r = None" "m' = m2" "w' = w1"
        using assms(1,2) None l Inr nc sc by (auto simp: StartForward_def start_check_def fwd_key_def Let_def)
      ultimately show ?thesis by (intro exI [of _ ?p5]) (simp add: frame_def)
    qed
  qed
qed

lemma start_ports_runs:
  assumes "start_ports env (q_contextName q) (IP_String v) ps s w = Some (ok, s', w')"
    and "mono (de_time env)" "matches env s w p" "q_contextName q \<noteq> ''''" "(q, Starting v (map Port ps)) \<in># p_tasks p"
  shows "\<exists>p'. (p_step (de_io env) ord Q)\<^sup>*\<^sup>* p p' \<and> frame p p' \<and> matches env s' w' p' \<and>
    p_granted p' = p_granted p \<and> p_answers p' = p_answers p \<and>
    p_tasks p' = (if ok then {#(q, Starting v [])#} else {#}) + (p_tasks p - {#(q, Starting v (map Port ps))#})"
  using assms(1,3,5)
proof (induction ps arbitrary: s w p)
  case Nil
  then show ?case by (intro exI [of _ p]) simp
next
  case (Cons port ps)
  have fm: "ds_fm s = Some (p_fm p)" "p_world p = w" "ds_vips s = p_vips p" and now: "p_now p \<le> de_time env (ds_ticks s)"
    using Cons.prems(2) by (simp_all add: matches_def)
  let ?t = "de_time env (ds_ticks s)" and ?t' = "de_time env (ds_ticks s + 1)"
  have mono: "de_time env i \<le> de_time env j" if "i \<le> j" for i j using assms(2) that by (rule monoD)
  obtain r m1 w1 where st: "StartForward (de_io env) ?t ?t' (de_cm env) (q_contextName q) (IP_String v) (Port port)
      (p_fm p) (p_world p) = (r, m1, w1)" by (metis prod_cases3)
  let ?s = "s\<lparr>ds_fm := Some m1, ds_ticks := ds_ticks s + 2\<rparr>"
  have task: "(q, Starting v (Port port # map Port ps)) \<in># p_tasks p" using Cons.prems(3) by simp
  obtain p1 where p1: "(p_step (de_io env) ord Q)\<^sup>*\<^sup>* p p1" "frame p p1" "p_fm p1 = m1" "p_world p1 = w1"
    "p_vips p1 = p_vips p" "p_now p1 \<le> ?t'" "p_granted p1 = p_granted p" "p_answers p1 = p_answers p"
    "p_tasks p1 = (if r = None then {#(q, Starting v (map Port ps))#} else {#}) +
       (p_tasks p - {#(q, Starting v (Port port # map Port ps))#})"
    using start_forward_runs [OF st assms(4) task now mono, of ord Q] by auto
  have "p_now p1 \<le> de_time env (ds_ticks s + 2)" using p1(6) mono [of "ds_ticks s + 1" "ds_ticks s + 2"] by simp
  then have m1: "matches env ?s w1 p1" using p1(3-5) fm(3) by (simp add: matches_def)
  show ?case
  proof (cases r)
    case (Some e)
    with Cons.prems(1) fm st have "ok = False" "s' = ?s" "w' = w1" by (auto simp: Let_def)
    with Some p1 m1 show ?thesis by (intro exI [of _ p1]) simp
  next
    case None
    with Cons.prems(1) fm st have "start_ports env (q_contextName q) (IP_String v) ps ?s w1 = Some (ok, s', w')"
      by (simp add: Let_def)
    from Cons.IH [OF this m1] None p1(9) obtain p2 where
      p2: "(p_step (de_io env) ord Q)\<^sup>*\<^sup>* p1 p2" "frame p1 p2" "matches env s' w' p2" "p_granted p2 = p_granted p1"
      "p_answers p2 = p_answers p1"
      "p_tasks p2 = (if ok then {#(q, Starting v [])#} else {#}) + (p_tasks p1 - {#(q, Starting v (map Port ps))#})"
      by auto
    have "(p_step (de_io env) ord Q)\<^sup>*\<^sup>* p p2" using p1(1) p2(1) by (rule rtranclp_trans)
    with p1 p2 None show ?thesis by (intro exI [of _ p2]) (auto intro: frame_trans)
  qed
qed

text \<open>
  The two ways an address comes about: the key had one, which is touched and answered; or it was just
  allocated, and the listeners are started before it is answered.
\<close>

lemma resolve_now_state:
  "resolve_now env c ns svc pod t = (x, t') \<Longrightarrow>
    ds_fm t' = ds_fm t \<and> ds_vips t' = ds_vips t \<and> ds_ticks t' = ds_ticks t + 2"
  by (auto simp: resolve_now_def split: prod.splits)

lemma resolve_hit_runs:
  assumes "resolve_now env c ns svc pod (touch_vip env (IP_String a) s) = (x, s')"
    and "mono (de_time env)" "matches env s w p" "q \<in> Q" "q_contextName q \<noteq> ''''"
    and "pool_lookup (p_vips p) (query_key q) = Some a"
  shows "\<exists>p'. (p_step (de_io env) ord Q)\<^sup>*\<^sup>* p p' \<and> frame p p' \<and> matches env s' w p' \<and> p_tasks p' = p_tasks p \<and>
    p_answers p' = insert (q, a) (p_answers p)"
proof -
  let ?step = "p_step (de_io env) ord Q" and ?t = "de_time env (ds_ticks s)"
  have fm: "ds_fm s = Some (p_fm p)" "p_world p = w" "ds_vips s = p_vips p" and now: "p_now p \<le> ?t"
    using assms(3) by (simp_all add: matches_def)
  let ?p1 = "p\<lparr>p_tasks := add_mset (q, Asked) (p_tasks p)\<rparr>"
  let ?p2 = "grant a q (move (q, Asked) (Hit a) ?p1)"
  let ?p3 = "?p2\<lparr>p_now := ?t\<rparr>"
  let ?p4 = "reply q a (finish (q, Hit a) (?p3\<lparr>p_fm := TouchVIP (p_now ?p3) (IP_String a) (p_fm ?p3)\<rparr>))"
  have "?step p ?p1" by (rule ask [OF assms(4,5)])
  moreover have "?step ?p1 ?p2" by (rule hit) (use assms(6) in simp_all)
  moreover have "?step ?p2 ?p3" by (rule p_time) (use now in simp)
  moreover have "?step ?p3 ?p4" by (rule touched) simp
  ultimately have "?step\<^sup>*\<^sup>* p ?p4" by (meson r_into_rtranclp rtranclp.rtrancl_into_rtrancl)
  moreover have "matches env s' w ?p4"
    using resolve_now_state [OF assms(1)] fm monoD [OF assms(2), of "ds_ticks s" "ds_ticks s + 3"]
    by (simp add: matches_def touch_vip_def eval_nat_numeral)
  ultimately show ?thesis by (intro exI [of _ ?p4]) (simp add: frame_def)
qed

lemma start_fresh_runs:
  assumes "start_ports env (q_contextName q) (IP_String v) ps s w = Some (ok, s', w')"
    and "mono (de_time env)" "matches env s w p" "q_contextName q \<noteq> ''''"
    and "p_tasks p = add_mset (q, Starting v (map Port ps)) T"
  shows "\<exists>p'. (p_step (de_io env) ord Q)\<^sup>*\<^sup>* p p' \<and> frame p p' \<and> matches env s' w' p' \<and> p_tasks p' = T \<and>
    p_answers p' = p_answers p \<union> (if ok then {(q, v)} else {})"
proof -
  let ?step = "p_step (de_io env) ord Q"
  have "(q, Starting v (map Port ps)) \<in># p_tasks p" by (simp add: assms(5))
  from start_ports_runs [OF assms(1-4) this, of ord Q] obtain p1 where
    p1: "?step\<^sup>*\<^sup>* p p1" "frame p p1" "matches env s' w' p1" "p_answers p1 = p_answers p"
    "p_tasks p1 = (if ok then {#(q, Starting v [])#} else {#}) + T" using assms(5) by auto
  show ?thesis
  proof (cases ok)
    case False
    with p1 show ?thesis by (intro exI [of _ p1]) simp
  next
    case True
    let ?p2 = "reply q v (finish (q, Starting v []) p1)"
    have "?step p1 ?p2" by (rule started) (use p1(5) True in simp)
    with p1(1) have "?step\<^sup>*\<^sup>* p ?p2" by (rule rtranclp.rtrancl_into_rtrancl)
    with p1 True show ?thesis by (intro exI [of _ ?p2]) (simp add: frame_def matches_def)
  qed
qed

text \<open>
  Resolving a name in one context: the whole of resolveForContext, from the lookup to the answer.
\<close>

lemma resolve_one_runs:
  assumes "resolveForContext env (q_contextName q) (q_namespace q) (q_svcName q) (q_podName q) s w = Some (r, s', w')"
    and "mono (de_time env)" "matches env s w p" "q \<in> Q" "q_contextName q \<noteq> ''''"
  shows "\<exists>p'. (p_step (de_io env) ord Q)\<^sup>*\<^sup>* p p' \<and> frame p p' \<and> matches env s' w' p' \<and> p_tasks p' = p_tasks p \<and>
    p_answers p' = p_answers p \<union> (\<lambda>x. (q, cv_ip x)) ` set_option r"
proof -
  let ?step = "p_step (de_io env) ord Q" and ?key = "query_key q"
  have fm: "ds_fm s = Some (p_fm p)" "p_world p = w" "ds_vips s = p_vips p" and now: "p_now p \<le> de_time env (ds_ticks s)"
    using assms(3) by (simp_all add: matches_def)
  let ?p1 = "p\<lparr>p_tasks := add_mset (q, Asked) (p_tasks p)\<rparr>"
  have 1: "?step\<^sup>*\<^sup>* p ?p1" by (rule r_into_rtranclp) (rule ask [OF assms(4,5)])
  show ?thesis
  proof (cases "pool_lookup (p_vips p) ?key")
    case (Some a)
    obtain x s2 where s2: "resolve_now env (q_contextName q) (q_namespace q) (q_svcName q) (q_podName q)
        (touch_vip env (IP_String a) s) = (x, s2)" by fastforce
    with assms(1) fm(3) Some have "r = Some \<lparr>cv_contextName = q_contextName q, cv_ip = a, cv_ports = ports_or_nil x\<rparr>" "s' = s2" "w' = w"
      by (auto simp: resolveForContext_def query_key_def)
    with resolve_hit_runs [OF s2 assms(2-5) Some, of ord] show ?thesis by simp
  next
    case None
    obtain x s1 where s1: "resolve_now env (q_contextName q) (q_namespace q) (q_svcName q) (q_podName q) s = (x, s1)"
      by fastforce
    let ?p2 = "move (q, Asked) Missed ?p1"
    have "?step ?p1 ?p2" by (rule miss) (use None in simp_all)
    with 1 have 2: "?step\<^sup>*\<^sup>* p ?p2" by (rule rtranclp.rtrancl_into_rtrancl)
    have m1: "ds_fm s1 = Some (p_fm p)" "ds_vips s1 = p_vips p" "p_now p \<le> de_time env (ds_ticks s1)"
      using resolve_now_state [OF s1] fm now monoD [OF assms(2), of "ds_ticks s" "ds_ticks s + 2"] by auto
    show ?thesis
    proof (cases x)
      case (Inl e)
      let ?p3 = "finish (q, Missed) ?p2"
      have "?step ?p2 ?p3" by (rule unresolved) simp
      with 2 have "?step\<^sup>*\<^sup>* p ?p3" by (rule rtranclp.rtrancl_into_rtrancl)
      moreover have "r = None" "s' = s1" "w' = w"
        using assms(1) fm(3) None s1 Inl by (auto simp: resolveForContext_def query_key_def)
      ultimately show ?thesis using m1 fm(2) by (intro exI [of _ ?p3]) (simp add: frame_def matches_def)
    next
      case (Inr svc)
      obtain al vs where al: "pool_alloc ?key (p_vips p) = (al, vs)" by (metis surj_pair)
      show ?thesis
      proof (cases al)
        case (Inl e)
        let ?p3 = "finish (q, Missed) (?p2\<lparr>p_vips := vs\<rparr>)"
        have "?step ?p2 ?p3" by (rule no_vip) (use al Inl in simp_all)
        with 2 have "?step\<^sup>*\<^sup>* p ?p3" by (rule rtranclp.rtrancl_into_rtrancl)
        moreover have "r = None" "s' = s1\<lparr>ds_vips := vs\<rparr>" "w' = w"
          using assms(1) fm(3) None s1 \<open>x = Inr svc\<close> m1(2) al Inl by (auto simp: resolveForContext_def query_key_def)
        ultimately show ?thesis using m1 fm(2) by (intro exI [of _ ?p3]) (simp add: frame_def matches_def)
      next
        case (Inr v)
        let ?p3 = "grant v q (move (q, Missed) (Starting v (map Port (Ports svc))) (?p2\<lparr>p_vips := vs\<rparr>))"
        have "?step ?p2 ?p3" by (rule allocated) (use al Inr in simp_all)
        with 2 have 3: "?step\<^sup>*\<^sup>* p ?p3" by (rule rtranclp.rtrancl_into_rtrancl)
        obtain ok where st: "start_ports env (q_contextName q) (IP_String v) (Ports svc) (s1\<lparr>ds_vips := vs\<rparr>) w = Some (ok, s', w')"
          and r: "r = (if ok then Some \<lparr>cv_contextName = q_contextName q, cv_ip = v, cv_ports = Ports svc\<rparr> else None)"
          using assms(1) fm(3) None s1 \<open>x = Inr svc\<close> m1(2) al Inr
          by (auto simp: resolveForContext_def query_key_def split: bind_splits)
        have "matches env (s1\<lparr>ds_vips := vs\<rparr>) w ?p3" using m1 fm(2) by (simp add: matches_def)
        from start_fresh_runs [OF st assms(2) this assms(5), of "p_tasks p" ord Q] obtain p4 where
          p4: "?step\<^sup>*\<^sup>* ?p3 p4" "frame ?p3 p4" "matches env s' w' p4" "p_tasks p4 = p_tasks p"
          "p_answers p4 = p_answers p \<union> (if ok then {(q, v)} else {})" by auto
        have "?step\<^sup>*\<^sup>* p p4" using 3 p4(1) by (rule rtranclp_trans)
        moreover have "frame p p4" using p4(2) by (simp add: frame_def)
        ultimately show ?thesis using p4 r by (intro exI [of _ p4]) simp
      qed
    qed
  qed
qed

definition mk_query :: "string \<Rightarrow> string \<Rightarrow> string \<Rightarrow> string \<Rightarrow> query" where
  "mk_query ctx ns svc pod = \<lparr>q_contextName = ctx, q_namespace = ns, q_svcName = svc, q_podName = pod\<rparr>"

lemma mk_query_simps [simp]:
  "q_contextName (mk_query ctx ns svc pod) = ctx" "q_namespace (mk_query ctx ns svc pod) = ns"
  "q_svcName (mk_query ctx ns svc pod) = svc" "q_podName (mk_query ctx ns svc pod) = pod"
  by (simp_all add: mk_query_def)

lemma resolveForContext_name:
  "resolveForContext env ctx ns svc pod s w = Some (r, s', w') \<Longrightarrow> x \<in> set_option r \<Longrightarrow> cv_contextName x = ctx"
  by (auto simp: resolveForContext_def Let_def split: option.splits prod.splits sum.splits bind_splits if_splits)

lemma resolve_contexts_runs:
  assumes "resolve_contexts env ctxs ns svc pod s w = Some (rs, s', w')"
    and "mono (de_time env)" "matches env s w p" "\<forall>c \<in> set ctxs. c \<noteq> '''' \<and> mk_query c ns svc pod \<in> Q"
  shows "\<exists>p'. (p_step (de_io env) ord Q)\<^sup>*\<^sup>* p p' \<and> frame p p' \<and> matches env s' w' p' \<and> p_tasks p' = p_tasks p \<and>
    p_answers p' = p_answers p \<union> (\<lambda>x. (mk_query (cv_contextName x) ns svc pod, cv_ip x)) ` set rs"
  using assms(1,3,4)
proof (induction ctxs arbitrary: s w p rs)
  case Nil
  then show ?case by (intro exI [of _ p]) simp
next
  case (Cons c ctxs)
  then obtain r s1 w1 rs1 where one: "resolveForContext env c ns svc pod s w = Some (r, s1, w1)"
    and rest: "resolve_contexts env ctxs ns svc pod s1 w1 = Some (rs1, s', w')"
    and rs: "rs = (case r of None \<Rightarrow> rs1 | Some x \<Rightarrow> x # rs1)" by (auto split: bind_splits)
  let ?q = "mk_query c ns svc pod" and ?step = "p_step (de_io env) ord Q"
  have "?q \<in> Q" "c \<noteq> ''''" and ctxs: "\<forall>c \<in> set ctxs. c \<noteq> '''' \<and> mk_query c ns svc pod \<in> Q"
    using Cons.prems(3) by simp_all
  then obtain p1 where p1: "?step\<^sup>*\<^sup>* p p1" "frame p p1" "matches env s1 w1 p1" "p_tasks p1 = p_tasks p"
    "p_answers p1 = p_answers p \<union> (\<lambda>x. (?q, cv_ip x)) ` set_option r"
    using resolve_one_runs [OF _ assms(2) Cons.prems(2), of ?q r s1 w1 Q ord] one by auto
  obtain p2 where p2: "?step\<^sup>*\<^sup>* p1 p2" "frame p1 p2" "matches env s' w' p2" "p_tasks p2 = p_tasks p1"
    "p_answers p2 = p_answers p1 \<union> (\<lambda>x. (mk_query (cv_contextName x) ns svc pod, cv_ip x)) ` set rs1"
    using Cons.IH [OF rest p1(3) ctxs] by blast
  have "p_answers p2 = p_answers p \<union> (\<lambda>x. (mk_query (cv_contextName x) ns svc pod, cv_ip x)) ` set rs"
    using p1(5) p2(5) resolveForContext_name [OF one] by (cases r) (auto simp: rs)
  with p1 p2 show ?case by (intro exI [of _ p2]) (auto intro: rtranclp_trans frame_trans)
qed

subsection \<open>A first question\<close>

text \<open>
  The process before its first question, and after it: the service asked for has the VIP
  \<^verbatim>\<open>10.0.0.2\<close> and, unless a second port is still to come, a listener on its port 80.
\<close>

definition proc0 :: "(nat, nat list, host) process" where
  "proc0 = \<lparr>p_fm = NewForwardManager True 10, p_vips = (alloc0, host0), p_world = [], p_now = 0,
     p_tasks = {#}, p_loops = {#}, p_entering = {#}, p_serving = {#}, p_fired = {#}, p_releasing = {#},
     p_granted = {}, p_answers = {}, p_dials = {}\<rparr>"

definition fm_of :: "string \<Rightarrow> nat forwardManager" where
  "fm_of c = demo_fm\<lparr>entries := [key_of c \<mapsto> demo_entry],
     vheap := [0 \<mapsto> \<lparr>timer = Some 0, generation = 1, activeConns = 0, forwardKeys = [key_of c]\<rparr>]\<rparr>"

definition q_web :: query where
  "q_web = mk_query ''east'' ''prod'' ''web'' ''''"

abbreviation demo_step :: "query set \<Rightarrow> (nat, nat list, host) process \<Rightarrow> (nat, nat list, host) process \<Rightarrow> bool" where
  "demo_step Q \<equiv> p_step demo_io by_name Q"

lemma proc0_simps [simp]:
  "p_fm proc0 = NewForwardManager True 10" "p_vips proc0 = (alloc0, host0)" "p_world proc0 = []" "p_now proc0 = 0"
  "p_tasks proc0 = {#}" "p_loops proc0 = {#}" "p_entering proc0 = {#}" "p_serving proc0 = {#}" "p_fired proc0 = {#}"
  "p_releasing proc0 = {#}" "p_granted proc0 = {}" "p_answers proc0 = {}" "p_dials proc0 = {}"
  by (simp_all add: proc0_def)

lemma proc0_init: "p_init True 10 proc0"
  using alloc0(1) by (auto simp: p_init_def)

lemma proc0_reachable: "reachable (p_init True 10) (demo_step Q) proc0"
  by (rule reach_init) (rule proc0_init)

lemma proc0_lookup: "pool_lookup (alloc0, host0) k = None"
  using ds0_lookup [of k] by (simp add: ds0_def)

lemma first_forward:
  "StartForward demo_io 0 0 cm c ''10.0.0.2'' 80 (NewForwardManager True 10) [] = (None, fm_of c, [0])" if "c \<noteq> ''''"
  using that by (simp add: StartForward_def start_check_def start_commit_def new_context_def touchVIPLocked_def
      rearm_def stopTimer_def put_state_def state_at_def NewForwardManager_def demo_io_def demo_fm_def demo_entry_def
      fm_of_def key_of_def Let_def)

text \<open>The VIP is allocated and the ports, 80 first, are about to be started.\<close>

lemma first_alloc:
  assumes "q \<in> Q" "q_contextName q \<noteq> ''''"
  obtains vs where "pool_lookup vs = [query_key q \<mapsto> [10, 0, 0, 2]]"
    "(demo_step Q)\<^sup>*\<^sup>* proc0 (proc0\<lparr>p_tasks := {#(q, Starting [10, 0, 0, 2] ports)#}, p_vips := vs,
       p_granted := {([10, 0, 0, 2], q)}\<rparr>)"
proof -
  obtain vs where "pool_alloc (query_key q) (ds_vips ds0) = (Inr [10, 0, 0, 2], vs)" using ds0_alloc by blast
  then have al: "pool_alloc (query_key q) (alloc0, host0) = (Inr [10, 0, 0, 2], vs)" by (simp add: ds0_def)
  have "Vip_Allocator.pool_inv (alloc0, host0)" using pool_inv_ds0 by (simp add: ds0_def)
  from pool.alloc_ok [OF this al] have "pool_lookup vs = (pool_lookup (alloc0, host0))(query_key q \<mapsto> [10, 0, 0, 2])"
    by simp
  also have "pool_lookup (alloc0, host0) = Map.empty" by (rule ext) (rule proc0_lookup)
  finally have look: "pool_lookup vs = [query_key q \<mapsto> [10, 0, 0, 2]]" .
  let ?p1 = "proc0\<lparr>p_tasks := add_mset (q, Asked) (p_tasks proc0)\<rparr>"
  let ?p2 = "move (q, Asked) Missed ?p1"
  let ?p3 = "grant [10, 0, 0, 2] q (move (q, Missed) (Starting [10, 0, 0, 2] ports) (?p2\<lparr>p_vips := vs\<rparr>))"
  have "demo_step Q proc0 ?p1" by (rule ask [OF assms])
  moreover have "demo_step Q ?p1 ?p2" by (rule miss) (simp_all add: proc0_lookup)
  moreover have "demo_step Q ?p2 ?p3" by (rule allocated) (simp_all add: al)
  ultimately have "(demo_step Q)\<^sup>*\<^sup>* proc0 ?p3" by (meson r_into_rtranclp rtranclp.rtrancl_into_rtrancl)
  then show ?thesis
    by (intro that [OF look]) (simp add: move_def grant_def proc0_def)
qed

text \<open>The listener on port 80 is running; the other ports are still to be started.\<close>

lemma first_listener:
  assumes "q \<in> Q" "q_contextName q \<noteq> ''''"
  obtains p where "reachable (p_init True 10) (demo_step Q) p" "pool_lookup (p_vips p) = [query_key q \<mapsto> [10, 0, 0, 2]]"
    "p_fm p = fm_of (q_contextName q)" "p_world p = [0]" "p_now p \<le> 0" "p_tasks p = {#(q, Starting [10, 0, 0, 2] ports)#}"
    "frame proc0 p" "p_answers p = {}" "p_granted p = {([10, 0, 0, 2], q)}"
proof -
  obtain vs where vs: "pool_lookup vs = [query_key q \<mapsto> [10, 0, 0, 2]]"
    "(demo_step Q)\<^sup>*\<^sup>* proc0 (proc0\<lparr>p_tasks := {#(q, Starting [10, 0, 0, 2] (80 # ports))#}, p_vips := vs,
       p_granted := {([10, 0, 0, 2], q)}\<rparr>)" by (rule first_alloc [OF assms])
  let ?p1 = "proc0\<lparr>p_tasks := {#(q, Starting [10, 0, 0, 2] (80 # ports))#}, p_vips := vs,
       p_granted := {([10, 0, 0, 2], q)}\<rparr>"
  have st: "StartForward demo_io 0 0 demo_mgr (q_contextName q) (IP_String [10, 0, 0, 2]) 80 (p_fm ?p1) (p_world ?p1) =
      (None, fm_of (q_contextName q), [0])"
    using first_forward [OF assms(2)] by (simp add: vip2_text)
  have t: "(q, Starting [10, 0, 0, 2] (80 # ports)) \<in># p_tasks ?p1" "p_now ?p1 \<le> 0" "(0 :: int) \<le> 0" by simp_all
  obtain p where p: "(demo_step Q)\<^sup>*\<^sup>* ?p1 p" "frame ?p1 p" "p_fm p = fm_of (q_contextName q)" "p_world p = [0]"
    "p_vips p = vs" "p_now p \<le> 0" "p_answers p = {}" "p_granted p = {([10, 0, 0, 2], q)}" "p_tasks p = {#(q, Starting [10, 0, 0, 2] ports)#}"
    using start_forward_runs [OF st assms(2) t, of by_name Q] by auto
  have "reachable (p_init True 10) (demo_step Q) p"
    by (rule reachable_steps [OF proc0_reachable rtranclp_trans [OF vs(2) p(1)]])
  moreover have "frame proc0 p" using p(2) by (simp add: frame_def)
  ultimately show ?thesis using p vs(1) by (intro that) simp_all
qed

text \<open>The question is answered, and a client has connected.\<close>

lemma first_client:
  assumes "q \<in> Q" "q_contextName q \<noteq> ''''"
  obtains p where "reachable (p_init True 10) (demo_step Q) p" "pool_lookup (p_vips p) = [query_key q \<mapsto> [10, 0, 0, 2]]"
    "p_fm p = fm_of (q_contextName q)" "p_world p = [0]" "p_now p \<le> 0" "p_tasks p = {#}" "p_fired p = {#}"
    "p_releasing p = {#}" "p_serving p = {#}" "(0, ''10.0.0.2'') \<in># p_entering p"
    "(q, [10, 0, 0, 2]) \<in> p_answers p" "(''10.0.0.2'', 80, q) \<in> p_dials p"
proof -
  obtain p where p: "reachable (p_init True 10) (demo_step Q) p" "pool_lookup (p_vips p) = [query_key q \<mapsto> [10, 0, 0, 2]]"
    "p_fm p = fm_of (q_contextName q)" "p_world p = [0]" "p_now p \<le> 0" "p_tasks p = {#(q, Starting [10, 0, 0, 2] [])#}"
    "frame proc0 p" "p_answers p = {}" "p_granted p = {([10, 0, 0, 2], q)}" by (rule first_listener [OF assms])
  let ?p1 = "reply q [10, 0, 0, 2] (finish (q, Starting [10, 0, 0, 2] []) p)"
  have 1: "demo_step Q p ?p1" by (rule started) (simp add: p(6))
  note trail = trail_partD [OF p_inv_reachable(2) [OF p(1)]]
  have "entries (p_fm p) (key_of (q_contextName q)) = Some demo_entry" by (simp add: p(3) fm_of_def)
  from trail(5) [OF this] obtain lp where lp: "lp \<in># p_loops p" "lp_key lp = key_of (q_contextName q)" by blast
  from trail(4) [OF lp(1)] obtain v where "(v, lp_query lp) \<in> p_granted p" by blast
  then have v: "lp_query lp = q" by (simp add: p(9))
  let ?p2 = "?p1\<lparr>p_dials := insert (''10.0.0.2'', fk_svcPort (lp_key lp), lp_query lp) (p_dials ?p1),
      p_entering := (case conn_lookup ''10.0.0.2'' (p_fm ?p1) of
         None \<Rightarrow> p_entering ?p1 | Some a \<Rightarrow> add_mset (a, ''10.0.0.2'') (p_entering ?p1))\<rparr>"
  have "demo_step Q ?p1 ?p2" by (rule accepted) (use lp in \<open>simp_all add: key_of_def\<close>)
  with 1 p(1) have "reachable (p_init True 10) (demo_step Q) ?p2" by (blast intro: reach_step)
  then show ?thesis
    using p by (intro that [of ?p2])
      (simp_all add: frame_def lp v key_of_def fm_of_def demo_fm_def conn_lookup_def)
qed

subsection \<open>Properties\<close>

text \<open>
  C1: nobody is connected to the wrong service, provided the services that are asked for have
  distinct keys (as all services of slash-free names do; without the condition it is false). In
  every interleaving of questions, connections, expiries, releases and context shutdowns: when a
  client was answered with an address for a service, a connection to that address, at whatever time
  and on whatever port, is tunnelled to that service in that context and to no other. It rests on
  the allocator never handing an address out twice.
\<close>

theorem no_cross_tunnelling:
  assumes "reachable (p_init r idle) (p_step io ord Q) p" "inj_on query_key Q"
    and "(q, v) \<in> p_answers p" "(IP_String v, port, q') \<in> p_dials p"
  shows "q' = q"
proof -
  note pool = p_inv_reachable(1) [OF assms(1)] and trail = trail_partD [OF p_inv_reachable(2) [OF assms(1)]]
  have g: "(v, q) \<in> p_granted p" by (rule trail(6) [OF assms(3)])
  obtain v' where g': "(v', q') \<in> p_granted p" "IP_String v = IP_String v'" using trail(7) [OF assms(4)] by blast
  have "query_key q = query_key q'" by (rule granted_once(2) [OF pool g g'])
  with inj_onD [OF assms(2)] trail(1) g g'(1) show ?thesis by metis
qed

theorem no_cross_tunnelling_witness:
  "\<exists>p. reachable (p_init True 10) (demo_step {q_web}) p \<and> (q_web, [10, 0, 0, 2]) \<in> p_answers p \<and>
     (''10.0.0.2'', 80, q_web) \<in> p_dials p \<and> (\<forall>port q. (''10.0.0.2'', port, q) \<in> p_dials p \<longrightarrow> q = q_web)"
proof -
  have "q_web \<in> {q_web}" "q_contextName q_web \<noteq> ''''" by (simp_all add: q_web_def)
  then obtain p where p: "reachable (p_init True 10) (demo_step {q_web}) p" "(q_web, [10, 0, 0, 2]) \<in> p_answers p"
    "(''10.0.0.2'', 80, q_web) \<in> p_dials p" by (rule first_client)
  have "q = q_web" if "(''10.0.0.2'', port, q) \<in> p_dials p" for port q
    by (rule no_cross_tunnelling [OF p(1) _ p(2)]) (use that in \<open>simp_all only: vip2_text, simp\<close>)
  with p show ?thesis by blast
qed

text \<open>
  C5: an address is given up clean, provided the services that are asked for have distinct keys.
  In every interleaving, a step that hands an address to the releaser, the expiry of an idle address
  or the shutdown of a context, leaves no listener and no idle state on it, and every listener it
  took away had its accept loop cancelled. Without the condition two contexts can share an address,
  and shutting one of them down leaves the other one's listener on it
  (\<open>shutdown_context_orphans_shared_vip\<close>).
\<close>

theorem released_vip_is_clear:
  assumes "map_order ord" "reachable (p_init r idle) (p_step io ord Q) p" "inj_on query_key Q"
    and "p_step io ord Q p p'" "count (p_releasing p) vip < count (p_releasing p') vip"
  shows "vipStates (p_fm p') vip = None \<and> (\<forall>key. fk_vipAddr key = vip \<longrightarrow> entries (p_fm p') key = None) \<and>
    (\<forall>key e. entries (p_fm p) key = Some e \<and> entries (p_fm p') key = None \<longrightarrow> cancel e \<in> cancelled (p_fm p'))"
proof -
  obtain own where "owned own (p_granted p)" by (rule owner_exists [OF assms(2,3)])
  note view = view_reachable_own [OF assms(2) this]
  from assms(4) show ?thesis
  proof cases
    case (expires vip' gen expired m' w')
    with assms(5) have e: "expired" "vip' = vip" by (auto split: if_splits)
    have run: "expire_locked io vip gen (mgr (fm_view p)) (fworld (fm_view p)) = (True, m', w')"
      using expires(3) e by simp
    have "vipStates m' vip = None" using expire_locked_cases [OF run] by auto
    with expired_vip_has_no_listener [OF assms(1) view run] expires(1) show ?thesis
      by (auto split: if_splits)
  next
    case (ctx_shutdown ks c u m' w')
    then have "count (mset (ord (dom u))) vip \<noteq> 0" using assms(5) by (auto split: if_splits)
    then have "vip \<in> set (ord (dom u))" by (metis count_mset_0_iff)
    moreover have fin: "finite (dom u)" using shutdown_context_finite [OF ctx_shutdown(2,3)] .
    ultimately have vip: "vip \<in> dom u" using map_order_set [OF assms(1)] by simp
    note eff = shutdown_context_cases [OF assms(1) ctx_shutdown(2,3)]
    have keys: "keys_ok own (p_fm p)"
      using sys_keys_ok_reachable [OF assms(1) view] by (simp add: sys_keys_ok_def)
    have "entries m' key = None" if "fk_vipAddr key = vip" for key
    proof (rule ccontr)
      assume key: "entries m' key \<noteq> None"
      from vip obtain k where "fk_contextName k = c" "fk_vipAddr k = vip" "entries (p_fm p) k \<noteq> None"
        by (auto simp: domIff eff(2) split: if_splits)
      with keys_okD(1) [OF keys] have "own vip = c" by metis
      moreover from key have "fk_contextName key \<noteq> c" "entries (p_fm p) key \<noteq> None" by (auto simp: eff(1) split: if_splits)
      ultimately show False using keys_okD(1) [OF keys] that by metis
    qed
    moreover have "vipStates m' vip = None" using vip by (simp add: eff(3))
    ultimately show ?thesis
      using shutdown_context_cancelled [OF ctx_shutdown(2,3)] ctx_shutdown(1) eff(1) by (auto split: if_splits)
  qed (use assms(5) in \<open>auto split: if_splits\<close>)
qed

theorem released_vip_is_clear_witness:
  "\<exists>p p'. demo_step {q_web} p p' \<and> p_releasing p' = {#''10.0.0.2''#} \<and> entries (p_fm p) (key_of ''east'') \<noteq> None \<and>
     entries (p_fm p') (key_of ''east'') = None"
proof -
  have "q_web \<in> {q_web}" "q_contextName q_web \<noteq> ''''" by (simp_all add: q_web_def)
  then obtain p where p: "reachable (p_init True 10) (demo_step {q_web}) p" "p_fm p = fm_of ''east''" "p_releasing p = {#}"
    by (rule first_client) (auto simp: q_web_def)
  have ks: "range_of [key_of ''east''] (entries (p_fm p))" by (simp add: range_of_def p(2) fm_of_def)
  obtain u m' w' where run: "shutdown_context_locked demo_io by_name [key_of ''east''] ''east'' (p_fm p) (p_world p) = (u, m', w')"
    by (metis prod_cases3)
  let ?p = "p\<lparr>p_fm := m', p_world := w',
      p_releasing := p_releasing p + (if vipReleaser m' then mset (by_name (dom u)) else {#})\<rparr>"
  have step: "demo_step {q_web} p ?p" by (rule ctx_shutdown [OF ks run])
  note eff = shutdown_context_cases [OF map_order_by_name ks run]
  have "u = [''10.0.0.2'' \<mapsto> the (ParseIP ''10.0.0.2'')]"
    using ParseIP_demo by (auto simp: fun_eq_iff eff(2) p(2) fm_of_def key_of_def)
  moreover have "vipReleaser m'" by (simp add: eff(5) p(2) fm_of_def demo_fm_def)
  ultimately have rel: "p_releasing ?p = {#''10.0.0.2''#}" by (simp add: p(3) by_name_def)
  then have "count (p_releasing p) ''10.0.0.2'' < count (p_releasing ?p) ''10.0.0.2''" by (simp add: p(3))
  from released_vip_is_clear [OF map_order_by_name p(1) _ step this]
  have "entries (p_fm ?p) (key_of ''east'') = None" by (simp add: key_of_def)
  with step rel show ?thesis by (intro exI [of _ p] exI [of _ ?p]) (simp add: p(2) fm_of_def)
qed

text \<open>A callback that finds the state idle and its generation current gives the VIP up for good.\<close>

lemma callback_reclaims:
  assumes "map_order ord" "reachable (p_init r idle) (p_step io ord Q) t" "inj_on query_key Q"
    and "(vip, gen) \<in># p_fired t" "vipStates (p_fm t) vip = Some a" "generation (state_at (p_fm t) a) = gen"
    and "\<not> 0 < sint (activeConns (state_at (p_fm t) a))"
  shows "\<exists>p'. (p_step io ord Q)\<^sup>*\<^sup>* t p' \<and> p_now p' = p_now t \<and> vipStates (p_fm p') vip = None \<and>
    (\<forall>key. fk_vipAddr key = vip \<longrightarrow> entries (p_fm p') key = None) \<and>
    p_vips p' = release_vip pool_release vip (p_vips t)"
proof -
  let ?step = "p_step io ord Q"
  obtain b m' w' where e: "expire_locked io vip gen (p_fm t) (p_world t) = (b, m', w')" by (metis prod_cases3)
  with assms(5-7) have b: "b" by (auto simp: expire_locked_def split: prod.splits if_splits)
  let ?t1 = "t\<lparr>p_fm := m', p_world := w', p_fired := p_fired t - {#(vip, gen)#},
      p_releasing := (if b then add_mset vip (p_releasing t) else p_releasing t)\<rparr>"
  let ?t2 = "?t1\<lparr>p_vips := release_vip pool_release vip (p_vips ?t1), p_releasing := p_releasing ?t1 - {#vip#}\<rparr>"
  have 1: "?step t ?t1" by (rule expires [OF assms(4) e])
  have "?step ?t1 ?t2" by (rule releases) (simp add: b)
  with 1 have 2: "?step\<^sup>*\<^sup>* t ?t2" by (rule converse_rtranclp_into_rtranclp [OF _ r_into_rtranclp])
  obtain own where "owned own (p_granted t)" by (rule owner_exists [OF assms(2,3)])
  from expired_vip_has_no_listener [OF assms(1) view_reachable_own [OF assms(2) this]] e b
  have "\<forall>key. fk_vipAddr key = vip \<longrightarrow> entries m' key = None" by fastforce
  moreover have "vipStates m' vip = None" using expire_locked_cases [OF e] b by auto
  ultimately show ?thesis using 2 by (intro exI [of _ ?t2]) simp
qed

text \<open>
  C6: what is tracked and unused is reclaimed, provided the services that are asked for have
  distinct keys. From every reachable state in which a VIP has an idle state and no connection is
  served on this state, there is a run in which at most an idle timeout passes and after which the
  VIP has no listener and no state, its key is free in the allocator, and every other key has the VIP
  it had: a timer or a callback for it is always under way. Not covered, and not reclaimed, are VIPs
  without an idle state: all VIPs if the idle timeout is 0, and those whose listeners failed to start.
\<close>

theorem idle_vip_reclaimed:
  assumes "map_order ord" "reachable (p_init r idle) (p_step io ord Q) p" "inj_on query_key Q"
    and "vipStates (p_fm p) vip = Some a" "\<forall>v. (a, v) \<notin># p_serving p"
  shows "\<exists>p'. (p_step io ord Q)\<^sup>*\<^sup>* p p' \<and> p_now p' \<le> p_now p + idleTimeout (p_fm p) \<and>
    vipStates (p_fm p') vip = None \<and> (\<forall>key. fk_vipAddr key = vip \<longrightarrow> entries (p_fm p') key = None) \<and>
    (\<forall>k. pool_lookup (p_vips p') k =
       (case pool_lookup (p_vips p) k of None \<Rightarrow> None | Some v \<Rightarrow> if IP_String v = vip then None else Some v))"
proof -
  let ?step = "p_step io ord Q" and ?gen = "generation (state_at (p_fm p) a)"
  note idle = idle_ticking [OF view_reachable [OF assms(2)], unfolded view_simps, OF assms(4,5)]
  obtain v q where v: "(v, q) \<in> p_granted p" "vip = IP_String v"
    using trail_partD(8) [OF p_inv_reachable(2) [OF assms(2)], of vip] assms(4) by auto
  note pool = p_inv_reachable(1) [OF assms(2)]
  have rel: "pool_lookup (release_vip pool_release vip (p_vips p)) k =
      (case pool_lookup (p_vips p) k of None \<Rightarrow> None | Some v \<Rightarrow> if IP_String v = vip then None else Some v)" for k
    using pool unfolding v(2) pool_part_def by (intro release_text granted_length [OF pool v(1)]) blast
  show ?thesis
  proof (cases "(vip, ?gen) \<in># p_fired p")
    case True
    from callback_reclaims [OF assms(1-3) True assms(4) refl idle(1)] idle(3) rel show ?thesis
      by (metis less_add_same_cancel1 less_imp_le)
  next
    case False
    with idle(2) obtain t due where t: "armed (p_fm p) t = Some (due, vip, ?gen)" "due \<le> p_now p + idleTimeout (p_fm p)"
      by blast
    let ?p1 = "p\<lparr>p_now := max (p_now p) due\<rparr>"
    let ?p2 = "?p1\<lparr>p_fm := (p_fm ?p1)\<lparr>armed := (armed (p_fm ?p1))(t := None)\<rparr>,
        p_fired := add_mset (vip, ?gen) (p_fired ?p1)\<rparr>"
    have 1: "?step p ?p1" by (rule p_time) simp
    have 2: "?step ?p1 ?p2" by (rule fires [where due = due]) (use t in simp_all)
    have r2: "reachable (p_init r idle) ?step ?p2" using assms(2) 1 2 by (blast intro: reach_step)
    obtain p' where p': "?step\<^sup>*\<^sup>* ?p2 p'" "p_now p' = p_now ?p2" "vipStates (p_fm p') vip = None"
      "\<forall>key. fk_vipAddr key = vip \<longrightarrow> entries (p_fm p') key = None"
      "p_vips p' = release_vip pool_release vip (p_vips ?p2)"
      using callback_reclaims [OF assms(1) r2 assms(3), of vip ?gen a] idle(1) assms(4) by (auto simp: state_at_def)
    have "?step\<^sup>*\<^sup>* p p'" using 1 2 p'(1) by (meson converse_rtranclp_into_rtranclp)
    with p' t(2) idle(3) rel show ?thesis by (intro exI [of _ p']) simp
  qed
qed

theorem idle_vip_reclaimed_witness:
  "\<exists>p p'. (demo_step {q_web})\<^sup>*\<^sup>* p p' \<and> entries (p_fm p) (key_of ''east'') \<noteq> None \<and>
     entries (p_fm p') (key_of ''east'') = None \<and> pool_lookup (p_vips p') (query_key q_web) = None"
proof -
  have "q_web \<in> {q_web}" "q_contextName q_web \<noteq> ''''" by (simp_all add: q_web_def)
  then obtain p where p: "reachable (p_init True 10) (demo_step {q_web}) p" "p_fm p = fm_of ''east''"
    "p_serving p = {#}" "pool_lookup (p_vips p) = [query_key q_web \<mapsto> [10, 0, 0, 2]]"
    by (rule first_client) (auto simp: q_web_def)
  have "vipStates (p_fm p) ''10.0.0.2'' = Some 0" by (simp add: p(2) fm_of_def demo_fm_def)
  from idle_vip_reclaimed [OF map_order_by_name p(1) _ this] obtain p' where
    "(demo_step {q_web})\<^sup>*\<^sup>* p p'" "\<forall>key. fk_vipAddr key = ''10.0.0.2'' \<longrightarrow> entries (p_fm p') key = None"
    "pool_lookup (p_vips p') (query_key q_web) = None"
    using p(3,4) vip2_text by auto
  then show ?thesis by (intro exI [of _ p] exI [of _ p']) (simp add: p(2) fm_of_def key_of_def)
qed

text \<open>
  C7: the DNS server as a whole. Resolving an A question, through all the contexts it concerns, is
  a run of the interleaved process that ends in the state the resolution ends in, leaves no task
  behind, touches no connection, and answers exactly the services and addresses of its result.
\<close>

theorem resolveA_runs:
  assumes "resolveA srv env qname s w = Some (rs, s', w')" "mono (de_time env)" "matches env s w p"
    and "ParseClusterHost (TrimSuffix qname ''.'') (clusterDomain srv) = Some (pod, svc, ns, ctx)"
    and "\<forall>c \<in> set (relevant_contexts env ctx s). c \<noteq> '''' \<and> mk_query c ns svc pod \<in> Q"
  shows "\<exists>p'. (p_step (de_io env) ord Q)\<^sup>*\<^sup>* p p' \<and> frame p p' \<and> matches env s' w' p' \<and> p_tasks p' = p_tasks p \<and>
    p_answers p' = p_answers p \<union> (\<lambda>x. (mk_query (cv_contextName x) ns svc pod, cv_ip x)) ` set rs"
proof -
  have "resolve_contexts env (relevant_contexts env ctx s) ns svc pod s w = Some (rs, s', w')"
    using assms(1,4) by (auto simp: resolveA_def relevant_contexts_def split: bind_splits option.splits if_splits)
  from resolve_contexts_runs [OF this assms(2,3,5)] show ?thesis .
qed

lemma proc0_matches: "matches env0 ds0 [] proc0"
  by (simp add: matches_def ds0_def env0_def)

theorem resolveA_runs_witness:
  "\<exists>p. reachable (p_init True 10) (demo_step {q_web}) p \<and> p_tasks p = {#} \<and> p_answers p = {(q_web, [10, 0, 0, 2])}"
proof -
  obtain s' where run: "resolveA srv0 env0 web_east ds0 [] =
      Some ([\<lparr>cv_contextName = ''east'', cv_ip = [10, 0, 0, 2], cv_ports = Ports (demo_svc 5)\<rparr>], s', [0])"
    using ds0_answer by (auto simp: resolveA_def parse_web_east)
  have "mono (de_time env0)" by (auto simp: env0_def intro: monoI)
  from resolveA_runs [OF run this proc0_matches parse_web_east, of "{q_web}" by_name] obtain p where
    "(demo_step {q_web})\<^sup>*\<^sup>* proc0 p" "p_tasks p = {#}" "p_answers p = {(q_web, [10, 0, 0, 2])}"
    by (auto simp: relevant_contexts_def q_web_def env0_def)
  then show ?thesis using reachable_steps [OF proc0_reachable] by blast
qed

subsection \<open>Races\<close>

text \<open>The timer of the first VIP goes off once the idle timeout has passed.\<close>

lemma first_fires:
  assumes "p_fm p = fm_of c" "p_now p \<le> 10"
  shows "(demo_step Q)\<^sup>*\<^sup>* p (p\<lparr>p_now := 10, p_fm := (fm_of c)\<lparr>armed := Map.empty\<rparr>,
    p_fired := add_mset (''10.0.0.2'', 1) (p_fired p)\<rparr>)"
proof -
  let ?p1 = "p\<lparr>p_now := 10\<rparr>"
  let ?p2 = "?p1\<lparr>p_fm := (p_fm ?p1)\<lparr>armed := (armed (p_fm ?p1))(0 := None)\<rparr>,
      p_fired := add_mset (''10.0.0.2'', 1) (p_fired ?p1)\<rparr>"
  have "demo_step Q p ?p1" by (rule p_time [OF assms(2)])
  moreover have "demo_step Q ?p1 ?p2" by (rule fires [where due = 10]) (simp_all add: assms(1) fm_of_def demo_fm_def)
  ultimately have "(demo_step Q)\<^sup>*\<^sup>* p ?p2" by (meson r_into_rtranclp rtranclp.rtrancl_into_rtrancl)
  moreover have "?p2 = p\<lparr>p_now := 10, p_fm := (fm_of c)\<lparr>armed := Map.empty\<rparr>,
    p_fired := add_mset (''10.0.0.2'', 1) (p_fired p)\<rparr>"
    by (simp add: assms(1) fm_of_def demo_fm_def)
  ultimately show ?thesis by simp
qed

lemma first_expires:
  "expire_locked demo_io ''10.0.0.2'' 1 ((fm_of c)\<lparr>armed := Map.empty\<rparr>) [0] =
     (True, (fm_of c)\<lparr>armed := Map.empty, entries := Map.empty, vipStates := Map.empty, cancelled := {0}\<rparr>, [])"
  by (simp add: expire_locked_def fm_of_def demo_fm_def state_at_def cancel_entry_def demo_entry_def demo_io_def key_of_def)

lemma first_release:
  assumes "Vip_Allocator.pool_inv vs" "pool_lookup vs k = Some [10, 0, 0, 2]"
  shows "pool_lookup (release_vip pool_release ''10.0.0.2'' vs) k = None"
proof -
  have "dotted [10, 0, 0, 2] = ''10.0.0.2''" using vip2_text by simp
  then have ip: "ParseIP ''10.0.0.2'' = Some (v4InV6Prefix @ [10, 0, 0, 2])"
    using ParseIP_dotted [of "[10, 0, 0, 2]"] by simp
  obtain r vs' where rel: "pool_release (v4InV6Prefix @ [10, 0, 0, 2]) vs = (r, vs')" by (metis surj_pair)
  with pool.release_known [OF assms rel] ip show ?thesis by (simp add: release_vip_def)
qed

text \<open>Then its callback expires the VIP and hands it to the releaser, which frees it in the allocator.\<close>

lemma expiry_steps:
  assumes "p_fm p = (fm_of c)\<lparr>armed := Map.empty\<rparr>" "p_world p = [0]" "p_fired p = {#(''10.0.0.2'', 1)#}"
    and "p_releasing p = {#}" "reachable (p_init True 10) (demo_step Q) p" "pool_lookup (p_vips p) k = Some [10, 0, 0, 2]"
  obtains p1 p2 where "demo_step Q p p1" "p_fired p1 = {#}" "p_releasing p1 = {#''10.0.0.2''#}"
    "p_entering p1 = p_entering p" "p_serving p1 = p_serving p" "p_tasks p1 = p_tasks p"
    "demo_step Q p1 p2" "p_fired p2 = {#}" "p_releasing p2 = {#}" "pool_lookup (p_vips p2) k = None"
    "entries (p_fm p2) = Map.empty" "vipStates (p_fm p2) = Map.empty"
    "p_entering p2 = p_entering p" "p_serving p2 = p_serving p" "p_tasks p2 = p_tasks p"
proof -
  let ?vip = "''10.0.0.2''"
  let ?m = "(fm_of c)\<lparr>armed := Map.empty, entries := Map.empty, vipStates := Map.empty, cancelled := {0}\<rparr>"
  let ?p1 = "p\<lparr>p_fm := ?m, p_world := [], p_fired := p_fired p - {#(?vip, 1)#},
      p_releasing := (if True then add_mset ?vip (p_releasing p) else p_releasing p)\<rparr>"
  have e: "expire_locked demo_io ?vip 1 (p_fm p) (p_world p) = (True, ?m, [])"
    using first_expires by (simp add: assms(1,2))
  have 1: "demo_step Q p ?p1" by (rule expires [OF _ e]) (simp add: assms(3))
  let ?p2 = "?p1\<lparr>p_vips := release_vip pool_release ?vip (p_vips ?p1), p_releasing := p_releasing ?p1 - {#?vip#}\<rparr>"
  have 2: "demo_step Q ?p1 ?p2" by (rule releases) simp
  have "Vip_Allocator.pool_inv (p_vips p)" using p_inv_reachable(1) [OF assms(5)] by (simp add: pool_part_def)
  then have "pool_lookup (p_vips ?p2) k = None" using first_release [OF _ assms(6)] by simp
  then show ?thesis using assms(3,4) by (intro that [OF 1 _ _ _ _ _ 2]) simp_all
qed

lemma first_expiry:
  assumes "p_fm p = fm_of c" "p_world p = [0]" "p_now p \<le> 10" "p_fired p = {#}" "p_releasing p = {#}"
    and "reachable (p_init True 10) (demo_step Q) p" "pool_lookup (p_vips p) k = Some [10, 0, 0, 2]"
  obtains p' vs where "reachable (p_init True 10) (demo_step Q) p'" "entries (p_fm p') = Map.empty"
    "vipStates (p_fm p') = Map.empty" "p_releasing p' = {#}" "pool_lookup (p_vips p') k = None"
    "p_entering p' = p_entering p" "p_serving p' = p_serving p" "p_tasks p' = p_tasks p"
proof -
  let ?p0 = "p\<lparr>p_now := 10, p_fm := (fm_of c)\<lparr>armed := Map.empty\<rparr>, p_fired := add_mset (''10.0.0.2'', 1) (p_fired p)\<rparr>"
  have 0: "reachable (p_init True 10) (demo_step Q) ?p0"
    by (rule reachable_steps [OF assms(6) first_fires [OF assms(1,3)]])
  obtain p1 p2 where "demo_step Q ?p0 p1" "demo_step Q p1 p2" "entries (p_fm p2) = Map.empty"
    "vipStates (p_fm p2) = Map.empty" "p_releasing p2 = {#}" "pool_lookup (p_vips p2) k = None"
    "p_entering p2 = p_entering ?p0" "p_serving p2 = p_serving ?p0" "p_tasks p2 = p_tasks ?p0"
    by (rule expiry_steps [of ?p0 c Q k]) (use assms 0 in simp_all)
  with 0 show ?thesis by (intro that [of p2]) (auto intro: reach_step)
qed


text \<open>
  C37: a connection does not always hold its address. handleConn finds the idle state of the VIP
  and enters it in two steps, and the idle timer can win in between. There is a reachable state in
  which the VIP is allocated and tracked, nobody is served, a connection has found the state and
  not yet entered it, and the timer's callback is under way; from there three steps follow: the
  callback expires the VIP, the release frees it in the allocator, and then the connection enters
  and is served on an address that is released and has no state and no listener any more.
\<close>

theorem served_on_released_vip:
  "\<exists>p0 p1 p2 p3. reachable (p_init True 10) (demo_step {q_web}) p0 \<and>
     pool_lookup (p_vips p0) (query_key q_web) = Some [10, 0, 0, 2] \<and> vipStates (p_fm p0) ''10.0.0.2'' = Some 0 \<and>
     (0, ''10.0.0.2'') \<in># p_entering p0 \<and> p_serving p0 = {#} \<and> p_fired p0 = {#(''10.0.0.2'', 1)#} \<and> p_releasing p0 = {#} \<and>
     demo_step {q_web} p0 p1 \<and> p_fired p1 = {#} \<and> p_releasing p1 = {#''10.0.0.2''#} \<and> p_entering p1 = p_entering p0 \<and>
     demo_step {q_web} p1 p2 \<and> p_releasing p2 = {#} \<and> p_entering p2 = p_entering p0 \<and> p_serving p2 = {#} \<and>
     demo_step {q_web} p2 p3 \<and> p_serving p3 = {#(0, ''10.0.0.2'')#} \<and>
     p_entering p3 = p_entering p0 - {#(0, ''10.0.0.2'')#} \<and> vipStates (p_fm p3) ''10.0.0.2'' = None \<and>
     entries (p_fm p3) = Map.empty \<and> pool_lookup (p_vips p3) (query_key q_web) = None"
proof -
  let ?step = "demo_step {q_web}" and ?vip = "''10.0.0.2''" and ?v = "[10, 0, 0, 2] :: ip"
  have "q_web \<in> {q_web}" "q_contextName q_web \<noteq> ''''" by (simp_all add: q_web_def)
  then obtain p where p: "reachable (p_init True 10) ?step p"
    "pool_lookup (p_vips p) = [query_key q_web \<mapsto> ?v]" "p_fm p = fm_of (q_contextName q_web)"
    "p_world p = [0]" "p_now p \<le> 0" "p_fired p = {#}" "p_releasing p = {#}" "p_serving p = {#}"
    "(0, ?vip) \<in># p_entering p" by (rule first_client)
  let ?p0 = "p\<lparr>p_now := 10, p_fm := (fm_of (q_contextName q_web))\<lparr>armed := Map.empty\<rparr>,
      p_fired := add_mset (?vip, 1) (p_fired p)\<rparr>"
  have 0: "reachable (p_init True 10) ?step ?p0"
    by (rule reachable_steps [OF p(1) first_fires]) (use p in simp_all)
  obtain p1 p2 where s: "?step ?p0 p1" "p_fired p1 = {#}" "p_releasing p1 = {#?vip#}" "p_entering p1 = p_entering ?p0"
    "?step p1 p2" "p_releasing p2 = {#}" "pool_lookup (p_vips p2) (query_key q_web) = None"
    "entries (p_fm p2) = Map.empty" "vipStates (p_fm p2) = Map.empty" "p_entering p2 = p_entering ?p0"
    "p_serving p2 = p_serving ?p0"
    by (rule expiry_steps [of ?p0 "q_contextName q_web" "{q_web}" "query_key q_web"]) (use p 0 in simp_all)
  let ?p3 = "p2\<lparr>p_fm := conn_enter 0 (p_fm p2), p_entering := p_entering p2 - {#(0, ?vip)#},
      p_serving := add_mset (0, ?vip) (p_serving p2)\<rparr>"
  have 3: "?step p2 ?p3" by (rule entered) (simp_all add: s p)
  have "vipStates (p_fm ?p0) ?vip = Some 0" by (simp add: fm_of_def demo_fm_def)
  with 0 s 3 p show ?thesis by (intro exI [of _ ?p0] exI [of _ p1] exI [of _ p2] exI [of _ ?p3]) simp
qed

text \<open>
  C38: asking twice can be too early. While the first question about a service has its VIP
  allocated and its listeners not yet bound, a second question finds the VIP and is answered with
  it: the address is allocated, but nothing listens on it.
\<close>

theorem second_question_too_early:
  "\<exists>p. reachable (p_init True 10) (demo_step {q_web}) p \<and> p_tasks p = {#(q_web, Starting [10, 0, 0, 2] [80])#} \<and>
     (q_web, [10, 0, 0, 2]) \<in> p_answers p \<and> pool_lookup (p_vips p) (query_key q_web) = Some [10, 0, 0, 2] \<and>
     entries (p_fm p) = Map.empty"
proof -
  obtain vs where vs: "pool_lookup vs = [query_key q_web \<mapsto> [10, 0, 0, 2]]"
    "(demo_step {q_web})\<^sup>*\<^sup>* proc0 (proc0\<lparr>p_tasks := {#(q_web, Starting [10, 0, 0, 2] [80])#}, p_vips := vs,
       p_granted := {([10, 0, 0, 2], q_web)}\<rparr>)" by (rule first_alloc [of q_web "{q_web}"]) (simp_all add: q_web_def)
  let ?p1 = "proc0\<lparr>p_tasks := {#(q_web, Starting [10, 0, 0, 2] [80])#}, p_vips := vs,
       p_granted := {([10, 0, 0, 2], q_web)}\<rparr>"
  let ?p2 = "?p1\<lparr>p_tasks := add_mset (q_web, Asked) (p_tasks ?p1)\<rparr>"
  let ?p3 = "grant [10, 0, 0, 2] q_web (move (q_web, Asked) (Hit [10, 0, 0, 2]) ?p2)"
  let ?p4 = "reply q_web [10, 0, 0, 2] (finish (q_web, Hit [10, 0, 0, 2])
      (?p3\<lparr>p_fm := TouchVIP (p_now ?p3) (IP_String [10, 0, 0, 2]) (p_fm ?p3)\<rparr>))"
  have 1: "reachable (p_init True 10) (demo_step {q_web}) ?p1" by (rule reachable_steps [OF proc0_reachable vs(2)])
  have "demo_step {q_web} ?p1 ?p2" by (rule ask) (simp_all add: q_web_def)
  moreover have "demo_step {q_web} ?p2 ?p3" by (rule hit) (simp_all add: vs(1))
  moreover have "demo_step {q_web} ?p3 ?p4" by (rule touched) simp
  ultimately have "reachable (p_init True 10) (demo_step {q_web}) ?p4" using 1 by (blast intro: reach_step)
  with vs(1) show ?thesis by (intro exI [of _ ?p4]) (simp add: TouchVIP_def NewForwardManager_def)
qed

text \<open>The step that performs the critical section of ShutdownContext for the context \<open>ctx\<close>.\<close>

definition shuts_down ::
  "('l, 'w) netio \<Rightarrow> map_order \<Rightarrow> string \<Rightarrow> ('l, 'w, 'h) process \<Rightarrow> ('l, 'w, 'h) process \<Rightarrow> bool" where
  "shuts_down io ord ctx p p' \<longleftrightarrow> (\<exists>ks u m' w'. range_of ks (entries (p_fm p)) \<and>
     shutdown_context_locked io ord ks ctx (p_fm p) (p_world p) = (u, m', w') \<and>
     p' = p\<lparr>p_fm := m', p_world := w',
       p_releasing := p_releasing p + (if vipReleaser m' then mset (ord (dom u)) else {#})\<rparr>)"

lemma shuts_down_step: "shuts_down io ord ctx p p' \<Longrightarrow> p_step io ord Q p p'"
  by (auto simp: shuts_down_def intro: ctx_shutdown)

lemma start_commit_cancelled: "start_commit now key e m = (b, m') \<Longrightarrow> cancelled m' = cancelled m"
  by (auto simp: start_commit_def touchVIPLocked_def rearm_def stopTimer_def put_state_def Let_def
      split: option.splits if_splits)

text \<open>Shutting the context of the first listener down takes the listener away, and the VIP is released.\<close>

lemma first_shutdown:
  assumes "p_fm p = (fm_of c)\<lparr>calloc := n\<rparr>" "p_releasing p = {#}" "reachable (p_init True 10) (demo_step Q) p"
    and "pool_lookup (p_vips p) k = Some [10, 0, 0, 2]"
  obtains p1 p2 where "shuts_down demo_io by_name c p p1" "p_releasing p1 = {#''10.0.0.2''#}" "p_tasks p1 = p_tasks p"
    "demo_step Q p1 p2" "p_releasing p2 = {#}" "p_tasks p2 = p_tasks p" "entries (p_fm p2) = Map.empty"
    "pool_lookup (p_vips p2) k = None" "p_now p2 = p_now p" "cancelled (p_fm p2) = {0}" "p_world p2 = removeAll 0 (p_world p)"
proof -
  let ?vip = "''10.0.0.2''"
  have fm: "entries (p_fm p) = [key_of c \<mapsto> demo_entry]" by (simp add: assms(1) fm_of_def)
  have ks: "range_of [key_of c] (entries (p_fm p))" unfolding fm by (simp add: range_of_def)
  obtain u m w where run: "shutdown_context_locked demo_io by_name [key_of c] c (p_fm p) (p_world p) = (u, m, w)"
    by (metis prod_cases3)
  let ?p1 = "p\<lparr>p_fm := m, p_world := w,
      p_releasing := p_releasing p + (if vipReleaser m then mset (by_name (dom u)) else {#})\<rparr>"
  have 1: "shuts_down demo_io by_name c p ?p1" unfolding shuts_down_def using ks run by blast
  note eff = shutdown_context_cases [OF map_order_by_name ks run]
  have "u = [?vip \<mapsto> the (ParseIP ?vip)]" using ParseIP_demo by (auto simp: fun_eq_iff eff(2) fm key_of_def)
  moreover have "vipReleaser m" by (simp add: eff(5) assms(1) fm_of_def demo_fm_def)
  ultimately have rel: "p_releasing ?p1 = {#?vip#}" by (simp add: by_name_def assms(2))
  let ?p2 = "?p1\<lparr>p_vips := release_vip pool_release ?vip (p_vips ?p1), p_releasing := p_releasing ?p1 - {#?vip#}\<rparr>"
  have 2: "demo_step Q ?p1 ?p2" by (rule releases) (simp only: rel, simp)
  have inv: "Vip_Allocator.pool_inv (p_vips p)" using p_inv_reachable(1) [OF assms(3)] by (simp add: pool_part_def)
  have "cancelled (foldl drop_state m' vs) = cancelled m'" for vs and m' :: "nat forwardManager"
    by (rule foldl_invariant [where P = "\<lambda>x. cancelled x = cancelled m'"])
      (auto simp: drop_state_def stopTimer_def split: option.splits)
  then have "cancelled m = {0} \<and> w = removeAll 0 (p_world p)"
    using run by (auto simp: shutdown_context_locked_def cancel_entry_def assms(1) fm_of_def demo_fm_def demo_entry_def
        demo_io_def key_of_def Let_def split: prod.splits)
  moreover have "entries m = Map.empty" by (auto simp: fun_eq_iff eff(1) fm key_of_def)
  ultimately show ?thesis using rel first_release [OF inv assms(4)] by (intro that [OF 1 rel _ 2]) simp_all
qed

text \<open>
  C35: shutting a context down races with its own listeners. There is a reachable state in which a
  question for a service of the context is unanswered, the listener of its first port is open, and
  StartForward has bound the second port and not yet entered it in the table. From there four steps
  follow, in which no time passes: ShutdownContext of this context closes the first listener and
  hands the VIP to the releaser, the release frees the VIP in the allocator, StartForward enters the
  second listener all the same, and the client is answered. The client now has an address that the
  allocator no longer holds, with a listener of the context that was shut down open on it.
\<close>

theorem shutdown_races_with_start:
  "\<exists>p0 p1 p2 p3 p4 e. reachable (p_init True 10) (demo_step {q_web}) p0 \<and>
     p_tasks p0 = {#(q_web, Committing [10, 0, 0, 2] 443 [] e)#} \<and> p_answers p0 = {} \<and> p_releasing p0 = {#} \<and>
     entries (p_fm p0) (fwd_key q_web [10, 0, 0, 2] 80) \<noteq> None \<and> pool_lookup (p_vips p0) (query_key q_web) = Some [10, 0, 0, 2] \<and>
     shuts_down demo_io by_name (q_contextName q_web) p0 p1 \<and> p_releasing p1 = {#''10.0.0.2''#} \<and>
     demo_step {q_web} p1 p2 \<and> p_releasing p2 = {#} \<and> entries (p_fm p2) = Map.empty \<and>
     pool_lookup (p_vips p2) (query_key q_web) = None \<and>
     demo_step {q_web} p2 p3 \<and> entries (p_fm p3) (fwd_key q_web [10, 0, 0, 2] 443) = Some e \<and>
     demo_step {q_web} p3 p4 \<and> p_now p4 = p_now p0 \<and> p_tasks p4 = {#} \<and> p_releasing p4 = {#} \<and>
     (q_web, [10, 0, 0, 2]) \<in> p_answers p4 \<and> entries (p_fm p4) (fwd_key q_web [10, 0, 0, 2] 443) = Some e \<and>
     listener e \<in> set (p_world p4) \<and> cancel e \<notin> cancelled (p_fm p4) \<and> pool_lookup (p_vips p4) (query_key q_web) = None"
proof -
  let ?step = "demo_step {q_web}" and ?v = "[10, 0, 0, 2] :: ip" and ?vip = "''10.0.0.2''" and ?k = "key_of ''east''"
  let ?key = "fwd_key q_web ?v 443"
  have east: "q_contextName q_web = ''east''" by (simp add: q_web_def)
  have "q_web \<in> {q_web}" "q_contextName q_web \<noteq> ''''" by (simp_all add: q_web_def)
  then obtain p where p: "reachable (p_init True 10) ?step p" "p_tasks p = {#(q_web, Starting ?v [443])#}"
    "pool_lookup (p_vips p) = [query_key q_web \<mapsto> ?v]" "p_fm p = fm_of ''east''" "p_world p = [0]" "frame proc0 p"
    "p_answers p = {}"
    by (rule first_listener [where ports = "[443]"]) (auto simp: east)
  have ne: "?key \<noteq> ?k" "fwd_key q_web ?v 80 = ?k" by (simp_all add: fwd_key_def key_of_def east vip2_text)
  let ?p1 = "move (q_web, Starting ?v [443]) (Listening ?v 443 []) p"
  have "?step p ?p1" by (rule missing) (use ne in \<open>simp_all add: p(2,4) start_check_def fm_of_def\<close>)
  with p(1) have 1: "reachable (p_init True 10) ?step ?p1" by (rule reach_step)
  let ?e = "\<lparr>listener = 1, cancel = 1\<rparr> :: nat forwardEntry"
  let ?p2 = "move (q_web, Listening ?v 443 []) (Committing ?v 443 [] ?e)
      (?p1\<lparr>p_fm := (fm_of ''east'')\<lparr>calloc := 2\<rparr>, p_world := [1, 0]\<rparr>)"
  have "?step ?p1 ?p2"
    by (rule bound) (simp_all add: p(4,5) demo_io_def new_context_def fm_of_def demo_fm_def)
  with 1 have 2: "reachable (p_init True 10) ?step ?p2" by (rule reach_step)
  have fm2: "p_fm ?p2 = (fm_of ''east'')\<lparr>calloc := 2\<rparr>" "p_releasing ?p2 = {#}" using p(6) by (simp_all add: frame_def)
  moreover have look2: "pool_lookup (p_vips ?p2) (query_key q_web) = Some ?v" by (simp add: p(3))
  ultimately obtain p3 p4 where p4: "shuts_down demo_io by_name ''east'' ?p2 p3" "p_releasing p3 = {#?vip#}"
    "p_tasks p3 = p_tasks ?p2" "?step p3 p4" "p_releasing p4 = {#}" "p_tasks p4 = p_tasks ?p2"
    "entries (p_fm p4) = Map.empty" "pool_lookup (p_vips p4) (query_key q_web) = None" "p_now p4 = p_now ?p2"
    "cancelled (p_fm p4) = {0}" "p_world p4 = removeAll 0 (p_world ?p2)"
    by (rule first_shutdown [OF _ _ 2])
  then obtain m5 where c: "start_commit (p_now p4) ?key ?e (p_fm p4) = (False, m5)"
    using start_commit_flag [of "p_now p4" ?key ?e "p_fm p4"] by (simp add: prod_eq_iff)
  let ?p5 = "move (q_web, Committing ?v 443 [] ?e) (Starting ?v [])
      (p4\<lparr>p_fm := m5, p_loops := add_mset \<lparr>lp_key = ?key, lp_entry = ?e, lp_query = q_web\<rparr> (p_loops p4)\<rparr>)"
  have 5: "?step p4 ?p5" by (rule committed [OF _ c]) (simp add: p4(6))
  let ?p6 = "reply q_web ?v (finish (q_web, Starting ?v []) ?p5)"
  have 6: "?step ?p5 ?p6" by (rule started) simp
  have "entries m5 ?key = Some ?e" "cancelled m5 = {0}"
    using start_commit_new [OF c] start_commit_cancelled [OF c] p4(10) by simp_all
  then show ?thesis using fm2 look2 p p4 2 5 6 east ne
    by (intro exI [of _ ?p2] exI [of _ p3] exI [of _ p4] exI [of _ ?p5] exI [of _ ?p6] exI [of _ ?e]) (simp add: fm_of_def)
qed

text \<open>Names without a slash have keys of their own.\<close>

lemma slash_free_keys:
  "inj_on query_key {q. \<forall>x \<in> {q_contextName q, q_namespace q, q_svcName q, q_podName q}. CHR ''/'' \<notin> set x}"
proof (rule inj_onI)
  fix q q' :: query
  assume "q \<in> {q. \<forall>x \<in> {q_contextName q, q_namespace q, q_svcName q, q_podName q}. CHR ''/'' \<notin> set x}"
    "q' \<in> {q. \<forall>x \<in> {q_contextName q, q_namespace q, q_svcName q, q_podName q}. CHR ''/'' \<notin> set x}"
    "query_key q = query_key q'"
  with vip_key_unique [of "q_contextName q" "q_namespace q" "q_svcName q" "q_podName q" "q_contextName q'"
      "q_namespace q'" "q_svcName q'" "q_podName q'"]
  show "q = q'" by (cases q, cases q') (simp add: query_key_def)
qed

text \<open>
  C40: with a slash in the name of a context the wrong cluster answers. The keys of a service of one
  context and of a pod of another are equal then; a client that asks for the pod is answered with
  the service's address, and connections to it are tunnelled into the other cluster.
\<close>

theorem slash_context_misroutes:
  fixes qa qb :: query
  defines "qa \<equiv> mk_query ''team/prod'' ''web'' ''web-0'' ''''" and "qb \<equiv> mk_query ''team'' ''prod'' ''web'' ''web-0''"
  shows "\<exists>p v port. reachable (p_init True 10) (demo_step {qa, qb}) p \<and> (qb, v) \<in> p_answers p \<and>
    (IP_String v, port, qa) \<in> p_dials p \<and> q_contextName qa \<noteq> q_contextName qb"
proof -
  let ?v = "[10, 0, 0, 2] :: ip" and ?step = "demo_step {qa, qb}"
  have "qa \<in> {qa, qb}" "q_contextName qa \<noteq> ''''" by (simp_all add: qa_def)
  then obtain p where p: "reachable (p_init True 10) ?step p" "pool_lookup (p_vips p) = [query_key qa \<mapsto> ?v]"
    "(''10.0.0.2'', 80, qa) \<in> p_dials p" by (rule first_client)
  have key: "query_key qb = query_key qa" by (simp add: query_key_def qa_def qb_def vip_key_def)
  let ?p1 = "p\<lparr>p_tasks := add_mset (qb, Asked) (p_tasks p)\<rparr>"
  let ?p2 = "grant ?v qb (move (qb, Asked) (Hit ?v) ?p1)"
  let ?p3 = "reply qb ?v (finish (qb, Hit ?v) (?p2\<lparr>p_fm := TouchVIP (p_now ?p2) (IP_String ?v) (p_fm ?p2)\<rparr>))"
  have "?step p ?p1" by (rule ask) (simp_all add: qb_def mk_query_def)
  moreover have "?step ?p1 ?p2" by (rule hit) (simp_all add: p(2) key)
  moreover have "?step ?p2 ?p3" by (rule touched) simp
  ultimately have "reachable (p_init True 10) ?step ?p3" using p(1) by (blast intro: reach_step)
  moreover have "(IP_String ?v, 80, qa) \<in> p_dials ?p3" using p(3) by (simp only: vip2_text) simp
  moreover have "(qb, ?v) \<in> p_answers ?p3" by simp
  moreover have "q_contextName qa \<noteq> q_contextName qb" by (simp add: qa_def qb_def)
  ultimately show ?thesis by blast
qed

end
