(* ===== verification/Spec2Isabelle.thy ===== *)
theory Spec2Isabelle
  imports App_Server Tunnel_System
begin

text \<open>
  A verification library for kube-forwarding-proxy, a sidecar that gives Kubernetes services local
  addresses. A DNS question for \<^verbatim>\<open>svc.ns.svc.cluster.local[.context]\<close> is answered with a virtual IP
  (VIP) that the process adds to a network interface and on which it listens; each connection it
  accepts there, and each one its SOCKS5 proxy is asked for, is forwarded to a pod through a SPDY
  port-forward stream of the Kubernetes API. An HTTP endpoint changes the kubeconfig while the
  process runs; VIPs that nobody uses expire.

  \<^bold>\<open>The theories, and the files under \<^verbatim>\<open>src/\<close> they model.\<close>

  \<^item> \<^verbatim>\<open>Prelude\<close>: Go errors as values, loops over maps in any order (\<open>range_of\<close>), reachable states of a
    step relation, decimal numbers.
  \<^item> \<^verbatim>\<open>Go_Strings\<close>, \<^verbatim>\<open>Go_Net\<close>: the functions of packages strings, bytes and net that the program calls.
  \<^item> \<^verbatim>\<open>Cluster_Host\<close>: \<^verbatim>\<open>internal/proxy/cluster.go\<close>. The parser accepts exactly the printed cluster names
    and the same behind a dot (\<open>ParseClusterHost_iff\<close>); where recogniser and parser agree and where
    they do not.
  \<^item> \<^verbatim>\<open>Vip_Iface\<close>: \<^verbatim>\<open>internal/vip/interface.go\<close>, \<^verbatim>\<open>interface_linux.go\<close>,
    \<^verbatim>\<open>interface_darwin.go\<close>, \<^verbatim>\<open>resolve.go\<close>, \<^verbatim>\<open>errors.go\<close>. Both address managers satisfy the contract
    \<open>iface_manager\<close>. A Linux link carries pairs of IP and prefix length, and only \<open>a/32\<close> itself keeps
    \<open>a/32\<close> from being added (\<open>netlink_kernel\<close>): with the default configuration the first VIP is
    127.0.0.1, which the loopback interface carries as 127.0.0.1/8.
  \<^item> \<^verbatim>\<open>Vip_Allocator\<close>: \<^verbatim>\<open>internal/vip/allocator.go\<close>. VIPs are unique, in range and on the link along
    every run, and Allocate returns after as many requests as the range has addresses left. \<open>vip_pool\<close>
    is what its clients rely on; \<open>vip_ledger\<close> adds that no address is ever handed out twice.
  \<^item> \<^verbatim>\<open>Client_Manager\<close>: \<^verbatim>\<open>internal/k8s/client_manager.go\<close>. The loops over maps compute the documented
    merge; the clients are those of the merged config; \<open>config_store\<close> is the contract of the updates.
  \<^item> \<^verbatim>\<open>Resolver\<close>: \<^verbatim>\<open>internal/k8s/resolver.go\<close>. Ready endpoints only, the cache and its expiry.
  \<^item> \<^verbatim>\<open>Spdy_Pool\<close>: the pool of SPDY connections of \<^verbatim>\<open>internal/k8s/forward_manager.go\<close> and
    \<^verbatim>\<open>stream_conn.go\<close>. \<open>pool_step\<close> interleaves the critical sections of any number of goroutines;
    reference counts are exact and no connection in use is closed by them. What is dialled goes to
    the portforward URL of the resolved pod, on the port found (\<open>spdy_traffic\<close>).
  \<^item> \<^verbatim>\<open>Forward_Manager\<close>: the listeners and the idle expiry of the same file. \<open>fm_step\<close> interleaves the
    critical sections, the clock and the timer callbacks; \<open>fm_inv\<close> relates the connection counters to
    the handlers and says that an idle VIP has a timer or a callback pending. \<open>sockets\<close> shows which
    sockets the two shutdowns close.
  \<^item> \<^verbatim>\<open>Kubeconfig_Handler\<close>: \<^verbatim>\<open>internal/k8s/kubeconfig.go\<close>, over the client manager and the forward
    manager. An update closes exactly the tunnels of the contexts it invalidates, sockets included,
    and none if the first of its reads of the kubeconfig files failed.
  \<^item> \<^verbatim>\<open>Dns_Server\<close>: \<^verbatim>\<open>internal/dns/server.go\<close>, over the allocator, the resolver and the forward
    manager. What is answered and with which code, and that every record of a response is well typed.
  \<^item> \<^verbatim>\<open>Tunnel_System\<close>: the last three at work together. \<open>p_step\<close> interleaves the critical sections of any
    number of DNS questions with connections, timers, releases and context shutdowns. If the keys of
    the services are distinct, nobody is connected to the wrong service, a released address is clean
    and an idle one that is tracked is reclaimed; resolving a name as the server does it is one of
    these runs. The races that the separate critical sections leave open are exhibited as chains of
    steps.
  \<^item> \<^verbatim>\<open>Socks5\<close>: \<^verbatim>\<open>internal/proxy/socks5.go\<close>.
  \<^item> \<^verbatim>\<open>App_Config\<close>, \<^verbatim>\<open>App_Server\<close>: \<^verbatim>\<open>app/config.go\<close>, \<^verbatim>\<open>app/server.go\<close>,
    \<^verbatim>\<open>internal/health/server.go\<close>, \<^verbatim>\<open>cmd/proxy/main.go\<close>. Readiness means that Start succeeded; Stop
    closes every socket the server holds (\<open>app_sockets\<close>) and removes every VIP.
  \<^item> This theory: the properties that join components which do not import one another.

  \<^bold>\<open>How the code corresponds.\<close> A struct is a record, a method a definition with the receiver as an
  argument and its changed value in the result; an error is a value (\<open>goerr + 'a\<close>, or \<open>goerr option\<close>
  where only an error is returned); a panic is \<open>None\<close> where the code can panic. int32, uint32 and
  uint64 values are words of that width; Go's int and durations are unbounded, since no value the
  program computes comes near 64 bits. Objects shared by pointer and changed after they were
  shared, the pool entries and the VIP states, live in heaps and are named by addresses; all others
  are values. A loop over a Go map takes the order of the keys as an argument. What is not the
  program's own code (client-go, the SPDY and DNS libraries, netlink, sockets, the clock, the random
  choice, the process environment) is an argument, mostly a record of functions over a world of any
  type, with what the code relies on stated as assumptions or locales (\<open>netlink_kernel\<close>, \<open>sockets\<close>,
  \<open>app_sockets\<close>, \<open>spdy_traffic\<close>, \<open>map_order\<close>, \<open>finite_load\<close>).

  \<^bold>\<open>Concurrency.\<close> A method that holds one mutex throughout is one transition. Methods that release a
  mutex in between are split into their critical sections, which \<open>pool_step\<close> and \<open>fm_step\<close>
  interleave freely; \<open>p_step\<close> joins the DNS server to the latter, and \<open>fm_view\<close> projects its runs onto
  runs of \<open>fm_step\<close>. The operations themselves are compositions of the same definitions, and
  refinement lemmas show that they are runs (\<open>open_close_references\<close>, \<open>resolveA_runs\<close>). The
  /kubeconfig handler, Start and Stop are given as a single goroutine runs them.

  \<^bold>\<open>Bounds.\<close> The 32-bit counters of references and of connections are exact as long as fewer than
  2147483648 holders exist at once: the step relations admit no more. All loops terminate: they recurse
  on lists, except the allocation loop, which runs to the end of the CIDR at most
  (\<open>allocate_terminates\<close>). No fuel is used.

  \<^bold>\<open>Not modelled.\<close> Deadlines and cancellation of contexts other than of the accept loops; the
  copying of bytes between the two ends of a connection; the log lines, but for those of the
  goroutine that drains the error stream; the HTTP, DNS and SOCKS5 protocol engines of the
  libraries; the encoder and the sink of the logger and the redirection of klog. Darwin's manager is
  modelled but not part of the application server's Start, which is the Linux build's. \<^verbatim>\<open>time.ParseDuration\<close> and the Unicode tables of
  \<^verbatim>\<open>strings.ToLower\<close> are arguments. Build files, packaging and tests have no counterpart.
\<close>

subsection \<open>Idle expiry and the allocator\<close>

text \<open>
  C11: an idle VIP goes back to the allocator, and it alone. When the callback of an idle timer
  expires the VIP of a service, expireVIP, run with the allocator as the releaser, leaves the
  manager without a state for it and the allocator without the service's key, while every other key
  keeps its VIP and the allocator stays sound.
\<close>

theorem expired_vip_is_released:
  assumes "Vip_Allocator.pool_inv v" "pool_lookup v k = Some a"
    and "expire_locked io (IP_String a) gen m w = (True, m1, w1)"
  shows "\<exists>v'. expireVIP io pool_release (IP_String a) gen m w v = (m1, w1, v') \<and>
    vipStates m1 (IP_String a) = None \<and> pool_lookup v' = (pool_lookup v)(k := None) \<and> Vip_Allocator.pool_inv v'"
proof -
  have a: "length a = 4" by (rule pool.vip_length [OF assms(1,2)])
  obtain r v' where rel: "pool_release (v4InV6Prefix @ a) v = (r, v')" by (metis surj_pair)
  have "expireVIP io pool_release (IP_String a) gen m w v = (m1, w1, v')"
    using assms(3) a rel by (simp add: expireVIP_def release_vip_def)
  moreover have "vipStates m1 (IP_String a) = None" using expire_locked_cases [OF assms(3)] by auto
  ultimately show ?thesis using pool.release_known [OF assms(1,2) rel] by blast
qed

theorem expired_vip_is_released_witness:
  "\<exists>v'. snd (snd (expireVIP demo_io pool_release ''10.0.0.2'' 1 demo_fm [0] (snd run0))) = v' \<and>
     pool_lookup v' ''web/prod'' = None"
proof -
  have "Vip_Allocator.pool_inv (snd run0)"
    using vip_run_new(1) [OF alloc0(1) run0(1)] by (simp add: Vip_Allocator.pool_inv_def)
  moreover have "pool_lookup (snd run0) ''web/prod'' = Some [10, 0, 0, 2]"
    using run0(2) by (simp add: pool_lookup_def)
  moreover have "\<exists>m1 w1. expire_locked demo_io (IP_String [10, 0, 0, 2]) 1 demo_fm [0] = (True, m1, w1)"
    using demo_expire vip2_text by (simp add: fs2_def fs0_def)
  ultimately show ?thesis
    using expired_vip_is_released [of "snd run0" "''web/prod''" "[10, 0, 0, 2]" demo_io 1 demo_fm "[0]"] vip2_text by fastforce
qed

end
